(* ===== verification/Pdn_Prelude.thy ===== *)
theory Pdn_Prelude
  imports Main "HOL-Library.Word" "HOL-Library.AList"
begin

text \<open>
  The vocabulary shared by every theory of the development.

  \<^item> Bytes and byte strings: Rust's \<open>u8\<close> is an \<open>8 word\<close>, \<open>[u8]\<close>, \<open>Vec<u8>\<close> and the UTF-8 text of a
    \<open>str\<close> are byte lists.
  \<^item> Fixed arrays: \<open>[u8; N]\<close> is a word of \<open>8 * N\<close> bits read big-endian, so that the array order the
    program derives (\<open>Ord\<close>, byte by byte) is the order of the words and no length invariant has to
    be carried around; \<open>arr_bytes\<close> and \<open>arr_of\<close> are \<open>as_bytes\<close> and \<open>from_bytes\<close>.
  \<^item> The pieces of the standard library the sources use on byte strings: \<open>split\<close>,
    \<open>split_first_chunk\<close>, \<open>split_last_chunk\<close>, \<open>to_be_bytes\<close>.
  \<^item> Hash maps and B-tree maps as association lists with one binding per key.
  \<^item> The contract \<open>wire_codec\<close> of every encoder/decoder pair of the program, with the facts its
    clients use.
\<close>

named_theorems codec_simps \<open>equations that unfold encoders and decoders\<close>
named_theorems hmap_simps \<open>lookups in updated maps\<close>

type_synonym byte = "8 word"
type_synonym bytes = "byte list"
type_synonym ('k, 'v) hmap = "('k \<times> 'v) list"

subsection \<open>Byte strings\<close>

text \<open>The bytes of a Rust string literal.\<close>

definition str :: "string \<Rightarrow> bytes" where
  "str s = map of_char s"

text \<open>\<open>u64::to_be_bytes\<close> and the bytes of a fixed array: \<open>n\<close> bytes, the most significant first.\<close>

primrec be_bytes :: "nat \<Rightarrow> nat \<Rightarrow> bytes" where
  "be_bytes 0 x = []"
| "be_bytes (Suc n) x = be_bytes n (x div 256) @ [of_nat x]"

definition be_nat :: "bytes \<Rightarrow> nat" where
  "be_nat bs = foldl (\<lambda>a b. a * 256 + unat b) 0 bs"

definition arr_bytes :: "'a::len word \<Rightarrow> bytes" where
  "arr_bytes w = be_bytes (LENGTH('a) div 8) (unat w)"

definition arr_of :: "bytes \<Rightarrow> 'a::len word" where
  "arr_of bs = of_nat (be_nat bs)"

text \<open>\<open>slice::split_first_chunk\<close> and \<open>slice::split_last_chunk\<close>.\<close>

definition split_first_chunk :: "nat \<Rightarrow> 'a list \<Rightarrow> ('a list \<times> 'a list) option" where
  "split_first_chunk n xs = (if n \<le> length xs then Some (take n xs, drop n xs) else None)"

definition split_last_chunk :: "nat \<Rightarrow> 'a list \<Rightarrow> ('a list \<times> 'a list) option" where
  "split_last_chunk n xs =
     (if n \<le> length xs then Some (take (length xs - n) xs, drop (length xs - n) xs) else None)"

text \<open>
  \<open>str::split\<close> on a one-byte pattern: the segments between the separators, always at least one.
\<close>

fun split_on :: "'a \<Rightarrow> 'a list \<Rightarrow> 'a list list" where
  "split_on c [] = [[]]"
| "split_on c (x # xs) =
     (if x = c then [] # split_on c xs
      else (case split_on c xs of [] \<Rightarrow> [[x]] | s # ss \<Rightarrow> (x # s) # ss))"

fun join_with :: "'a \<Rightarrow> 'a list list \<Rightarrow> 'a list" where
  "join_with c [] = []"
| "join_with c [s] = s"
| "join_with c (s # t # ss) = s @ c # join_with c (t # ss)"

subsection \<open>Maps with one binding per key\<close>

definition hget_or :: "'v \<Rightarrow> ('k, 'v) hmap \<Rightarrow> 'k \<Rightarrow> 'v" where
  "hget_or d m k = (case map_of m k of None \<Rightarrow> d | Some v \<Rightarrow> v)"

text \<open>\<open>*m.entry(k).or_insert(d)\<close> replaced by \<open>f\<close> of it.\<close>

definition hmodify :: "'k \<Rightarrow> 'v \<Rightarrow> ('v \<Rightarrow> 'v) \<Rightarrow> ('k, 'v) hmap \<Rightarrow> ('k, 'v) hmap" where
  "hmodify k d f m = AList.update k (f (hget_or d m k)) m"

subsection \<open>Encoder and decoder pairs\<close>

text \<open>
  What the program relies on of a wire or storage format: a value reads back as itself, and only its
  one spelling reads back at all.
\<close>

locale wire_codec =
  fixes encode :: "'a \<Rightarrow> bytes" and decode :: "bytes \<Rightarrow> 'a option"
  assumes decode_encode: "decode (encode x) = Some x"
    and encode_decode: "decode bs = Some x \<Longrightarrow> encode x = bs"
begin

lemma decode_iff: "decode bs = Some x \<longleftrightarrow> bs = encode x"
  using decode_encode encode_decode by auto

lemma encode_inj: "encode x = encode y \<longleftrightarrow> x = y"
  using decode_encode by (metis option.inject)

lemma decode_inj: "decode a = Some x \<Longrightarrow> decode b = Some x \<Longrightarrow> a = b"
  using encode_decode by blast

lemma decode_None_iff: "decode bs = None \<longleftrightarrow> bs \<notin> range encode"
  by (metis decode_encode decode_iff not_Some_eq rangeE rangeI)

end

subsection \<open>Lemmas on byte strings\<close>

lemma length_str [simp]: "length (str s) = length s"
  by (simp add: str_def)

lemma unat_less: "unat (w :: 'a::len word) < 2 ^ LENGTH('a)"
  by (rule unsigned_less)

lemma length_be_bytes [simp]: "length (be_bytes n x) = n"
  by (induction n arbitrary: x) simp_all

lemma be_nat_Nil [simp]: "be_nat [] = 0"
  by (simp add: be_nat_def)

lemma be_nat_snoc [simp]: "be_nat (bs @ [b]) = be_nat bs * 256 + unat b"
  by (simp add: be_nat_def)

lemma unat_of_nat_byte: "unat (of_nat x :: byte) = x mod 256"
  by (simp add: unat_of_nat)

lemma be_nat_be_bytes: "be_nat (be_bytes n x) = x mod 256 ^ n"
proof (induction n arbitrary: x)
  case 0
  then show ?case by simp
next
  case (Suc n)
  have "be_nat (be_bytes (Suc n) x) = (x div 256) mod 256 ^ n * 256 + x mod 256"
    by (simp add: Suc.IH unat_of_nat_byte)
  also have "\<dots> = x mod (256 * 256 ^ n)"
    by (simp add: mod_mult2_eq)
  finally show ?case by simp
qed

lemma be_nat_less: "be_nat bs < 256 ^ length bs"
proof (induction bs rule: rev_induct)
  case Nil
  then show ?case by simp
next
  case (snoc b bs)
  have "unat b < 256"
    using unat_less [of b] by simp
  moreover have "be_nat bs * 256 + 256 \<le> 256 ^ length bs * 256"
    using snoc by (metis Suc_leI add.commute mult_Suc mult_le_mono1)
  ultimately show ?case by simp
qed

lemma be_bytes_be_nat: "be_bytes (length bs) (be_nat bs) = bs"
proof (induction bs rule: rev_induct)
  case Nil
  then show ?case by simp
next
  case (snoc b bs)
  have "unat b < 256"
    using unat_less [of b] by simp
  then have "(be_nat bs * 256 + unat b) div 256 = be_nat bs"
    by simp
  moreover have "(of_nat (be_nat bs * 256 + unat b) :: byte) = b"
    using \<open>unat b < 256\<close> by (simp only: word_unat_eq_iff unat_of_nat_byte) simp
  ultimately show ?case using snoc by simp
qed

lemma length_arr_bytes: "length (arr_bytes (w :: 'a::len word)) = LENGTH('a) div 8"
  by (simp add: arr_bytes_def)

lemma power_256: "(256::nat) ^ n = 2 ^ (8 * n)"
  by (simp add: power_mult)

lemma arr_of_arr_bytes:
  assumes "8 dvd LENGTH('a::len)"
  shows "arr_of (arr_bytes (w :: 'a word)) = w"
proof -
  from assms have "(256::nat) ^ (LENGTH('a) div 8) = 2 ^ LENGTH('a)"
    by (simp add: power_256)
  then have "unat w mod 256 ^ (LENGTH('a) div 8) = unat w"
    using unat_less [of w] by simp
  then show ?thesis
    by (simp add: arr_of_def arr_bytes_def be_nat_be_bytes)
qed

lemma arr_bytes_arr_of:
  assumes "8 dvd LENGTH('a::len)" and "length bs = LENGTH('a) div 8"
  shows "arr_bytes (arr_of bs :: 'a word) = bs"
proof -
  from assms have "be_nat bs < 2 ^ LENGTH('a)"
    using be_nat_less [of bs] by (simp add: power_256)
  then have "unat (of_nat (be_nat bs) :: 'a word) = be_nat bs"
    by (simp add: unat_of_nat)
  with assms(2) show ?thesis
    using be_bytes_be_nat [of bs] by (simp add: arr_bytes_def arr_of_def)
qed

lemma arr_bytes_inj:
  assumes "8 dvd LENGTH('a::len)"
  shows "arr_bytes (v :: 'a word) = arr_bytes w \<longleftrightarrow> v = w"
  using arr_of_arr_bytes [OF assms] by metis

subsection \<open>Lemmas on chunks\<close>

lemma split_first_chunk_append [simp]:
  "length xs = n \<Longrightarrow> split_first_chunk n (xs @ ys) = Some (xs, ys)"
  by (auto simp: split_first_chunk_def)

lemma split_first_chunk_exact [simp]:
  "length xs = n \<Longrightarrow> split_first_chunk n xs = Some (xs, [])"
  by (auto simp: split_first_chunk_def)

lemma split_first_chunk_Some:
  "split_first_chunk n xs = Some (ys, zs) \<longleftrightarrow> xs = ys @ zs \<and> length ys = n"
  by (auto simp: split_first_chunk_def)

lemma split_last_chunk_append [simp]:
  "length ys = n \<Longrightarrow> split_last_chunk n (xs @ ys) = Some (xs, ys)"
  by (auto simp: split_last_chunk_def)

lemma split_last_chunk_Some:
  "split_last_chunk n xs = Some (ys, zs) \<longleftrightarrow> xs = ys @ zs \<and> length zs = n"
  by (auto simp: split_last_chunk_def)

subsection \<open>Lemmas on splitting at a separator\<close>

lemma split_on_not_Nil [simp]: "split_on c xs \<noteq> []"
  by (induction xs) (auto split: list.splits)

lemma split_on_no_sep: "c \<notin> set xs \<Longrightarrow> split_on c xs = [xs]"
  by (induction xs) auto

lemma split_on_append_sep: "c \<notin> set xs \<Longrightarrow> split_on c (xs @ c # ys) = xs # split_on c ys"
  by (induction xs) auto

lemma join_split: "join_with c (split_on c xs) = xs"
proof (induction xs)
  case Nil
  then show ?case by simp
next
  case (Cons x xs)
  obtain s ss where s: "split_on c xs = s # ss"
    by (cases "split_on c xs") auto
  show ?case
  proof (cases "x = c")
    case True
    with s Cons show ?thesis by simp
  next
    case False
    with s Cons show ?thesis by (cases ss) simp_all
  qed
qed

lemma split_join:
  "ss \<noteq> [] \<Longrightarrow> list_all (\<lambda>s. c \<notin> set s) ss \<Longrightarrow> split_on c (join_with c ss) = ss"
  by (induction ss rule: join_with.induct) (auto simp: split_on_no_sep split_on_append_sep)

subsection \<open>Lemmas on maps\<close>

lemma map_of_update [hmap_simps]: "map_of (AList.update k v m) = (map_of m)(k \<mapsto> v)"
  by (rule update_conv')

lemma map_of_delete [hmap_simps]: "map_of (AList.delete k m) = (map_of m)(k := None)"
  by (rule delete_conv')

lemma hget_or_hmodify [hmap_simps]:
  "hget_or d' (hmodify k d f m) k' = (if k' = k then f (hget_or d m k) else hget_or d' m k')"
  by (simp add: hget_or_def hmodify_def hmap_simps)

lemma map_of_hmodify [hmap_simps]:
  "map_of (hmodify k d f m) = (map_of m)(k \<mapsto> f (hget_or d m k))"
  by (simp add: hmodify_def hmap_simps)

lemma hget_or_Nil [simp]: "hget_or d [] k = d"
  by (simp add: hget_or_def)

lemma distinct_hmodify [simp]:
  "distinct (map fst m) \<Longrightarrow> distinct (map fst (hmodify k d f m))"
  by (simp add: hmodify_def distinct_update)

lemma keys_hmodify [hmap_simps]: "fst ` set (hmodify k d f m) = insert k (fst ` set m)"
  by (metis dom_map_of_conv_image_fst dom_fun_upd map_of_hmodify option.distinct(1))

end
