(* ===== verification/Pdn_Ids.thy ===== *)
theory Pdn_Ids
  imports Pdn_Prelude
begin

text \<open>
  The platform primitives of \<^verbatim>\<open>crates/pdn-types\<close>: byte-backed ids with their hexadecimal text
  (\<^verbatim>\<open>lib.rs\<close>), and the record vocabulary (\<^verbatim>\<open>pod.rs\<close>).

  An id of \<open>N\<close> bytes is a word of \<open>8 * N\<close> bits. \<open>show_id\<close> is its \<open>Display\<close>, \<open>id_from_str\<close> its
  \<open>FromStr\<close>; the text reads back as the id, and what reads back is the id's text up to the case of
  the digits.
\<close>

unbundle bit_operations_syntax

type_synonym NodeId = "256 word"
type_synonym PdnId = "256 word"
type_synonym PodId = "128 word"
type_synonym RecordId = "128 word"
type_synonym AuthorId = "256 word"
type_synonym NamespaceId = "256 word"

subsection \<open>Hexadecimal text\<close>

datatype ByteIdParseError = WrongLength nat nat | InvalidHexDigit byte

definition hex_digit :: "byte \<Rightarrow> ByteIdParseError + byte" where
  "hex_digit b =
     (if 48 \<le> b \<and> b \<le> 57 then Inr (b - 48)
      else if 97 \<le> b \<and> b \<le> 102 then Inr (b - 97 + 10)
      else if 65 \<le> b \<and> b \<le> 70 then Inr (b - 65 + 10)
      else Inl (InvalidHexDigit b))"

text \<open>The loop of \<open>parse_hex\<close> over \<open>chunks(2)\<close>; it is entered with an even number of bytes only.\<close>

fun parse_hex_chunks :: "bytes \<Rightarrow> ByteIdParseError + bytes" where
  "parse_hex_chunks (a # b # rest) =
     (case hex_digit a of
        Inl e \<Rightarrow> Inl e
      | Inr hi \<Rightarrow> (case hex_digit b of
          Inl e \<Rightarrow> Inl e
        | Inr lo \<Rightarrow> (case parse_hex_chunks rest of
            Inl e \<Rightarrow> Inl e
          | Inr out \<Rightarrow> Inr ((push_bit 4 hi OR lo) # out))))"
| "parse_hex_chunks _ = Inr []"

definition parse_hex :: "nat \<Rightarrow> bytes \<Rightarrow> ByteIdParseError + bytes" where
  "parse_hex N s =
     (if length s \<noteq> 2 * N then Inl (WrongLength (2 * N) (length s)) else parse_hex_chunks s)"

text \<open>The formatting \<^verbatim>\<open>{byte:02x}\<close>: two lowercase digits, the high half first.\<close>

definition nibble_digit :: "byte \<Rightarrow> byte" where
  "nibble_digit n = (if n < 10 then 48 + n else 87 + n)"

definition hex_byte :: "byte \<Rightarrow> bytes" where
  "hex_byte b = [nibble_digit (drop_bit 4 b), nibble_digit (b AND 15)]"

definition hex_text :: "bytes \<Rightarrow> bytes" where
  "hex_text bs = concat (map hex_byte bs)"

definition show_id :: "'a::len word \<Rightarrow> bytes" where
  "show_id w = hex_text (arr_bytes w)"

definition id_from_str :: "bytes \<Rightarrow> ByteIdParseError + 'a::len word" where
  "id_from_str s = (case parse_hex (LENGTH('a) div 8) s of Inl e \<Rightarrow> Inl e | Inr bs \<Rightarrow> Inr (arr_of bs))"

subsection \<open>The record vocabulary\<close>

datatype RecordKind = Claim | MergeableDocument | ImmutableDocument

primrec kind_as_str :: "RecordKind \<Rightarrow> bytes" where
  "kind_as_str Claim = str ''claim''"
| "kind_as_str MergeableDocument = str ''mergeable-document''"
| "kind_as_str ImmutableDocument = str ''immutable-document''"

definition kind_from_str :: "bytes \<Rightarrow> bytes + RecordKind" where
  "kind_from_str s =
     (case find (\<lambda>kind. kind_as_str kind = s) [Claim, MergeableDocument, ImmutableDocument] of
        Some kind \<Rightarrow> Inr kind
      | None \<Rightarrow> Inl s)"

datatype RecordRef = RecordRef (rr_member: PdnId) (rr_kind: RecordKind) (rr_id: RecordId)

text \<open>The derived orders: a kind by its place in the enum, a reference field by field.\<close>

instantiation RecordKind :: linorder
begin

primrec kind_rank :: "RecordKind \<Rightarrow> nat" where
  "kind_rank Claim = 0"
| "kind_rank MergeableDocument = 1"
| "kind_rank ImmutableDocument = 2"

definition less_eq_RecordKind :: "RecordKind \<Rightarrow> RecordKind \<Rightarrow> bool" where
  "less_eq_RecordKind a b \<longleftrightarrow> kind_rank a \<le> kind_rank b"

definition less_RecordKind :: "RecordKind \<Rightarrow> RecordKind \<Rightarrow> bool" where
  "less_RecordKind a b \<longleftrightarrow> kind_rank a < kind_rank b"

instance
proof
  fix x y z :: RecordKind
  show "x < y \<longleftrightarrow> x \<le> y \<and> \<not> y \<le> x"
    by (auto simp: less_eq_RecordKind_def less_RecordKind_def)
  show "x \<le> x" by (simp add: less_eq_RecordKind_def)
  show "x \<le> y \<Longrightarrow> y \<le> z \<Longrightarrow> x \<le> z" by (simp add: less_eq_RecordKind_def)
  show "x \<le> y \<Longrightarrow> y \<le> x \<Longrightarrow> x = y"
    by (cases x; cases y) (simp_all add: less_eq_RecordKind_def)
  show "x \<le> y \<or> y \<le> x" by (auto simp: less_eq_RecordKind_def)
qed

end

instantiation RecordRef :: linorder
begin

definition less_RecordRef :: "RecordRef \<Rightarrow> RecordRef \<Rightarrow> bool" where
  "less_RecordRef a b \<longleftrightarrow> rr_member a < rr_member b \<or>
     rr_member a = rr_member b \<and> (rr_kind a < rr_kind b \<or>
       rr_kind a = rr_kind b \<and> rr_id a < rr_id b)"

definition less_eq_RecordRef :: "RecordRef \<Rightarrow> RecordRef \<Rightarrow> bool" where
  "less_eq_RecordRef a b \<longleftrightarrow> a < b \<or> a = b"

instance
proof
  fix x y z :: RecordRef
  note defs = less_RecordRef_def less_eq_RecordRef_def
  show "x < y \<longleftrightarrow> x \<le> y \<and> \<not> y \<le> x" by (auto simp: defs)
  show "x \<le> x" by (simp add: defs)
  show "x \<le> y \<Longrightarrow> y \<le> z \<Longrightarrow> x \<le> z" by (auto simp: defs)
  show "x \<le> y \<Longrightarrow> y \<le> x \<Longrightarrow> x = y" by (auto simp: defs)
  show "x \<le> y \<or> y \<le> x" by (cases x; cases y) (auto simp: defs)
qed

end

subsection \<open>Hexadecimal digits\<close>

definition lower_hex_char :: "byte \<Rightarrow> bool" where
  "lower_hex_char b \<longleftrightarrow> 48 \<le> b \<and> b \<le> 57 \<or> 97 \<le> b \<and> b \<le> 102"


lemmas byte_nat = word_le_nat_alt word_less_nat_alt word_unat_eq_iff

lemma unat_byte_plus: "unat ((a::byte) + b) = (unat a + unat b) mod 256"
  by (simp add: unat_word_ariths)

lemma hex_digit_Inr:
  "hex_digit c = Inr n \<longleftrightarrow>
     48 \<le> c \<and> c \<le> 57 \<and> n = c - 48 \<or> 97 \<le> c \<and> c \<le> 102 \<and> n = c - 87 \<or>
     65 \<le> c \<and> c \<le> 70 \<and> n = c - 55"
  unfolding hex_digit_def by (auto simp: word_le_nat_alt)

lemma unat_hex_digit:
  assumes "hex_digit c = Inr n"
  shows "unat n = (if unat c \<le> 57 then unat c - 48 else if unat c \<le> 70 then unat c - 55
           else unat c - 87) \<and> unat n < 16"
  using assms unfolding hex_digit_Inr
  by (elim disjE conjE) (simp_all add: unat_sub word_le_nat_alt)

lemma hex_digit_less: "hex_digit c = Inr n \<Longrightarrow> n < 16"
  by (frule unat_hex_digit) (simp only: word_less_nat_alt, simp)

lemma nibble_digit_hex_digit:
  assumes "hex_digit c = Inr n" and "lower_hex_char c"
  shows "nibble_digit n = c"
proof -
  have "unat (nibble_digit n) = unat c"
    using unat_hex_digit [OF assms(1)] assms
    unfolding hex_digit_Inr lower_hex_char_def nibble_digit_def
    by (auto simp: byte_nat unat_byte_plus)
  then show ?thesis by (simp add: word_unat_eq_iff)
qed

lemma unat_nibble_digit:
  "n < 16 \<Longrightarrow> unat (nibble_digit n) = (if unat n < 10 then 48 + unat n else 87 + unat n)"
  by (auto simp: nibble_digit_def unat_byte_plus word_less_nat_alt)

lemma nibble_digit_ok:
  assumes "n < 16"
  shows "hex_digit (nibble_digit n) = Inr n" and "lower_hex_char (nibble_digit n)"
  using assms unat_nibble_digit [OF assms] unfolding hex_digit_Inr lower_hex_char_def
  by (auto simp: byte_nat unat_sub unat_byte_plus split: if_splits)

lemma low_nibble_take: "(b::byte) AND 15 = take_bit 4 b"
  by (simp add: take_bit_eq_mask mask_eq_exp_minus_1)

lemma byte_take4: "(n::byte) < 16 \<Longrightarrow> take_bit 4 n = n"
  by (simp add: byte_nat take_bit_eq_mod unat_mod)

lemma low_nibble_less: "(b::byte) AND 15 < 16"
  by (simp add: low_nibble_take word_less_nat_alt take_bit_eq_mod unat_mod)

lemma high_nibble_less: "drop_bit 4 (b::byte) < 16"
  using unat_less [of b] by (simp add: word_less_nat_alt drop_bit_eq_div unat_div)

lemma nibbles_join: "push_bit 4 (drop_bit 4 (b::byte)) OR (b AND 15) = b"
  unfolding low_nibble_take by (rule bit_eqI) (auto simp: bit_simps)

lemma nibbles_split:
  assumes "hi < 16" and "lo < (16::byte)"
  shows "drop_bit 4 (push_bit 4 hi OR lo) = hi" and "(push_bit 4 hi OR lo) AND 15 = lo"
proof -
  have "drop_bit 4 (push_bit 4 (take_bit 4 hi) OR take_bit 4 lo) = take_bit 4 hi"
    by (rule bit_eqI) (auto simp: bit_simps)
  with assms show "drop_bit 4 (push_bit 4 hi OR lo) = hi" by (simp only: byte_take4)
  have "take_bit 4 (push_bit 4 (take_bit 4 hi) OR take_bit 4 lo) = take_bit 4 lo"
    by (rule bit_eqI) (auto simp: bit_simps)
  with assms show "(push_bit 4 hi OR lo) AND 15 = lo" by (simp only: byte_take4 low_nibble_take)
qed

lemma hex_byte_join:
  "hi < 16 \<Longrightarrow> lo < 16 \<Longrightarrow> hex_byte (push_bit 4 hi OR lo) = [nibble_digit hi, nibble_digit lo]"
  by (simp only: hex_byte_def nibbles_split)

subsection \<open>Hexadecimal text reads back\<close>

lemma length_hex_text [simp]: "length (hex_text bs) = 2 * length bs"
  by (induction bs) (simp_all add: hex_text_def hex_byte_def)

lemma hex_text_lower: "list_all lower_hex_char (hex_text bs)"
  by (induction bs)
    (simp_all add: hex_text_def hex_byte_def nibble_digit_ok high_nibble_less low_nibble_less)

lemma parse_hex_chunks_hex_text: "parse_hex_chunks (hex_text bs) = Inr bs"
  by (induction bs)
    (simp_all add: hex_text_def hex_byte_def nibble_digit_ok high_nibble_less low_nibble_less
      nibbles_join)

lemma parse_hex_chunks_length: "parse_hex_chunks s = Inr bs \<Longrightarrow> length bs = length s div 2"
  by (induction s arbitrary: bs rule: parse_hex_chunks.induct) (auto split: sum.splits)

lemma hex_text_parse_hex_chunks:
  "parse_hex_chunks s = Inr bs \<Longrightarrow> even (length s) \<Longrightarrow> list_all lower_hex_char s \<Longrightarrow> hex_text bs = s"
  by (induction s arbitrary: bs rule: parse_hex_chunks.induct)
    (auto simp: hex_text_def hex_byte_join hex_digit_less nibble_digit_hex_digit
      split: sum.splits)

lemma parse_hex_hex_text [simp]: "length bs = N \<Longrightarrow> parse_hex N (hex_text bs) = Inr bs"
  by (simp add: parse_hex_def parse_hex_chunks_hex_text)

lemma parse_hex_length: "parse_hex N s = Inr bs \<Longrightarrow> length bs = N"
  by (auto simp: parse_hex_def dest!: parse_hex_chunks_length split: if_splits)

lemma hex_text_parse_hex:
  "parse_hex N s = Inr bs \<Longrightarrow> list_all lower_hex_char s \<Longrightarrow> hex_text bs = s"
  by (auto simp: parse_hex_def hex_text_parse_hex_chunks split: if_splits)

lemma length_show_id: "length (show_id (w :: 'a::len word)) = 2 * (LENGTH('a) div 8)"
  by (simp add: show_id_def length_arr_bytes)

lemma show_id_lower: "list_all lower_hex_char (show_id w)"
  by (simp add: show_id_def hex_text_lower)

lemma id_from_str_show_id:
  "8 dvd LENGTH('a::len) \<Longrightarrow> id_from_str (show_id (w :: 'a word)) = Inr w"
  by (simp add: id_from_str_def show_id_def length_arr_bytes arr_of_arr_bytes)

subsection \<open>Record kinds read back\<close>

lemma byte_of_char_inj: "(of_char c :: byte) = of_char d \<longleftrightarrow> c = d"
proof
  assume "(of_char c :: byte) = of_char d"
  then have "(of_nat (of_char c) :: byte) = of_nat (of_char d)" by (simp only: of_nat_of_char)
  then have "(of_char c :: nat) = of_char d"
    by (simp only: word_unat_eq_iff unat_of_nat_byte) simp
  then show "c = d" by simp
qed simp

lemma str_eq_iff: "str a = str b \<longleftrightarrow> a = b"
  by (simp add: str_def inj_map_eq_map inj_def byte_of_char_inj)

lemma kind_from_str_as_str: "kind_from_str (kind_as_str k) = Inr k"
  by (cases k) (simp_all add: kind_from_str_def str_eq_iff)

lemma kind_as_str_from_str: "kind_from_str s = Inr k \<Longrightarrow> kind_as_str k = s"
  by (auto simp: kind_from_str_def split: option.splits if_splits)

end
