(* ===== verification/Pod_Keys.thy ===== *)
theory Pod_Keys
  imports Pdn_Ids
begin

text \<open>
  The key layout of a pod's two stores, \<^verbatim>\<open>crates/data-layer/src/pod/keys.rs\<close>. Each key type is a
  datatype with the source's constructors; \<open>*_parse\<close> reads a key off its bytes, \<open>*_to_bytes\<close> prints
  it. A sequence number (\<open>Seq\<close>, and every other \<open>u64\<close> of a key) is a 64-bit word.

  Both formats satisfy the \<open>wire_codec\<close> contract: a key reads back as itself, and no second spelling
  reads as the same key, which is what the layout's lowercase and no-leading-zero rules are for.
\<close>

type_synonym Seq = "64 word"

abbreviation slash :: byte where "slash \<equiv> 47"
abbreviation dot :: byte where "dot \<equiv> 46"

subsection \<open>Text\<close>

text \<open>\<open>str::from_utf8\<close>: which byte strings are text.\<close>

definition in_range :: "byte \<Rightarrow> byte \<Rightarrow> byte \<Rightarrow> bool" where
  "in_range lo hi b \<longleftrightarrow> lo \<le> b \<and> b \<le> hi"

fun utf8_valid :: "bytes \<Rightarrow> bool" where
  "utf8_valid [] = True"
| "utf8_valid (a # rest) =
     (if a < 128 then utf8_valid rest
      else (case rest of
        [] \<Rightarrow> False
      | b # rest' \<Rightarrow>
          if in_range 194 223 a then in_range 128 191 b \<and> utf8_valid rest'
          else (case rest' of
            [] \<Rightarrow> False
          | c # rest'' \<Rightarrow>
              if a = 224 then in_range 160 191 b \<and> in_range 128 191 c \<and> utf8_valid rest''
              else if a = 237 then in_range 128 159 b \<and> in_range 128 191 c \<and> utf8_valid rest''
              else if in_range 225 239 a
                then in_range 128 191 b \<and> in_range 128 191 c \<and> utf8_valid rest''
              else (case rest'' of
                [] \<Rightarrow> False
              | d # rest''' \<Rightarrow>
                  in_range 128 191 c \<and> in_range 128 191 d \<and>
                  (if a = 240 then in_range 144 191 b
                   else if a = 244 then in_range 128 143 b
                   else in_range 241 243 a \<and> in_range 128 191 b) \<and>
                  utf8_valid rest'''))))"

text \<open>The \<open>Display\<close> of an unsigned integer.\<close>

fun dec_text :: "nat \<Rightarrow> bytes" where
  "dec_text n = (if n < 10 then [of_nat (48 + n)] else dec_text (n div 10) @ [of_nat (48 + n mod 10)])"

declare dec_text.simps [simp del]

definition show_u64 :: "64 word \<Rightarrow> bytes" where
  "show_u64 w = dec_text (unat w)"

definition is_ascii_digit :: "byte \<Rightarrow> bool" where
  "is_ascii_digit b \<longleftrightarrow> 48 \<le> b \<and> b \<le> 57"

text \<open>\<open>str::parse::<u64>\<close> on a non-empty run of decimal digits: refused past \<open>u64::MAX\<close>.\<close>

definition dec_nat :: "bytes \<Rightarrow> nat" where
  "dec_nat s = foldl (\<lambda>a b. a * 10 + (unat b - 48)) 0 s"

definition parse_u64 :: "bytes \<Rightarrow> 64 word option" where
  "parse_u64 s = (if dec_nat s < 2 ^ 64 then Some (of_nat (dec_nat s)) else None)"

definition number :: "bytes \<Rightarrow> 64 word option" where
  "number segment =
     (let canonical = segment = str ''0'' \<or>
            (\<not> (segment \<noteq> [] \<and> hd segment = 48) \<and> segment \<noteq> [] \<and> list_all is_ascii_digit segment)
      in if \<not> canonical then None else parse_u64 segment)"

definition lower_hex :: "nat \<Rightarrow> bytes \<Rightarrow> bytes option" where
  "lower_hex N segment =
     (if \<not> list_all lower_hex_char segment then None
      else (case parse_hex N segment of Inl e \<Rightarrow> None | Inr bs \<Rightarrow> Some bs))"

definition pdn_id :: "bytes \<Rightarrow> PdnId option" where
  "pdn_id segment = map_option arr_of (lower_hex 32 segment)"

subsection \<open>The membership store's keys\<close>

definition MEMBER :: bytes where "MEMBER = str ''member''"
definition DEVICES :: bytes where "DEVICES = str ''devices''"
definition BY :: bytes where "BY = str ''by''"

definition seq_first :: Seq where "seq_first = 1"
definition seq_before_creation :: Seq where "seq_before_creation = 0"

datatype EventKind = Created | Joined | Left | Removed | Promoted | Demoted

definition EventKind_ALL :: "EventKind list" where
  "EventKind_ALL = [Created, Joined, Left, Removed, Promoted, Demoted]"

primrec event_as_str :: "EventKind \<Rightarrow> bytes" where
  "event_as_str Created = str ''created''"
| "event_as_str Joined = str ''joined''"
| "event_as_str Left = str ''left''"
| "event_as_str Removed = str ''removed''"
| "event_as_str Promoted = str ''promoted''"
| "event_as_str Demoted = str ''demoted''"

definition event_parse :: "bytes \<Rightarrow> EventKind option" where
  "event_parse segment = find (\<lambda>kind. event_as_str kind = segment) EventKind_ALL"

datatype MembershipKey =
    MEvent (mk_subject: PdnId) (mk_seq: Seq) (mk_kind: EventKind) (mk_actor: PdnId)
      (mk_actor_seq: Seq)
  | MDevices (mk_member: PdnId) (mk_version: "64 word")

definition membership_created :: "PdnId \<Rightarrow> MembershipKey" where
  "membership_created creator = MEvent creator seq_first Created creator seq_before_creation"

definition membership_parse :: "bytes \<Rightarrow> MembershipKey option" where
  "membership_parse key =
     (if \<not> utf8_valid key then None
      else (case split_on slash key of
        [a, member, b, version] \<Rightarrow>
          if a = MEMBER \<and> b = DEVICES
          then Option.bind (pdn_id member) (\<lambda>member.
               Option.bind (number version) (\<lambda>version. Some (MDevices member version)))
          else None
      | [a, subject, seq, kind, actor, actor_seq] \<Rightarrow>
          if a = MEMBER
          then Option.bind (pdn_id subject) (\<lambda>subject.
               Option.bind (number seq) (\<lambda>seq.
               Option.bind (event_parse kind) (\<lambda>kind.
               Option.bind (pdn_id actor) (\<lambda>actor.
               Option.bind (number actor_seq) (\<lambda>actor_seq.
                 Some (MEvent subject seq kind actor actor_seq))))))
          else None
      | _ \<Rightarrow> None))"

fun membership_to_bytes :: "MembershipKey \<Rightarrow> bytes" where
  "membership_to_bytes (MEvent subject seq kind actor actor_seq) =
     MEMBER @ [slash] @ show_id subject @ [slash] @ show_u64 seq @ [slash] @ event_as_str kind
       @ [slash] @ show_id actor @ [slash] @ show_u64 actor_seq"
| "membership_to_bytes (MDevices member version) =
     MEMBER @ [slash] @ show_id member @ [slash] @ DEVICES @ [slash] @ show_u64 version"

subsection \<open>The record store's keys\<close>

datatype OpId = OpId (op_writer: PdnId) (op_author: AuthorId) (op_mseq: Seq) (op_op_seq: "64 word")

definition op_parse :: "bytes \<Rightarrow> OpId option" where
  "op_parse segment =
     (case split_on dot segment of
        [writer, author, mseq, op_seq] \<Rightarrow>
          Option.bind (pdn_id writer) (\<lambda>writer.
          Option.bind (lower_hex 32 author) (\<lambda>author.
          Option.bind (number mseq) (\<lambda>mseq.
          Option.bind (number op_seq) (\<lambda>op_seq.
            Some (OpId writer (arr_of author) mseq op_seq)))))
      | _ \<Rightarrow> None)"

fun op_text :: "OpId \<Rightarrow> bytes" where
  "op_text (OpId writer author mseq op_seq) =
     show_id writer @ [dot] @ show_id author @ [dot] @ show_u64 mseq @ [dot] @ show_u64 op_seq"

datatype RecordKey =
    RClaim (rk_member: PdnId) (rk_id: RecordId) (rk_mseq: Seq)
  | RImmutableDocument (rk_member: PdnId) (rk_id: RecordId) (rk_mseq: Seq)
  | ROperation (rk_member: PdnId) (rk_id: RecordId) (rk_op: OpId)

fun record_of :: "RecordKey \<Rightarrow> RecordRef" where
  "record_of (RClaim member rid mseq) = RecordRef member Claim rid"
| "record_of (RImmutableDocument member rid mseq) = RecordRef member ImmutableDocument rid"
| "record_of (ROperation member rid op) = RecordRef member MergeableDocument rid"

definition record_parse :: "bytes \<Rightarrow> RecordKey option" where
  "record_parse key =
     (if \<not> utf8_valid key then None
      else (case split_on slash key of
        [a, member, kind, rid, seg] \<Rightarrow>
          if a = BY
          then Option.bind (pdn_id member) (\<lambda>member.
               Option.bind (lower_hex 16 rid) (\<lambda>rid.
               (case kind_from_str kind of
                  Inl e \<Rightarrow> None
                | Inr Claim \<Rightarrow> Option.bind (number seg) (\<lambda>mseq. Some (RClaim member (arr_of rid) mseq))
                | Inr ImmutableDocument \<Rightarrow>
                    Option.bind (number seg) (\<lambda>mseq. Some (RImmutableDocument member (arr_of rid) mseq))
                | Inr MergeableDocument \<Rightarrow>
                    Option.bind (op_parse seg) (\<lambda>op. Some (ROperation member (arr_of rid) op)))))
          else None
      | _ \<Rightarrow> None))"

text \<open>\<open>RecordPrefix\<close>'s \<open>Display\<close>, which \<open>record_prefix\<close> returns as bytes.\<close>

fun record_prefix :: "RecordRef \<Rightarrow> bytes" where
  "record_prefix (RecordRef member kind rid) =
     BY @ [slash] @ show_id member @ [slash] @ kind_as_str kind @ [slash] @ show_id rid @ [slash]"

fun record_to_bytes :: "RecordKey \<Rightarrow> bytes" where
  "record_to_bytes (RClaim member rid mseq) =
     record_prefix (record_of (RClaim member rid mseq)) @ show_u64 mseq"
| "record_to_bytes (RImmutableDocument member rid mseq) =
     record_prefix (record_of (RImmutableDocument member rid mseq)) @ show_u64 mseq"
| "record_to_bytes (ROperation member rid op) =
     record_prefix (record_of (ROperation member rid op)) @ op_text op"

text \<open>\<open>OpId\<close>'s derived order: writer, author, membership sequence, operation sequence.\<close>

instantiation OpId :: linorder
begin

definition less_OpId :: "OpId \<Rightarrow> OpId \<Rightarrow> bool" where
  "less_OpId a b \<longleftrightarrow> op_writer a < op_writer b \<or> op_writer a = op_writer b \<and>
     (op_author a < op_author b \<or> op_author a = op_author b \<and>
       (op_mseq a < op_mseq b \<or> op_mseq a = op_mseq b \<and> op_op_seq a < op_op_seq b))"

definition less_eq_OpId :: "OpId \<Rightarrow> OpId \<Rightarrow> bool" where
  "less_eq_OpId a b \<longleftrightarrow> a < b \<or> a = b"

instance
proof
  fix x y z :: OpId
  note defs = less_OpId_def less_eq_OpId_def
  show "x < y \<longleftrightarrow> x \<le> y \<and> \<not> y \<le> x" by (auto simp: defs)
  show "x \<le> x" by (simp add: defs)
  show "x \<le> y \<Longrightarrow> y \<le> z \<Longrightarrow> x \<le> z" by (auto simp: defs)
  show "x \<le> y \<Longrightarrow> y \<le> x \<Longrightarrow> x = y" by (auto simp: defs)
  show "x \<le> y \<or> y \<le> x" by (cases x; cases y) (auto simp: defs)
qed

end

subsection \<open>Lemmas on text\<close>

text \<open>Every segment the layout prints is of these characters: no separator among them.\<close>

definition plain_char :: "byte \<Rightarrow> bool" where
  "plain_char b \<longleftrightarrow> b < 128 \<and> b \<noteq> slash \<and> b \<noteq> dot"

lemma utf8_valid_ascii: "list_all (\<lambda>b. b < 128) s \<Longrightarrow> utf8_valid s"
  by (induction s) auto

lemma plain_char_lower_hex: "lower_hex_char b \<Longrightarrow> plain_char b"
  by (auto simp: plain_char_def lower_hex_char_def byte_nat)

lemma plain_char_digit: "is_ascii_digit b \<Longrightarrow> plain_char b"
  by (auto simp: plain_char_def is_ascii_digit_def byte_nat)

lemma plain_show_id: "list_all plain_char (show_id w)"
  using show_id_lower [of w] plain_char_lower_hex by (auto simp: list_all_iff)

lemma digit_of_nat: "n < 10 \<Longrightarrow> is_ascii_digit (of_nat (48 + n))"
  by (simp add: is_ascii_digit_def byte_nat unat_byte_plus unat_of_nat del: of_nat_add)

lemma unat_digit: "n < 10 \<Longrightarrow> unat (of_nat (48 + n) :: byte) = 48 + n"
  by (simp add: unat_of_nat del: of_nat_add)

lemma dec_text_digits: "list_all is_ascii_digit (dec_text n)"
proof (induction n rule: dec_text.induct)
  case (1 n)
  then show ?case by (subst dec_text.simps) (simp add: digit_of_nat del: of_nat_add)
qed

lemma dec_text_not_Nil [simp]: "dec_text n \<noteq> []"
  by (subst dec_text.simps) simp

lemma dec_nat_append: "dec_nat (s @ [b]) = dec_nat s * 10 + (unat b - 48)"
  by (simp add: dec_nat_def)

lemma dec_nat_dec_text: "dec_nat (dec_text n) = n"
proof (induction n rule: dec_text.induct)
  case (1 n)
  show ?case
  proof (cases "n < 10")
    case True
    then show ?thesis by (subst dec_text.simps) (simp add: dec_nat_def unat_digit del: of_nat_add)
  next
    case False
    then show ?thesis
      by (subst dec_text.simps) (simp add: dec_nat_append unat_digit 1 del: of_nat_add)
  qed
qed

lemma dec_text_hd: "n \<noteq> 0 \<Longrightarrow> hd (dec_text n) \<noteq> 48"
proof (induction n rule: dec_text.induct)
  case (1 n)
  show ?case
  proof (cases "n < 10")
    case True
    with 1 show ?thesis
      by (subst dec_text.simps) (simp add: word_unat_eq_iff unat_digit del: of_nat_add)
  next
    case False
    with 1 show ?thesis by (subst dec_text.simps) (simp add: div_eq_0_iff)
  qed
qed

lemma dec_text_zero: "dec_text 0 = str ''0''"
  by (subst dec_text.simps) (simp add: str_def)

lemma number_show_u64: "number (show_u64 w) = Some w"
proof -
  have "dec_text (unat w) = str ''0'' \<or> hd (dec_text (unat w)) \<noteq> 48"
    using dec_text_hd dec_text_zero by metis
  then show ?thesis
    using unat_less [of w] dec_text_digits [of "unat w"]
    by (auto simp: number_def show_u64_def parse_u64_def dec_nat_dec_text)
qed

lemma dec_digit_back:
  "is_ascii_digit b \<Longrightarrow> unat b - 48 < 10 \<and> of_nat (48 + (unat b - 48)) = b"
  by (auto simp: is_ascii_digit_def byte_nat unat_of_nat unat_byte_plus simp del: of_nat_add)

lemma dec_nat_zero: "dec_nat (str ''0'') = 0"
  by (simp add: dec_nat_def str_def)

lemma dec_nat_pos:
  "s \<noteq> [] \<Longrightarrow> hd s \<noteq> 48 \<Longrightarrow> list_all is_ascii_digit s \<Longrightarrow> 0 < dec_nat s"
proof (induction s rule: rev_induct)
  case (snoc b s)
  then show ?case
    by (cases "s = []")
      (auto simp: dec_nat_append dec_nat_def is_ascii_digit_def byte_nat)
qed simp

lemma dec_text_dec_nat:
  "s \<noteq> [] \<Longrightarrow> hd s \<noteq> 48 \<Longrightarrow> list_all is_ascii_digit s \<Longrightarrow> dec_text (dec_nat s) = s"
proof (induction s rule: rev_induct)
  case (snoc b s)
  have b: "unat b - 48 < 10" "of_nat (48 + (unat b - 48)) = b"
    using dec_digit_back [of b] snoc.prems by auto
  show ?case
  proof (cases "s = []")
    case True
    then show ?thesis using b by (subst dec_text.simps) (simp add: dec_nat_def del: of_nat_add)
  next
    case False
    with snoc have "dec_text (dec_nat s) = s" "0 < dec_nat s" by (auto simp: dec_nat_pos)
    with b show ?thesis
      by (subst dec_text.simps) (simp add: dec_nat_append del: of_nat_add)
  qed
qed simp

lemma show_u64_number: "number s = Some w \<Longrightarrow> show_u64 w = s"
  by (auto simp: number_def parse_u64_def show_u64_def unat_of_nat dec_text_dec_nat Let_def
      dec_nat_zero dec_text_zero split: if_splits)

interpretation number_codec: wire_codec show_u64 number
  by unfold_locales (auto simp: number_show_u64 show_u64_number)

lemma plain_show_u64: "list_all plain_char (show_u64 w)"
  using dec_text_digits [of "unat w"] plain_char_digit by (auto simp: show_u64_def list_all_iff)

lemma plain_seps: "list_all plain_char s \<Longrightarrow> slash \<notin> set s \<and> dot \<notin> set s"
  by (auto simp: list_all_iff plain_char_def)

lemma plain_ascii: "list_all plain_char s \<Longrightarrow> list_all (\<lambda>b. b < 128) s"
  by (auto simp: list_all_iff plain_char_def)

lemma event_parse_as_str: "event_parse (event_as_str k) = Some k"
  by (cases k) (simp_all add: event_parse_def EventKind_ALL_def str_eq_iff)

lemma event_as_str_parse: "event_parse s = Some k \<Longrightarrow> event_as_str k = s"
  by (auto simp: event_parse_def EventKind_ALL_def split: if_splits)

interpretation event_codec: wire_codec event_as_str event_parse
  by unfold_locales (auto simp: event_parse_as_str event_as_str_parse)

lemma plain_event_as_str: "list_all plain_char (event_as_str k)"
  by (cases k) (simp_all add: str_def plain_char_def)

lemma plain_kind_as_str: "list_all plain_char (kind_as_str k)"
  by (cases k) (simp_all add: str_def plain_char_def)

lemma plain_consts:
  "list_all plain_char MEMBER" "list_all plain_char DEVICES" "list_all plain_char BY"
  by (simp_all add: MEMBER_def DEVICES_def BY_def str_def plain_char_def)

lemmas plain_segments =
  plain_consts plain_show_id plain_show_u64 plain_event_as_str plain_kind_as_str

lemma lower_hex_show: "length bs = N \<Longrightarrow> lower_hex N (hex_text bs) = Some bs"
  by (simp add: lower_hex_def hex_text_lower)

lemma lower_hex_back: "lower_hex N s = Some bs \<Longrightarrow> hex_text bs = s \<and> length bs = N"
  by (auto simp: lower_hex_def hex_text_parse_hex dest: parse_hex_length
      split: if_splits sum.splits)

text \<open>The identity segments, at each width the layout uses.\<close>

lemma lower_hex_arr:
  fixes w :: "'a::len word"
  assumes "LENGTH('a) = 8 * N"
  shows "map_option arr_of (lower_hex N (show_id w)) = Some w"
  using assms by (simp add: show_id_def lower_hex_show length_arr_bytes arr_of_arr_bytes)

lemma show_id_lower_hex:
  assumes "lower_hex N s = Some bs" and "LENGTH('a::len) = 8 * N"
  shows "show_id (arr_of bs :: 'a word) = s"
  using lower_hex_back [OF assms(1)] assms(2) by (simp add: show_id_def arr_bytes_arr_of)

lemma pdn_id_show_id: "pdn_id (show_id w) = Some w"
  by (simp add: pdn_id_def lower_hex_arr)

lemma show_id_pdn_id: "pdn_id s = Some w \<Longrightarrow> show_id w = s"
  by (auto simp: pdn_id_def show_id_lower_hex)

interpretation pdn_id_codec: wire_codec "show_id :: PdnId \<Rightarrow> bytes" pdn_id
  by unfold_locales (auto simp: pdn_id_show_id show_id_pdn_id)

lemma lower_hex_show_id:
  "lower_hex 32 (show_id (a :: 256 word)) = Some (arr_bytes a)"
  "lower_hex 16 (show_id (r :: 128 word)) = Some (arr_bytes r)"
  by (simp_all add: show_id_def lower_hex_show length_arr_bytes)

lemma arr_of_arr_bytes_ids [simp]:
  "arr_of (arr_bytes (a :: 256 word)) = a" "arr_of (arr_bytes (r :: 128 word)) = r"
  by (simp_all add: arr_of_arr_bytes)

subsection \<open>Keys read back as themselves, and have one spelling\<close>

lemma membership_to_bytes_join:
  "membership_to_bytes (MEvent subject seq kind actor actor_seq) =
     join_with slash [MEMBER, show_id subject, show_u64 seq, event_as_str kind, show_id actor,
       show_u64 actor_seq]"
  "membership_to_bytes (MDevices member version) =
     join_with slash [MEMBER, show_id member, DEVICES, show_u64 version]"
  by simp_all

lemma list_all_join:
  "P c \<Longrightarrow> list_all (list_all P) ss \<Longrightarrow> list_all P (join_with c ss)"
  by (induction ss rule: join_with.induct) auto

lemma ascii_seps: "slash < (128 :: byte)" "dot < (128 :: byte)"
  by simp_all

lemma membership_ascii: "list_all (\<lambda>b. b < 128) (membership_to_bytes k)"
  by (cases k) (auto simp: plain_segments plain_ascii)

lemma split_membership:
  "split_on slash (membership_to_bytes (MEvent subject seq kind actor actor_seq)) =
     [MEMBER, show_id subject, show_u64 seq, event_as_str kind, show_id actor, show_u64 actor_seq]"
  "split_on slash (membership_to_bytes (MDevices member version)) =
     [MEMBER, show_id member, DEVICES, show_u64 version]"
  unfolding membership_to_bytes_join
  by (rule split_join; simp add: plain_segments plain_seps del: join_with.simps)+

lemma membership_parse_to_bytes: "membership_parse (membership_to_bytes k) = Some k"
proof (cases k)
  case (MEvent subject seq kind actor actor_seq)
  then show ?thesis
    unfolding membership_parse_def MEvent split_membership
    by (simp add: utf8_valid_ascii membership_ascii pdn_id_show_id number_show_u64 event_parse_as_str del: membership_to_bytes.simps)
next
  case (MDevices member version)
  then show ?thesis
    unfolding membership_parse_def MDevices split_membership
    by (simp add: utf8_valid_ascii membership_ascii pdn_id_show_id number_show_u64 del: membership_to_bytes.simps)
qed

lemma membership_to_bytes_parse:
  assumes "membership_parse bs = Some k"
  shows "membership_to_bytes k = bs"
proof -
  have "join_with slash (split_on slash bs) = bs" by (rule join_split)
  with assms show ?thesis
    by (auto simp: membership_parse_def bind_eq_Some_conv show_id_pdn_id show_u64_number
        event_as_str_parse split: if_splits list.splits)
qed

interpretation membership_codec: wire_codec membership_to_bytes membership_parse
  by unfold_locales (auto simp: membership_parse_to_bytes membership_to_bytes_parse)

lemma op_text_join:
  "op_text (OpId writer author mseq op_seq) =
     join_with dot [show_id writer, show_id author, show_u64 mseq, show_u64 op_seq]"
  by simp

lemma op_text_no_slash: "slash \<notin> set (op_text op)"
  by (cases op) (simp add: plain_seps plain_segments)

lemma op_text_ascii: "list_all (\<lambda>b. b < 128) (op_text op)"
  by (cases op) (simp add: plain_segments plain_ascii)

lemma op_parse_text: "op_parse (op_text op) = Some op"
proof (cases op)
  case (OpId writer author mseq op_seq)
  have "split_on dot (op_text op) = [show_id writer, show_id author, show_u64 mseq, show_u64 op_seq]"
    unfolding OpId op_text_join
    by (rule split_join) (simp_all add: plain_segments plain_seps del: join_with.simps)
  then show ?thesis
    by (simp add: op_parse_def OpId pdn_id_show_id number_show_u64 lower_hex_show_id)
qed

lemma op_text_parse:
  assumes "op_parse s = Some op"
  shows "op_text op = s"
proof -
  have "join_with dot (split_on dot s) = s" by (rule join_split)
  with assms show ?thesis
    by (auto simp: op_parse_def bind_eq_Some_conv show_id_pdn_id show_u64_number show_id_lower_hex
        split: list.splits)
qed

interpretation op_codec: wire_codec op_text op_parse
  by unfold_locales (auto simp: op_parse_text op_text_parse)

text \<open>A record key's five segments; the last is the operation for a mergeable document.\<close>

fun record_last :: "RecordKey \<Rightarrow> bytes" where
  "record_last (RClaim member rid mseq) = show_u64 mseq"
| "record_last (RImmutableDocument member rid mseq) = show_u64 mseq"
| "record_last (ROperation member rid op) = op_text op"

definition record_segments :: "RecordKey \<Rightarrow> bytes list" where
  "record_segments k = [BY, show_id (rr_member (record_of k)), kind_as_str (rr_kind (record_of k)),
     show_id (rr_id (record_of k)), record_last k]"

lemma record_to_bytes_join: "record_to_bytes k = join_with slash (record_segments k)"
  by (cases k) (simp_all add: record_segments_def)

lemma record_last_seg: "slash \<notin> set (record_last k) \<and> list_all (\<lambda>b. b < 128) (record_last k)"
  by (cases k) (simp_all add: plain_segments plain_seps plain_ascii op_text_no_slash op_text_ascii)

lemma split_record: "split_on slash (record_to_bytes k) = record_segments k"
  unfolding record_to_bytes_join
  by (rule split_join) (simp_all add: record_segments_def record_last_seg plain_segments plain_seps)

lemma record_ascii: "list_all (\<lambda>b. b < 128) (record_to_bytes k)"
  unfolding record_to_bytes_join
  by (rule list_all_join) (simp_all add: record_segments_def record_last_seg plain_segments plain_ascii)

lemma record_parse_to_bytes: "record_parse (record_to_bytes k) = Some k"
  unfolding record_parse_def split_record
  using utf8_valid_ascii [OF record_ascii, of k]
  by (cases k) (simp_all add: record_segments_def pdn_id_show_id number_show_u64 op_parse_text
      lower_hex_show_id kind_from_str_as_str del: record_to_bytes.simps kind_as_str.simps)

lemma record_parse_segments:
  assumes "record_parse bs = Some k"
  obtains member kind rid seg m r where "split_on slash bs = [BY, member, kind, rid, seg]"
    and "pdn_id member = Some m" and "lower_hex 16 rid = Some r"
    and "kind_from_str kind = Inr (rr_kind (record_of k))" and "rr_member (record_of k) = m"
    and "rr_id (record_of k) = arr_of r" and "record_last k = seg"
proof -
  from assms obtain member kind rid seg m r where *:
    "split_on slash bs = [BY, member, kind, rid, seg]" "pdn_id member = Some m"
    "lower_hex 16 rid = Some r"
    "(case kind_from_str kind of
        Inl e \<Rightarrow> None
      | Inr Claim \<Rightarrow> Option.bind (number seg) (\<lambda>mseq. Some (RClaim m (arr_of r) mseq))
      | Inr ImmutableDocument \<Rightarrow>
          Option.bind (number seg) (\<lambda>mseq. Some (RImmutableDocument m (arr_of r) mseq))
      | Inr MergeableDocument \<Rightarrow> Option.bind (op_parse seg) (\<lambda>op. Some (ROperation m (arr_of r) op)))
      = Some k"
    by (auto simp: record_parse_def bind_eq_Some_conv split: if_splits list.splits)
  then obtain kd where kd: "kind_from_str kind = Inr kd" by (cases "kind_from_str kind") auto
  with * have "rr_kind (record_of k) = kd \<and> rr_member (record_of k) = m \<and>
      rr_id (record_of k) = arr_of r \<and> record_last k = seg"
    by (cases kd) (auto simp: bind_eq_Some_conv show_u64_number op_text_parse)
  with * kd show thesis by (intro that) auto
qed

lemma record_to_bytes_parse:
  assumes "record_parse bs = Some k"
  shows "record_to_bytes k = bs"
  using assms
proof (rule record_parse_segments)
  fix member kind rid seg m r
  assume *: "split_on slash bs = [BY, member, kind, rid, seg]"
    "pdn_id member = Some m" "lower_hex 16 rid = Some r"
    "kind_from_str kind = Inr (rr_kind (record_of k))" "rr_member (record_of k) = m"
    "rr_id (record_of k) = arr_of r" "record_last k = seg"
  then have "record_segments k = split_on slash bs"
    by (simp add: record_segments_def show_id_pdn_id show_id_lower_hex kind_as_str_from_str)
  then show ?thesis by (simp add: record_to_bytes_join join_split)
qed

interpretation record_codec: wire_codec record_to_bytes record_parse
  by unfold_locales (auto simp: record_parse_to_bytes record_to_bytes_parse)

subsection \<open>The prefix of a record\<close>

lemma split_record_prefix:
  "split_on slash (record_prefix r @ rest) =
     [BY, show_id (rr_member r), kind_as_str (rr_kind r), show_id (rr_id r)] @ split_on slash rest"
  by (cases r) (simp add: split_on_append_sep plain_segments plain_seps)

lemma kind_as_str_inj: "kind_as_str a = kind_as_str b \<longleftrightarrow> a = b"
  by (metis kind_from_str_as_str sum.inject(2))

lemma record_id_text_inj: "show_id (a :: RecordId) = show_id b \<longleftrightarrow> a = b"
proof
  assume "show_id a = show_id b"
  then have "(id_from_str (show_id a) :: _ + RecordId) = id_from_str (show_id b)" by (rule arg_cong)
  then show "a = b" by (simp add: id_from_str_show_id)
qed simp

lemma record_prefix_append: "\<exists>rest. record_to_bytes k = record_prefix (record_of k) @ rest"
  by (cases k) (simp_all del: record_prefix.simps)

lemma record_prefix_of_key:
  assumes "record_to_bytes k = record_prefix r @ rest"
  shows "record_of k = r"
proof -
  have "record_segments k =
      [BY, show_id (rr_member r), kind_as_str (rr_kind r), show_id (rr_id r)] @ split_on slash rest"
    using split_record [of k] split_record_prefix [of r rest] assms by simp
  then have "rr_member (record_of k) = rr_member r" "rr_kind (record_of k) = rr_kind r"
    "rr_id (record_of k) = rr_id r"
    by (auto simp: record_segments_def pdn_id_codec.encode_inj kind_as_str_inj record_id_text_inj)
  then show ?thesis by (cases "record_of k"; cases r) simp
qed

subsection \<open>Properties\<close>

text \<open>
  C11: The bytes that read as a given membership key are exactly the bytes it prints: every key the
  program writes reads back as itself, and no second spelling (an uppercase digit, a leading zero, a
  further segment) names the same event or statement.
\<close>

theorem membership_key_one_spelling:
  "membership_parse bs = Some k \<longleftrightarrow> bs = membership_to_bytes k"
  by (rule membership_codec.decode_iff)

text \<open>
  C12: The same for the record store's keys, over all three kinds of record and the operations of a
  mergeable document.
\<close>

theorem record_key_one_spelling: "record_parse bs = Some k \<longleftrightarrow> bs = record_to_bytes k"
  by (rule record_codec.decode_iff)

text \<open>
  C15: A key of the record store is under the prefix of a record exactly when it is a key of that
  record, so a prefix scan of one record reads all of it and nothing of another.
\<close>

theorem record_prefix_exact:
  "(\<exists>rest. record_to_bytes k = record_prefix r @ rest) \<longleftrightarrow> record_of k = r"
  using record_prefix_append record_prefix_of_key by blast

end
