(* ===== verification/Pod_Payloads.thy ===== *)
theory Pod_Payloads
  imports Pod_Keys
begin

text \<open>
  The payloads of the membership store, \<^verbatim>\<open>crates/data-layer/src/pod/payloads.rs\<close>: runs of fixed-size
  fields, decoded at their exact length only. Each pair of \<open>encode\<close> and \<open>decode\<close> satisfies the
  \<open>wire_codec\<close> contract.
\<close>

type_synonym identity_key = "256 word"
type_synonym signature = "512 word"
type_synonym nonce = "128 word"

definition ACT_PAYLOAD :: bytes where "ACT_PAYLOAD = [0]"
definition CREATED_LEN :: nat where "CREATED_LEN = 16 + 32 + 32 + 32 + 64"
definition JOINED_LEN :: nat where "JOINED_LEN = 32 + 32 + 32 + 64"
definition STATEMENT_MAX_LEN :: nat where "STATEMENT_MAX_LEN = 65536"

datatype MemberDevice = MemberDevice (md_node: NodeId) (md_author: AuthorId)

record CreatedPayload =
  cp_nonce :: nonce
  cp_identity_key :: identity_key
  cp_membership_store :: NamespaceId
  cp_record_store :: NamespaceId
  cp_signature :: signature

record JoinedPayload =
  jp_identity_key :: identity_key
  jp_device :: MemberDevice
  jp_signature :: signature

record DevicesPayload =
  dp_devices :: "MemberDevice list"
  dp_signature :: signature

definition take_arr :: "bytes \<Rightarrow> ('a::len word \<times> bytes) option" where
  "take_arr bs =
     (case split_first_chunk (LENGTH('a) div 8) bs of
        None \<Rightarrow> None
      | Some (head, rest) \<Rightarrow> Some (arr_of head, rest))"

definition encode_device :: "MemberDevice \<Rightarrow> bytes" where
  "encode_device device = arr_bytes (md_node device) @ arr_bytes (md_author device)"

definition encode_devices :: "MemberDevice list \<Rightarrow> bytes" where
  "encode_devices devices = concat (map encode_device devices)"

definition created_encode :: "CreatedPayload \<Rightarrow> bytes" where
  "created_encode p =
     concat [arr_bytes (cp_nonce p), arr_bytes (cp_identity_key p), arr_bytes (cp_membership_store p),
       arr_bytes (cp_record_store p), arr_bytes (cp_signature p)]"

definition created_decode :: "bytes \<Rightarrow> CreatedPayload option" where
  "created_decode bs =
     Option.bind (take_arr bs) (\<lambda>(nonce, bs).
     Option.bind (take_arr bs) (\<lambda>(identity_key, bs).
     Option.bind (take_arr bs) (\<lambda>(membership_store, bs).
     Option.bind (take_arr bs) (\<lambda>(record_store, bs).
     Option.bind (take_arr bs) (\<lambda>(signature, bs).
       if bs = [] then
         Some \<lparr>cp_nonce = nonce, cp_identity_key = identity_key,
           cp_membership_store = membership_store, cp_record_store = record_store,
           cp_signature = signature\<rparr>
       else None)))))"

definition joined_encode :: "JoinedPayload \<Rightarrow> bytes" where
  "joined_encode p =
     concat [arr_bytes (jp_identity_key p), encode_devices [jp_device p], arr_bytes (jp_signature p)]"

definition joined_decode :: "bytes \<Rightarrow> JoinedPayload option" where
  "joined_decode bs =
     Option.bind (take_arr bs) (\<lambda>(identity_key, bs).
     Option.bind (take_arr bs) (\<lambda>(node, bs).
     Option.bind (take_arr bs) (\<lambda>(author, bs).
     Option.bind (take_arr bs) (\<lambda>(signature, bs).
       if bs = [] then
         Some \<lparr>jp_identity_key = identity_key, jp_device = MemberDevice node author,
           jp_signature = signature\<rparr>
       else None))))"

definition devices_encode :: "DevicesPayload \<Rightarrow> bytes" where
  "devices_encode p = encode_devices (dp_devices p) @ arr_bytes (dp_signature p)"

text \<open>The loop of \<open>DevicesPayload::decode\<close>, until nothing is listed.\<close>

function decode_listed :: "bytes \<Rightarrow> MemberDevice list option" where
  "decode_listed listed =
     (if listed = [] then Some []
      else (case take_arr listed of
        None \<Rightarrow> None
      | Some (node, rest) \<Rightarrow>
          (case take_arr rest of
            None \<Rightarrow> None
          | Some (author, rest') \<Rightarrow>
              map_option ((#) (MemberDevice node author)) (decode_listed rest'))))"
  by auto

lemma take_arr_Some:
  assumes "take_arr bs = Some (w :: 'a::len word, rest)" and "8 dvd LENGTH('a)"
  shows "bs = arr_bytes w @ rest"
proof -
  from assms obtain h where "split_first_chunk (LENGTH('a) div 8) bs = Some (h, rest)" "w = arr_of h"
    by (auto simp: take_arr_def split: option.splits)
  with assms(2) show ?thesis by (auto simp: split_first_chunk_Some arr_bytes_arr_of)
qed

termination decode_listed
proof (relation "measure length")
  fix listed rest rest' :: bytes and x y and node author :: "256 word"
  assume "take_arr listed = Some x" "(node, rest) = x" "take_arr rest = Some y" "(author, rest') = y"
  then have "listed = arr_bytes node @ arr_bytes author @ rest'"
    using take_arr_Some [of listed node rest] take_arr_Some [of rest author rest'] by simp
  then show "(rest', listed) \<in> measure length" by (simp add: length_arr_bytes)
qed simp

declare decode_listed.simps [simp del]

definition devices_decode :: "bytes \<Rightarrow> DevicesPayload option" where
  "devices_decode bs =
     (case split_last_chunk 64 bs of
        None \<Rightarrow> None
      | Some (listed, signature) \<Rightarrow>
          map_option (\<lambda>devices. \<lparr>dp_devices = devices, dp_signature = arr_of signature\<rparr>)
            (decode_listed listed))"

text \<open>The order derived for \<open>MemberDevice\<close>.\<close>

instantiation MemberDevice :: linorder
begin

definition less_MemberDevice :: "MemberDevice \<Rightarrow> MemberDevice \<Rightarrow> bool" where
  "less_MemberDevice a b \<longleftrightarrow> md_node a < md_node b \<or> md_node a = md_node b \<and> md_author a < md_author b"

definition less_eq_MemberDevice :: "MemberDevice \<Rightarrow> MemberDevice \<Rightarrow> bool" where
  "less_eq_MemberDevice a b \<longleftrightarrow> a < b \<or> a = b"

instance
proof
  fix x y z :: MemberDevice
  note defs = less_MemberDevice_def less_eq_MemberDevice_def
  show "x < y \<longleftrightarrow> x \<le> y \<and> \<not> y \<le> x" by (auto simp: defs)
  show "x \<le> x" by (simp add: defs)
  show "x \<le> y \<Longrightarrow> y \<le> z \<Longrightarrow> x \<le> z" by (auto simp: defs)
  show "x \<le> y \<Longrightarrow> y \<le> x \<Longrightarrow> x = y" by (auto simp: defs)
  show "x \<le> y \<or> y \<le> x" by (cases x; cases y) (auto simp: defs)
qed

end

subsection \<open>Payloads decode back, at their exact length only\<close>

lemma take_arr_append [codec_simps]:
  "8 dvd LENGTH('a::len) \<Longrightarrow> take_arr (arr_bytes w @ rest) = Some (w :: 'a word, rest)"
  by (simp add: take_arr_def split_first_chunk_append length_arr_bytes arr_of_arr_bytes)

lemma take_arr_iff:
  "8 dvd LENGTH('a::len) \<Longrightarrow> take_arr bs = Some (w :: 'a word, rest) \<longleftrightarrow> bs = arr_bytes w @ rest"
  using take_arr_Some take_arr_append by blast

lemma created_decode_iff: "created_decode bs = Some p \<longleftrightarrow> bs = created_encode p"
  by (cases p)
    (auto simp: created_decode_def created_encode_def bind_eq_Some_conv take_arr_iff split: if_splits)

interpretation created_codec: wire_codec created_encode created_decode
  by unfold_locales (auto simp: created_decode_iff)

lemma joined_decode_iff: "joined_decode bs = Some p \<longleftrightarrow> bs = joined_encode p"
  by (cases p; cases "jp_device p")
    (auto simp: joined_decode_def joined_encode_def encode_devices_def encode_device_def
      bind_eq_Some_conv take_arr_iff split: if_splits)

interpretation joined_codec: wire_codec joined_encode joined_decode
  by unfold_locales (auto simp: joined_decode_iff)

lemma decode_listed_encode: "decode_listed (encode_devices ds) = Some ds"
proof (induction ds)
  case Nil
  show ?case by (subst decode_listed.simps) (simp add: encode_devices_def)
next
  case (Cons d ds)
  have "encode_devices (d # ds) = arr_bytes (md_node d) @ arr_bytes (md_author d) @ encode_devices ds"
    by (simp add: encode_devices_def encode_device_def)
  moreover have "arr_bytes (md_node d) \<noteq> []" using length_arr_bytes [of "md_node d"] by auto
  ultimately show ?case
    using Cons by (subst decode_listed.simps) (simp add: take_arr_append)
qed

lemma encode_devices_Cons:
  "encode_devices (MemberDevice n a # ds) = arr_bytes n @ arr_bytes a @ encode_devices ds"
  by (simp add: encode_devices_def encode_device_def)

lemma decode_listed_Some:
  assumes "decode_listed bs = Some ds" and "bs \<noteq> []"
  obtains n a rest rest' ds' where "take_arr bs = Some (n, rest)" "take_arr rest = Some (a, rest')"
    "decode_listed rest' = Some ds'" "ds = MemberDevice n a # ds'"
  using assms by (subst (asm) decode_listed.simps) (auto split: if_splits option.splits)

lemma encode_decode_listed: "decode_listed bs = Some ds \<Longrightarrow> encode_devices ds = bs"
proof (induction bs arbitrary: ds rule: decode_listed.induct)
  case (1 bs)
  show ?case
  proof (cases "bs = []")
    case True
    with 1(2) show ?thesis by (simp add: decode_listed.simps encode_devices_def)
  next
    case False
    with 1(2) show ?thesis
    proof (rule decode_listed_Some)
      fix n a rest rest' ds'
      assume *: "take_arr bs = Some (n, rest)" "take_arr rest = Some (a, rest')"
        "decode_listed rest' = Some ds'" "ds = MemberDevice n a # ds'"
      then have "encode_devices ds' = rest'" using 1(1) [OF False *(1) refl *(2) refl] by simp
      with * show ?thesis by (simp add: encode_devices_Cons take_arr_iff)
    qed
  qed
qed

lemma arr_of_signature [simp]: "arr_of (arr_bytes (s :: signature)) = s"
  by (simp add: arr_of_arr_bytes)

lemma devices_decode_iff: "devices_decode bs = Some p \<longleftrightarrow> bs = devices_encode p"
proof
  assume "devices_decode bs = Some p"
  then obtain listed sig ds where "split_last_chunk 64 bs = Some (listed, sig)"
    "decode_listed listed = Some ds" "p = \<lparr>dp_devices = ds, dp_signature = arr_of sig\<rparr>"
    by (auto simp: devices_decode_def split: option.splits)
  then show "bs = devices_encode p"
    by (auto simp: split_last_chunk_Some devices_encode_def arr_bytes_arr_of encode_decode_listed)
next
  assume "bs = devices_encode p"
  then show "devices_decode bs = Some p"
    by (cases p) (simp add: devices_decode_def devices_encode_def length_arr_bytes
        decode_listed_encode)
qed

interpretation devices_codec: wire_codec devices_encode devices_decode
  by unfold_locales (auto simp: devices_decode_iff)

lemma length_encode_devices: "length (encode_devices ds) = 64 * length ds"
  by (induction ds) (simp_all add: encode_devices_def encode_device_def length_arr_bytes)

lemma length_created_encode: "length (created_encode p) = CREATED_LEN"
  by (simp add: created_encode_def length_arr_bytes CREATED_LEN_def)

lemma length_joined_encode: "length (joined_encode p) = JOINED_LEN"
  by (simp add: joined_encode_def length_arr_bytes JOINED_LEN_def length_encode_devices)

lemma length_devices_encode: "length (devices_encode p) = 64 * length (dp_devices p) + 64"
  by (simp add: devices_encode_def length_arr_bytes length_encode_devices)

end
