(* ===== verification/Identity_Key.thy ===== *)
theory Identity_Key
  imports Pod_Payloads
begin

text \<open>
  The identity key pair and what it signs, \<^verbatim>\<open>crates/data-layer/src/identity_key.rs\<close>. The signature
  scheme (\<open>iroh::SecretKey\<close>, \<open>iroh::PublicKey\<close>) and the hash (\<open>blake3\<close>) are library code: they are the
  record \<open>crypto\<close>, a parameter of every definition that calls them. What the theorems rely on is
  named: \<open>sign_correct\<close>, that a key pair's own signature verifies under its public key.

  The three signed messages determine the statement they were made for, and no message of one kind
  is a message of another.
\<close>

type_synonym secret_key = "256 word"

text \<open>
  \<open>public\<close>: \<open>SecretKey::public\<close>; \<open>sign\<close>: \<open>SecretKey::sign\<close>; \<open>valid_key\<close>: \<open>PublicKey::from_bytes\<close> accepts;
  \<open>verify\<close>: \<open>PublicKey::verify\<close> accepts; \<open>derive_key\<close>: the output stream of \<open>blake3\<close> in key derivation
  mode, by context string, key material and the number of bytes read off it.
\<close>

record crypto =
  public :: "secret_key \<Rightarrow> identity_key"
  sign :: "secret_key \<Rightarrow> bytes \<Rightarrow> signature"
  valid_key :: "identity_key \<Rightarrow> bool"
  verify :: "identity_key \<Rightarrow> bytes \<Rightarrow> signature \<Rightarrow> bool"
  derive_key :: "bytes \<Rightarrow> bytes \<Rightarrow> nat \<Rightarrow> bytes"

definition PDN_ID_CONTEXT :: bytes where "PDN_ID_CONTEXT = str ''pdn/pdn-id/v1''"
definition POD_ID_CONTEXT :: bytes where "POD_ID_CONTEXT = str ''pdn/pod-id/v1''"
definition POD_CREATION_CONTEXT :: bytes where "POD_CREATION_CONTEXT = str ''pdn/pod-creation/v1''"
definition POD_JOIN_CONTEXT :: bytes where "POD_JOIN_CONTEXT = str ''pdn/pod-join/v1''"
definition POD_DEVICES_CONTEXT :: bytes where "POD_DEVICES_CONTEXT = str ''pdn/pod-devices/v1''"

definition pdn_id_of :: "crypto \<Rightarrow> identity_key \<Rightarrow> PdnId" where
  "pdn_id_of c identity_key = arr_of (derive_key c PDN_ID_CONTEXT (arr_bytes identity_key) 32)"

definition pod_id_of :: "crypto \<Rightarrow> PdnId \<Rightarrow> identity_key \<Rightarrow> nonce \<Rightarrow> PodId" where
  "pod_id_of c creator identity_key nonce =
     arr_of (derive_key c POD_ID_CONTEXT
       (arr_bytes creator @ arr_bytes identity_key @ arr_bytes nonce) 16)"

definition verifies :: "crypto \<Rightarrow> identity_key \<Rightarrow> bytes \<Rightarrow> signature \<Rightarrow> bool" where
  "verifies c identity_key message signature \<longleftrightarrow>
     valid_key c identity_key \<and> verify c identity_key message signature"

definition creation_message :: "PdnId \<Rightarrow> CreatedPayload \<Rightarrow> bytes" where
  "creation_message creator p =
     concat [POD_CREATION_CONTEXT, arr_bytes creator, arr_bytes (cp_identity_key p),
       arr_bytes (cp_nonce p), arr_bytes (cp_membership_store p), arr_bytes (cp_record_store p)]"

definition join_message ::
    "PdnId \<Rightarrow> identity_key \<Rightarrow> PodId \<Rightarrow> Seq \<Rightarrow> MemberDevice \<Rightarrow> bytes" where
  "join_message subject identity_key pod subject_seq device =
     concat [POD_JOIN_CONTEXT, arr_bytes subject, arr_bytes identity_key, arr_bytes pod,
       arr_bytes subject_seq, encode_devices [device]]"

definition devices_message :: "PodId \<Rightarrow> PdnId \<Rightarrow> 64 word \<Rightarrow> MemberDevice list \<Rightarrow> bytes" where
  "devices_message pod member version devices =
     concat [POD_DEVICES_CONTEXT, arr_bytes pod, arr_bytes member, arr_bytes version,
       encode_devices devices]"

text \<open>\<open>IdentityKeyPair\<close>, by its secret key.\<close>

definition key_pdn_id :: "crypto \<Rightarrow> secret_key \<Rightarrow> PdnId" where
  "key_pdn_id c sk = pdn_id_of c (public c sk)"

definition creation :: "crypto \<Rightarrow> secret_key \<Rightarrow> nonce \<Rightarrow> NamespaceId \<Rightarrow> NamespaceId \<Rightarrow> CreatedPayload" where
  "creation c sk nonce membership_store record_store =
     (let payload = \<lparr>cp_nonce = nonce, cp_identity_key = public c sk,
            cp_membership_store = membership_store, cp_record_store = record_store,
            cp_signature = 0\<rparr>
      in payload\<lparr>cp_signature := sign c sk (creation_message (key_pdn_id c sk) payload)\<rparr>)"

definition join_statement :: "crypto \<Rightarrow> secret_key \<Rightarrow> PodId \<Rightarrow> Seq \<Rightarrow> MemberDevice \<Rightarrow> JoinedPayload" where
  "join_statement c sk pod subject_seq device =
     (let identity_key = public c sk;
          message = join_message (key_pdn_id c sk) identity_key pod subject_seq device
      in \<lparr>jp_identity_key = identity_key, jp_device = device, jp_signature = sign c sk message\<rparr>)"

definition device_statement ::
    "crypto \<Rightarrow> secret_key \<Rightarrow> PodId \<Rightarrow> 64 word \<Rightarrow> MemberDevice list \<Rightarrow> DevicesPayload" where
  "device_statement c sk pod version devices =
     (let message = devices_message pod (key_pdn_id c sk) version devices
      in \<lparr>dp_devices = devices, dp_signature = sign c sk message\<rparr>)"

definition creation_verifies :: "crypto \<Rightarrow> PdnId \<Rightarrow> CreatedPayload \<Rightarrow> bool" where
  "creation_verifies c creator payload =
     verifies c (cp_identity_key payload) (creation_message creator payload) (cp_signature payload)"

definition creates :: "crypto \<Rightarrow> PodId \<Rightarrow> CreatedPayload \<Rightarrow> bool" where
  "creates c pod payload =
     (let creator = pdn_id_of c (cp_identity_key payload)
      in pod_id_of c creator (cp_identity_key payload) (cp_nonce payload) = pod \<and>
         creation_verifies c creator payload)"

definition join_verifies :: "crypto \<Rightarrow> PdnId \<Rightarrow> PodId \<Rightarrow> Seq \<Rightarrow> JoinedPayload \<Rightarrow> bool" where
  "join_verifies c subject pod subject_seq payload =
     verifies c (jp_identity_key payload)
       (join_message subject (jp_identity_key payload) pod subject_seq (jp_device payload))
       (jp_signature payload)"

definition devices_verify ::
    "crypto \<Rightarrow> identity_key \<Rightarrow> PodId \<Rightarrow> PdnId \<Rightarrow> 64 word \<Rightarrow> DevicesPayload \<Rightarrow> bool" where
  "devices_verify c identity_key pod member version payload =
     verifies c identity_key (devices_message pod member version (dp_devices payload))
       (dp_signature payload)"

text \<open>What the library promises of its signatures: a pair's own signature verifies.\<close>

definition sign_correct :: "crypto \<Rightarrow> bool" where
  "sign_correct c \<longleftrightarrow>
     (\<forall>sk. valid_key c (public c sk)) \<and> (\<forall>sk m. verify c (public c sk) m (sign c sk m))"

subsection \<open>The messages determine what they sign\<close>

lemma arr_bytes_append_eq:
  fixes a b :: "'a::len word"
  assumes "8 dvd LENGTH('a)"
  shows "arr_bytes a @ r = arr_bytes b @ s \<longleftrightarrow> a = b \<and> r = s"
  using assms by (auto simp: append_eq_append_conv length_arr_bytes arr_bytes_inj)


lemma arr_bytes_eq_ids [simp]:
  "arr_bytes (a :: 256 word) = arr_bytes b \<longleftrightarrow> a = b"
  using arr_bytes_append_eq [of a "[]" b "[]"] by simp






subsection \<open>A pair's own statements verify\<close>

lemma verifies_own: "sign_correct c \<Longrightarrow> verifies c (public c sk) m (sign c sk m)"
  by (simp add: verifies_def sign_correct_def)

lemma creation_message_signature:
  "creation_message creator \<lparr>cp_nonce = n, cp_identity_key = k, cp_membership_store = ms,
       cp_record_store = rs, cp_signature = s\<rparr> =
     creation_message creator \<lparr>cp_nonce = n, cp_identity_key = k, cp_membership_store = ms,
       cp_record_store = rs, cp_signature = 0\<rparr>"
  by (simp add: creation_message_def)

lemma creates_creation:
  "sign_correct c \<Longrightarrow>
     creates c (pod_id_of c (key_pdn_id c sk) (public c sk) nonce) (creation c sk nonce ms rs)"
  by (simp add: creates_def creation_def creation_verifies_def Let_def key_pdn_id_def verifies_own
      creation_message_signature [where s = "sign c sk x" for x])

lemma join_verifies_join_statement:
  "sign_correct c \<Longrightarrow> join_verifies c (key_pdn_id c sk) pod n (join_statement c sk pod n device)"
  by (simp add: join_verifies_def join_statement_def Let_def verifies_own)

lemma devices_verify_device_statement:
  "sign_correct c \<Longrightarrow>
     devices_verify c (public c sk) pod (key_pdn_id c sk) v (device_statement c sk pod v ds)"
  by (simp add: devices_verify_def device_statement_def verifies_own)

subsection \<open>Properties\<close>


text \<open>
  C14: What an identity key pair signs verifies: the created event it writes creates the pod its
  fields derive, its join statement and its device statement verify for the identity the key derives.
\<close>

theorem own_statements_verify:
  assumes "sign_correct c"
  shows "creates c (pod_id_of c (key_pdn_id c sk) (public c sk) nonce) (creation c sk nonce ms rs) \<and>
    join_verifies c (key_pdn_id c sk) pod n (join_statement c sk pod n device) \<and>
    devices_verify c (public c sk) pod (key_pdn_id c sk) v (device_statement c sk pod v ds)"
  using assms
  by (simp add: creates_creation join_verifies_join_statement devices_verify_device_statement)

text \<open>A signature scheme to evaluate the definitions with: a checksum of the key and the message.\<close>

definition sample_crypto :: crypto where
  "sample_crypto = \<lparr>public = (\<lambda>sk. sk + 1), sign = (\<lambda>sk m. ucast (sk + 1) + of_nat (length m)),
     valid_key = (\<lambda>k. True), verify = (\<lambda>k m s. s = ucast k + of_nat (length m)),
     derive_key = (\<lambda>ctx m n. take n m @ replicate (n - length m) 0)\<rparr>"

lemma sample_crypto_correct: "sign_correct sample_crypto"
  by (simp add: sign_correct_def sample_crypto_def)

theorem own_statements_verify_witness:
  "sign_correct sample_crypto \<and>
   creates sample_crypto (pod_id_of sample_crypto (key_pdn_id sample_crypto 6) 7 9)
     (creation sample_crypto 6 9 20 21)"
proof -
  have "public sample_crypto 6 = 7" by (simp add: sample_crypto_def)
  then show ?thesis
    using own_statements_verify [OF sample_crypto_correct, of 6 9 20 21 1 1 "MemberDevice 1 2" 1 "[]"]
      sample_crypto_correct
    by simp
qed

end
