(* ===== verification/Membership_Alone.thy ===== *)
theory Membership_Alone
  imports Identity_Key
begin

text \<open>
  The first half of the membership view, \<^verbatim>\<open>crates/data-layer/src/pod/membership_view.rs\<close>: what a held
  entry is (\<open>HeldEntry\<close>, \<open>HeldPayload\<close>), the verdicts, the entries by their keys (\<open>Parsed\<close>) and every
  check that reads no member's state (\<open>Alone\<close>).

  A \<open>u64\<close> sequence is a natural number here, read off the key's word by \<open>Seq::get\<close>: nothing adds to a
  sequence that is not below the length of a run of held entries. A \<open>BTreeSet<u64>\<close> is a list used as
  a set; \<open>Result<T, Verdict>\<close> is \<open>Verdict + 'a\<close>.
\<close>

datatype HeldPayload = Read bytes | Awaited | Unread | OutOfBounds

record HeldEntry =
  he_key :: bytes
  he_author :: AuthorId
  he_payload :: HeldPayload

definition bounded :: "bool \<Rightarrow> HeldPayload option" where
  "bounded fits = (if fits then None else Some OutOfBounds)"

definition held_unread :: "bytes \<Rightarrow> nat \<Rightarrow> HeldPayload option" where
  "held_unread key len =
     (case membership_parse key of
        Some (MEvent subject seq Created actor actor_seq) \<Rightarrow> bounded (len = CREATED_LEN)
      | Some (MEvent subject seq Joined actor actor_seq) \<Rightarrow> bounded (len = JOINED_LEN)
      | Some (MDevices member version) \<Rightarrow> bounded (len \<le> STATEMENT_MAX_LEN)
      | Some (MEvent subject seq kind actor actor_seq) \<Rightarrow> Some Unread
      | None \<Rightarrow> Some Unread)"

primrec held_bytes :: "HeldPayload \<Rightarrow> bytes option" where
  "held_bytes (Read bs) = Some bs"
| "held_bytes Awaited = None"
| "held_bytes Unread = None"
| "held_bytes OutOfBounds = None"

datatype ForNothing =
    Malformed | Misplaced | OtherPod | OtherStore | KeyOfAnother | BadSignature | WrongActor
  | AuthorNotActorDevice | AuthorNotNamed | ActorLacksState | TransitionNotAllowed | Cyclic
  | LastOwnerKept

datatype Awaiting = AwaitPayload | AwaitActorChain | AwaitSubjectChain | AwaitIdentityKey

datatype Verdict = Counted | CountedForNothing ForNothing | NotYet Awaiting | OutsideLayout

subsection \<open>The entries by their keys\<close>

record Event =
  ev_entry :: nat
  ev_subject :: PdnId
  ev_seq :: nat
  ev_kind :: EventKind
  ev_actor :: PdnId
  ev_actor_seq :: nat

record Statement =
  st_entry :: nat
  st_member :: PdnId
  st_version :: "64 word"

record Parsed =
  pa_events :: "Event list"
  pa_statements :: "Statement list"
  pa_present :: "(PdnId, nat list) hmap"
  pa_runs :: "(PdnId, nat) hmap"

definition parse_entry :: "nat \<times> HeldEntry \<Rightarrow> Parsed \<Rightarrow> Parsed" where
  "parse_entry = (\<lambda>(entry, held) parsed.
     case membership_parse (he_key held) of
       Some (MEvent subject seq kind actor actor_seq) \<Rightarrow>
         parsed\<lparr>pa_present := hmodify subject [] (List.insert (unat seq)) (pa_present parsed),
           pa_events := pa_events parsed @
             [\<lparr>ev_entry = entry, ev_subject = subject, ev_seq = unat seq, ev_kind = kind,
               ev_actor = actor, ev_actor_seq = unat actor_seq\<rparr>]\<rparr>
     | Some (MDevices member version) \<Rightarrow>
         parsed\<lparr>pa_statements := pa_statements parsed @
           [\<lparr>st_entry = entry, st_member = member, st_version = version\<rparr>]\<rparr>
     | None \<Rightarrow> parsed)"

text \<open>The loop that counts a chain's run: the last sequence before the first one missing.\<close>

function run_from :: "nat list \<Rightarrow> nat \<Rightarrow> nat" where
  "run_from held run = (if run + 1 \<in> set held then run_from held (run + 1) else run)"
  by auto

termination run_from
proof (relation "measure (\<lambda>(held, run). card {x \<in> set held. run < x})")
  fix held :: "nat list" and run
  assume "run + 1 \<in> set held"
  then have "{x \<in> set held. run + 1 < x} \<subset> {x \<in> set held. run < x}" by fastforce
  then show "((held, run + 1), held, run) \<in> measure (\<lambda>(held, run). card {x \<in> set held. run < x})"
    by (simp add: psubset_card_mono)
qed simp

declare run_from.simps [simp del]

definition parsed_of :: "HeldEntry list \<Rightarrow> Parsed" where
  "parsed_of entries =
     (let parsed = fold parse_entry (enumerate 0 entries)
            \<lparr>pa_events = [], pa_statements = [], pa_present = [], pa_runs = []\<rparr>
      in parsed\<lparr>pa_runs := map (\<lambda>(member, held). (member, run_from held 0)) (pa_present parsed)\<rparr>)"

definition run_of :: "Parsed \<Rightarrow> PdnId \<Rightarrow> nat" where
  "run_of parsed member = hget_or 0 (pa_runs parsed) member"

definition holds :: "Parsed \<Rightarrow> PdnId \<Rightarrow> nat \<Rightarrow> bool" where
  "holds parsed member seq \<longleftrightarrow> seq \<le> run_of parsed member"

subsection \<open>The checks that read no state\<close>

record Alone =
  al_keys :: "(PdnId, identity_key) hmap"
  al_devices :: "(PdnId, MemberDevice set) hmap"
  al_statement_versions :: "(PdnId, 64 word) hmap"
  al_authors :: "(PdnId, AuthorId set) hmap"
  al_verdicts :: "Verdict list"
  al_candidates :: "Event list"

definition payload_at :: "HeldEntry list \<Rightarrow> nat \<Rightarrow> Verdict + bytes" where
  "payload_at entries entry =
     (if entry < length entries
      then (case he_payload (entries ! entry) of
              Read bs \<Rightarrow> Inr bs
            | Awaited \<Rightarrow> Inl (NotYet AwaitPayload)
            | _ \<Rightarrow> Inl (CountedForNothing Malformed))
      else Inl (CountedForNothing Malformed))"

definition author_at :: "HeldEntry list \<Rightarrow> nat \<Rightarrow> AuthorId option" where
  "author_at entries entry =
     (if entry < length entries then Some (he_author (entries ! entry)) else None)"

text \<open>Writing a verdict: nothing out of range.\<close>

definition set_verdict :: "nat \<Rightarrow> Verdict \<Rightarrow> Verdict list \<Rightarrow> Verdict list" where
  "set_verdict entry verdict verdicts = verdicts[entry := verdict]"

text \<open>The identity key an event carries, if its payload is here and decodes.\<close>

definition event_key :: "HeldEntry list \<Rightarrow> Event \<Rightarrow> identity_key option" where
  "event_key entries event =
     (case payload_at entries (ev_entry event) of
        Inl e \<Rightarrow> None
      | Inr payload \<Rightarrow>
          (case ev_kind event of
             Created \<Rightarrow> map_option cp_identity_key (created_decode payload)
           | Joined \<Rightarrow> map_option jp_identity_key (joined_decode payload)
           | _ \<Rightarrow> None))"

definition find_key :: "crypto \<Rightarrow> HeldEntry list \<Rightarrow> Event \<Rightarrow> (PdnId, identity_key) hmap \<Rightarrow>
    (PdnId, identity_key) hmap" where
  "find_key c entries event keys =
     (case event_key entries event of
        Some key \<Rightarrow>
          if pdn_id_of c key = ev_subject event then AList.update (ev_subject event) key keys else keys
      | None \<Rightarrow> keys)"

definition find_keys :: "crypto \<Rightarrow> HeldEntry list \<Rightarrow> Parsed \<Rightarrow> Alone \<Rightarrow> Alone" where
  "find_keys c entries parsed alone =
     alone\<lparr>al_keys := fold (find_key c entries) (pa_events parsed) (al_keys alone)\<rparr>"

definition statement_verdict ::
    "crypto \<Rightarrow> PodId \<Rightarrow> HeldEntry list \<Rightarrow> (PdnId, identity_key) hmap \<Rightarrow> Statement \<Rightarrow> Verdict" where
  "statement_verdict c pod entries keys statement =
     (case payload_at entries (st_entry statement) of
        Inl verdict \<Rightarrow> verdict
      | Inr payload \<Rightarrow>
          (case devices_decode payload of
             None \<Rightarrow> CountedForNothing Malformed
           | Some payload \<Rightarrow>
               (case map_of keys (st_member statement) of
                  None \<Rightarrow> NotYet AwaitIdentityKey
                | Some key \<Rightarrow>
                    if devices_verify c key pod (st_member statement) (st_version statement) payload
                    then Counted else CountedForNothing BadSignature)))"

definition count_statement :: "crypto \<Rightarrow> PodId \<Rightarrow> HeldEntry list \<Rightarrow> Statement \<Rightarrow> Alone \<Rightarrow> Alone" where
  "count_statement c pod entries statement alone =
     (let verdict = statement_verdict c pod entries (al_keys alone) statement;
          alone = (if verdict = Counted
            then (case payload_at entries (st_entry statement) of
                    Inl e \<Rightarrow> alone
                  | Inr payload \<Rightarrow>
                      (case devices_decode payload of
                         None \<Rightarrow> alone
                       | Some payload \<Rightarrow>
                           alone\<lparr>
                             al_authors := hmodify (st_member statement) {}
                               (\<lambda>s. s \<union> md_author ` set (dp_devices payload)) (al_authors alone),
                             al_devices := hmodify (st_member statement) {}
                               (\<lambda>s. s \<union> set (dp_devices payload)) (al_devices alone),
                             al_statement_versions := hmodify (st_member statement) 0
                               (max (st_version statement)) (al_statement_versions alone)\<rparr>))
            else alone)
      in alone\<lparr>al_verdicts := set_verdict (st_entry statement) verdict (al_verdicts alone)\<rparr>)"

definition count_statements :: "crypto \<Rightarrow> PodId \<Rightarrow> HeldEntry list \<Rightarrow> Parsed \<Rightarrow> Alone \<Rightarrow> Alone" where
  "count_statements c pod entries parsed alone =
     fold (count_statement c pod entries) (pa_statements parsed) alone"

text \<open>The device an event's join statement names, when the event carries one its subject signed.\<close>

definition joining_device :: "crypto \<Rightarrow> PodId \<Rightarrow> HeldEntry list \<Rightarrow> Event \<Rightarrow> MemberDevice option" where
  "joining_device c pod entries event =
     (if ev_kind event \<noteq> Joined then None
      else (case payload_at entries (ev_entry event) of
        Inl e \<Rightarrow> None
      | Inr payload \<Rightarrow>
          (case joined_decode payload of
             None \<Rightarrow> None
           | Some statement \<Rightarrow>
               if pdn_id_of c (jp_identity_key statement) \<noteq> ev_subject event \<or>
                  \<not> join_verifies c (ev_subject event) pod (of_nat (ev_seq event)) statement
               then None else Some (jp_device statement))))"

definition count_joining_device :: "crypto \<Rightarrow> PodId \<Rightarrow> HeldEntry list \<Rightarrow> Event \<Rightarrow> Alone \<Rightarrow> Alone" where
  "count_joining_device c pod entries event alone =
     (case joining_device c pod entries event of
        None \<Rightarrow> alone
      | Some device \<Rightarrow>
          alone\<lparr>
            al_authors := hmodify (ev_subject event) {} (insert (md_author device)) (al_authors alone),
            al_devices := hmodify (ev_subject event) {} (insert device) (al_devices alone)\<rparr>)"

definition count_joining_devices :: "crypto \<Rightarrow> PodId \<Rightarrow> HeldEntry list \<Rightarrow> Parsed \<Rightarrow> Alone \<Rightarrow> Alone" where
  "count_joining_devices c pod entries parsed alone =
     fold (count_joining_device c pod entries) (pa_events parsed) alone"

definition creation_alone ::
    "crypto \<Rightarrow> PodId \<Rightarrow> NamespaceId \<Rightarrow> HeldEntry list \<Rightarrow> Event \<Rightarrow> Verdict + unit" where
  "creation_alone c pod store entries event =
     (if ev_seq event \<noteq> 1 \<or> ev_actor event \<noteq> ev_subject event \<or> ev_actor_seq event \<noteq> 0
      then Inl (CountedForNothing Misplaced)
      else (case payload_at entries (ev_entry event) of
        Inl verdict \<Rightarrow> Inl verdict
      | Inr payload \<Rightarrow>
          (case created_decode payload of
             None \<Rightarrow> Inl (CountedForNothing Malformed)
           | Some made \<Rightarrow>
               if pod_id_of c (ev_subject event) (cp_identity_key made) (cp_nonce made) \<noteq> pod
               then Inl (CountedForNothing OtherPod)
               else if cp_membership_store made \<noteq> store
               then Inl (CountedForNothing OtherStore)
               else if pdn_id_of c (cp_identity_key made) \<noteq> ev_subject event
               then Inl (CountedForNothing KeyOfAnother)
               else if \<not> creation_verifies c (ev_subject event) made
               then Inl (CountedForNothing BadSignature)
               else Inr ())))"

definition joining_alone :: "crypto \<Rightarrow> PodId \<Rightarrow> HeldEntry list \<Rightarrow> Event \<Rightarrow> Verdict + unit" where
  "joining_alone c pod entries event =
     (if ev_actor event = ev_subject event then Inl (CountedForNothing WrongActor)
      else (case payload_at entries (ev_entry event) of
        Inl verdict \<Rightarrow> Inl verdict
      | Inr payload \<Rightarrow>
          (case joined_decode payload of
             None \<Rightarrow> Inl (CountedForNothing Malformed)
           | Some statement \<Rightarrow>
               if pdn_id_of c (jp_identity_key statement) \<noteq> ev_subject event
               then Inl (CountedForNothing KeyOfAnother)
               else if \<not> join_verifies c (ev_subject event) pod (of_nat (ev_seq event)) statement
               then Inl (CountedForNothing BadSignature)
               else Inr ())))"

text \<open>The checks of an event that depend on its kind.\<close>

definition kind_alone ::
    "crypto \<Rightarrow> PodId \<Rightarrow> NamespaceId \<Rightarrow> HeldEntry list \<Rightarrow> Event \<Rightarrow> Verdict + unit" where
  "kind_alone c pod store entries event =
     (case ev_kind event of
        Created \<Rightarrow> creation_alone c pod store entries event
      | Joined \<Rightarrow> joining_alone c pod entries event
      | Left \<Rightarrow>
          if ev_actor event \<noteq> ev_subject event then Inl (CountedForNothing WrongActor) else Inr ()
      | Promoted \<Rightarrow> Inr ()
      | _ \<Rightarrow>
          if ev_actor event = ev_subject event then Inl (CountedForNothing WrongActor) else Inr ())"

definition authored :: "HeldEntry list \<Rightarrow> (PdnId, AuthorId set) hmap \<Rightarrow> Event \<Rightarrow> bool" where
  "authored entries authors event =
     (case author_at entries (ev_entry event) of
        None \<Rightarrow> False
      | Some author \<Rightarrow>
          (case map_of authors (ev_actor event) of None \<Rightarrow> False | Some s \<Rightarrow> author \<in> s))"

definition check_event ::
    "crypto \<Rightarrow> PodId \<Rightarrow> NamespaceId \<Rightarrow> HeldEntry list \<Rightarrow> Parsed \<Rightarrow> (PdnId, AuthorId set) hmap \<Rightarrow>
      Event \<Rightarrow> Verdict + unit" where
  "check_event c pod store entries parsed authors event =
     (if ev_seq event = 0 then Inl (CountedForNothing Misplaced)
      else (case kind_alone c pod store entries event of
        Inl verdict \<Rightarrow> Inl verdict
      | Inr _ \<Rightarrow>
          if \<not> authored entries authors event then Inl (CountedForNothing AuthorNotActorDevice)
          else if \<not> holds parsed (ev_actor event) (ev_actor_seq event)
          then Inl (NotYet AwaitActorChain)
          else if \<not> holds parsed (ev_subject event) (ev_seq event - 1)
          then Inl (NotYet AwaitSubjectChain)
          else Inr ()))"

definition check_alone_step ::
    "crypto \<Rightarrow> PodId \<Rightarrow> NamespaceId \<Rightarrow> HeldEntry list \<Rightarrow> Parsed \<Rightarrow> Event \<Rightarrow> Alone \<Rightarrow> Alone" where
  "check_alone_step c pod store entries parsed event alone =
     (case check_event c pod store entries parsed (al_authors alone) event of
        Inr _ \<Rightarrow> alone\<lparr>al_candidates := al_candidates alone @ [event]\<rparr>
      | Inl verdict \<Rightarrow>
          alone\<lparr>al_verdicts := set_verdict (ev_entry event) verdict (al_verdicts alone)\<rparr>)"

definition check_alone ::
    "crypto \<Rightarrow> PodId \<Rightarrow> NamespaceId \<Rightarrow> HeldEntry list \<Rightarrow> Parsed \<Rightarrow> Alone \<Rightarrow> Alone" where
  "check_alone c pod store entries parsed alone =
     fold (check_alone_step c pod store entries parsed) (pa_events parsed) alone"

definition alone_of :: "crypto \<Rightarrow> PodId \<Rightarrow> NamespaceId \<Rightarrow> HeldEntry list \<Rightarrow> Parsed \<Rightarrow> Alone" where
  "alone_of c pod store entries parsed =
     (let alone = \<lparr>al_keys = [], al_devices = [], al_statement_versions = [], al_authors = [],
            al_verdicts = replicate (length entries) OutsideLayout, al_candidates = []\<rparr>;
          alone = find_keys c entries parsed alone;
          alone = count_statements c pod entries parsed alone;
          alone = count_joining_devices c pod entries parsed alone
      in check_alone c pod store entries parsed alone)"

subsection \<open>Lemmas on the parsed entries\<close>

text \<open>The event, or the statement, that an entry's key makes it.\<close>

definition event_of :: "nat \<times> HeldEntry \<Rightarrow> Event option" where
  "event_of = (\<lambda>(entry, held).
     case membership_parse (he_key held) of
       Some (MEvent subject seq kind actor actor_seq) \<Rightarrow>
         Some \<lparr>ev_entry = entry, ev_subject = subject, ev_seq = unat seq, ev_kind = kind,
           ev_actor = actor, ev_actor_seq = unat actor_seq\<rparr>
     | _ \<Rightarrow> None)"

definition statement_of :: "nat \<times> HeldEntry \<Rightarrow> Statement option" where
  "statement_of = (\<lambda>(entry, held).
     case membership_parse (he_key held) of
       Some (MDevices member version) \<Rightarrow>
         Some \<lparr>st_entry = entry, st_member = member, st_version = version\<rparr>
     | _ \<Rightarrow> None)"

lemma fold_parse_events:
  "pa_events (fold parse_entry xs p) = pa_events p @ List.map_filter event_of xs"
  by (induction xs arbitrary: p)
    (auto simp: parse_entry_def event_of_def map_filter_simps split: option.splits MembershipKey.splits)

lemma fold_parse_statements:
  "pa_statements (fold parse_entry xs p) = pa_statements p @ List.map_filter statement_of xs"
  by (induction xs arbitrary: p)
    (auto simp: parse_entry_def statement_of_def map_filter_simps
      split: option.splits MembershipKey.splits)

lemma parse_entry_present:
  "pa_present (parse_entry x p) =
     (case event_of x of
        None \<Rightarrow> pa_present p
      | Some e \<Rightarrow> hmodify (ev_subject e) [] (List.insert (ev_seq e)) (pa_present p))"
  by (auto simp: parse_entry_def event_of_def split: option.splits MembershipKey.splits prod.splits)

lemma fold_parse_present:
  "set (hget_or [] (pa_present (fold parse_entry xs p)) m) =
     set (hget_or [] (pa_present p) m) \<union>
     {ev_seq e |e. e \<in> set (List.map_filter event_of xs) \<and> ev_subject e = m}"
proof (induction xs arbitrary: p)
  case Nil
  then show ?case by (simp add: map_filter_simps)
next
  case (Cons x xs)
  show ?case
    by (cases "event_of x") (auto simp: Cons parse_entry_present map_filter_simps hmap_simps)
qed

lemma set_map_filter: "y \<in> set (List.map_filter f xs) \<longleftrightarrow> (\<exists>x\<in>set xs. f x = Some y)"
  by (induction xs) (auto simp: map_filter_simps split: option.splits)

lemma parsed_events: "pa_events (parsed_of entries) = List.map_filter event_of (enumerate 0 entries)"
  by (simp add: parsed_of_def Let_def fold_parse_events)

lemma parsed_statements:
  "pa_statements (parsed_of entries) = List.map_filter statement_of (enumerate 0 entries)"
  by (simp add: parsed_of_def Let_def fold_parse_statements)

lemma parsed_present:
  "set (hget_or [] (pa_present (parsed_of entries)) m) =
     {ev_seq e |e. e \<in> set (pa_events (parsed_of entries)) \<and> ev_subject e = m}"
  by (simp add: parsed_of_def Let_def fold_parse_present fold_parse_events)

lemma event_of_entry: "event_of x = Some e \<Longrightarrow> ev_entry e = fst x"
  by (auto simp: event_of_def split: option.splits MembershipKey.splits prod.splits)

lemma statement_of_entry: "statement_of x = Some s \<Longrightarrow> st_entry s = fst x"
  by (auto simp: statement_of_def split: option.splits MembershipKey.splits prod.splits)

lemma event_not_statement: "event_of x = Some e \<Longrightarrow> statement_of x = None"
  by (auto simp: event_of_def statement_of_def split: option.splits MembershipKey.splits prod.splits)

lemma in_map_filter_enumerate:
  assumes "\<And>x y. f x = Some y \<Longrightarrow> g y = fst x"
  shows "y \<in> set (List.map_filter f (enumerate 0 xs)) \<longleftrightarrow> g y < length xs \<and> f (g y, xs ! g y) = Some y"
proof
  assume "y \<in> set (List.map_filter f (enumerate 0 xs))"
  then obtain i x where x: "(i, x) \<in> set (enumerate 0 xs)" "f (i, x) = Some y"
    unfolding set_map_filter by auto
  then have "g y = i" using assms by fastforce
  with x show "g y < length xs \<and> f (g y, xs ! g y) = Some y"
    by (auto simp: in_set_enumerate_eq)
next
  assume "g y < length xs \<and> f (g y, xs ! g y) = Some y"
  then show "y \<in> set (List.map_filter f (enumerate 0 xs))"
    unfolding set_map_filter by (intro bexI [of _ "(g y, xs ! g y)"]) (auto simp: in_set_enumerate_eq)
qed

lemma in_events_iff:
  "e \<in> set (pa_events (parsed_of entries)) \<longleftrightarrow>
     ev_entry e < length entries \<and> event_of (ev_entry e, entries ! ev_entry e) = Some e"
  unfolding parsed_events by (rule in_map_filter_enumerate) (rule event_of_entry)

lemma in_statements_iff:
  "s \<in> set (pa_statements (parsed_of entries)) \<longleftrightarrow>
     st_entry s < length entries \<and> statement_of (st_entry s, entries ! st_entry s) = Some s"
  unfolding parsed_statements by (rule in_map_filter_enumerate) (rule statement_of_entry)

lemma distinct_map_filter_entries:
  assumes "distinct (map fst xs)" and "\<And>x y. f x = Some y \<Longrightarrow> g y = fst x"
  shows "distinct (map g (List.map_filter f xs))"
  using assms
proof (induction xs)
  case (Cons x xs)
  have "g y \<in> fst ` set xs" if "y \<in> set (List.map_filter f xs)" for y
    using that Cons.prems(2) by (auto simp: set_map_filter)
  with Cons show ?case by (auto simp: map_filter_simps split: option.splits)
qed (simp add: map_filter_simps)

lemma distinct_event_entries: "distinct (map ev_entry (pa_events (parsed_of entries)))"
  unfolding parsed_events
  by (rule distinct_map_filter_entries) (simp_all add: event_of_entry enumerate_eq_zip)

lemma distinct_statement_entries: "distinct (map st_entry (pa_statements (parsed_of entries)))"
  unfolding parsed_statements
  by (rule distinct_map_filter_entries) (simp_all add: statement_of_entry enumerate_eq_zip)

lemma map_of_map_values:
  "map_of (map (\<lambda>(k, v). (k, f v)) m) k = map_option f (map_of m k)"
  by (induction m) auto

lemma run_from_ge: "run \<le> run_from held run"
proof (induction held run rule: run_from.induct)
  case (1 held run)
  then show ?case by (subst run_from.simps) auto
qed

lemma run_from_held: "run < s \<Longrightarrow> s \<le> run_from held run \<Longrightarrow> s \<in> set held"
proof (induction held run rule: run_from.induct)
  case (1 held run)
  show ?case
  proof (cases "run + 1 \<in> set held")
    case True
    with 1 show ?thesis
      by (subst (asm) (2) run_from.simps) (cases "s = run + 1"; auto)
  next
    case False
    with 1 show ?thesis by (subst (asm) (2) run_from.simps) auto
  qed
qed

lemma run_from_next: "Suc (run_from held run) \<notin> set held"
proof (induction held run rule: run_from.induct)
  case (1 held run)
  then show ?case by (subst run_from.simps) auto
qed

lemma run_from_Nil [simp]: "run_from [] 0 = 0"
  by (subst run_from.simps) simp

lemma run_of_parsed:
  "run_of (parsed_of entries) m = run_from (hget_or [] (pa_present (parsed_of entries)) m) 0"
  by (auto simp: run_of_def hget_or_def parsed_of_def Let_def map_of_map_values split: option.splits)

text \<open>The run of a chain: every sequence up to it is held, the next one is not.\<close>

lemma run_of_held:
  assumes "0 < s" and "s \<le> run_of (parsed_of entries) m"
  obtains e where "e \<in> set (pa_events (parsed_of entries))" "ev_subject e = m" "ev_seq e = s"
proof -
  from assms have "s \<in> set (hget_or [] (pa_present (parsed_of entries)) m)"
    by (simp add: run_of_parsed run_from_held [of 0 s])
  then show thesis using that by (auto simp: parsed_present)
qed

lemma run_of_next:
  "e \<in> set (pa_events (parsed_of entries)) \<Longrightarrow>
     ev_seq e \<noteq> Suc (run_of (parsed_of entries) (ev_subject e))"
  using run_from_next [of "hget_or [] (pa_present (parsed_of entries)) (ev_subject e)" 0]
  by (auto simp: run_of_parsed parsed_present)

lemma run_of_event:
  assumes "e \<in> set (pa_events (parsed_of entries))"
    and "holds (parsed_of entries) (ev_subject e) (ev_seq e - 1)" and "ev_seq e \<noteq> 0"
  shows "ev_seq e \<le> run_of (parsed_of entries) (ev_subject e)"
  using run_of_next [OF assms(1)] assms(2,3) by (simp add: holds_def)

subsection \<open>Lemmas on the checks\<close>

lemma fold_verdicts_other:
  "\<forall>x\<in>set xs. g x \<noteq> i \<Longrightarrow> fold (\<lambda>x. set_verdict (g x) (v x)) xs vs ! i = vs ! i"
  by (induction xs arbitrary: vs) (auto simp: set_verdict_def)

lemma length_fold_verdicts: "length (fold (\<lambda>x. set_verdict (g x) (v x)) xs vs) = length vs"
  by (induction xs arbitrary: vs) (auto simp: set_verdict_def)

lemma fold_verdicts_at:
  assumes "distinct (map g xs)" and "x \<in> set xs" and "g x < length vs"
  shows "fold (\<lambda>x. set_verdict (g x) (v x)) xs vs ! g x = v x"
  using assms
proof (induction xs arbitrary: vs)
  case (Cons y ys)
  show ?case
  proof (cases "x \<in> set ys")
    case True
    with Cons show ?thesis by (simp add: set_verdict_def)
  next
    case False
    with Cons.prems have "x = y" by simp
    with Cons.prems have "\<forall>z\<in>set ys. g z \<noteq> g x"
      by (metis distinct.simps(2) image_eqI list.simps(9) set_map)
    then show ?thesis
      using \<open>x = y\<close> Cons.prems(3) by (simp add: fold_verdicts_other) (simp add: set_verdict_def)
  qed
qed simp

lemma count_statement_keys: "al_keys (count_statement c pod entries s a) = al_keys a"
  by (auto simp: count_statement_def Let_def split: sum.splits option.splits)

lemma count_statement_verdicts:
  "al_verdicts (count_statement c pod entries s a) =
     set_verdict (st_entry s) (statement_verdict c pod entries (al_keys a) s) (al_verdicts a)"
  by (auto simp: count_statement_def Let_def split: sum.splits option.splits)

lemma count_statement_candidates: "al_candidates (count_statement c pod entries s a) = al_candidates a"
  by (auto simp: count_statement_def Let_def split: sum.splits option.splits)

lemma fold_count_statements:
  "al_keys (fold (count_statement c pod entries) ss a) = al_keys a \<and>
   al_candidates (fold (count_statement c pod entries) ss a) = al_candidates a \<and>
   al_verdicts (fold (count_statement c pod entries) ss a) =
     fold (\<lambda>s. set_verdict (st_entry s) (statement_verdict c pod entries (al_keys a) s)) ss
       (al_verdicts a)"
  by (induction ss arbitrary: a)
    (simp_all add: count_statement_keys count_statement_candidates count_statement_verdicts)

lemma fold_count_joining:
  "al_keys (fold (count_joining_device c pod entries) es a) = al_keys a \<and>
   al_candidates (fold (count_joining_device c pod entries) es a) = al_candidates a \<and>
   al_verdicts (fold (count_joining_device c pod entries) es a) = al_verdicts a \<and>
   al_statement_versions (fold (count_joining_device c pod entries) es a) = al_statement_versions a"
  by (induction es arbitrary: a) (auto simp: count_joining_device_def split: option.splits)

lemma fold_check_alone:
  "al_keys (fold (check_alone_step c pod store entries parsed) es a) = al_keys a \<and>
   al_authors (fold (check_alone_step c pod store entries parsed) es a) = al_authors a \<and>
   al_devices (fold (check_alone_step c pod store entries parsed) es a) = al_devices a \<and>
   al_statement_versions (fold (check_alone_step c pod store entries parsed) es a) =
     al_statement_versions a \<and>
   al_candidates (fold (check_alone_step c pod store entries parsed) es a) =
     al_candidates a @
       filter (\<lambda>e. check_event c pod store entries parsed (al_authors a) e = Inr ()) es \<and>
   al_verdicts (fold (check_alone_step c pod store entries parsed) es a) =
     fold (\<lambda>e. set_verdict (ev_entry e)
             (projl (check_event c pod store entries parsed (al_authors a) e)))
       (filter (\<lambda>e. check_event c pod store entries parsed (al_authors a) e \<noteq> Inr ()) es)
       (al_verdicts a)"
  by (induction es arbitrary: a) (auto simp: check_alone_step_def split: sum.splits)

text \<open>What the stages before the check of the events leave, for the definitions over them.\<close>

definition alone_before ::
    "crypto \<Rightarrow> PodId \<Rightarrow> NamespaceId \<Rightarrow> HeldEntry list \<Rightarrow> Parsed \<Rightarrow> Alone" where
  "alone_before c pod store entries parsed =
     count_joining_devices c pod entries parsed (count_statements c pod entries parsed
       (find_keys c entries parsed \<lparr>al_keys = [], al_devices = [], al_statement_versions = [],
          al_authors = [], al_verdicts = replicate (length entries) OutsideLayout,
          al_candidates = []\<rparr>))"

lemma alone_of_before:
  "alone_of c pod store entries parsed =
     check_alone c pod store entries parsed (alone_before c pod store entries parsed)"
  by (simp add: alone_of_def alone_before_def Let_def)

definition alone_keys :: "crypto \<Rightarrow> HeldEntry list \<Rightarrow> Parsed \<Rightarrow> (PdnId, identity_key) hmap" where
  "alone_keys c entries parsed = fold (find_key c entries) (pa_events parsed) []"

lemma alone_of_simps:
  fixes c pod store entries parsed
  defines "a \<equiv> alone_of c pod store entries parsed"
    and "b \<equiv> alone_before c pod store entries parsed"
  shows "al_keys a = alone_keys c entries parsed"
    and "al_authors a = al_authors b" and "al_devices a = al_devices b"
    and "al_statement_versions a = al_statement_versions b"
    and "al_candidates a =
      filter (\<lambda>e. check_event c pod store entries parsed (al_authors a) e = Inr ()) (pa_events parsed)"
    and "al_verdicts a =
      fold (\<lambda>e. set_verdict (ev_entry e)
              (projl (check_event c pod store entries parsed (al_authors a) e)))
        (filter (\<lambda>e. check_event c pod store entries parsed (al_authors a) e \<noteq> Inr ())
           (pa_events parsed))
        (fold (\<lambda>s. set_verdict (st_entry s) (statement_verdict c pod entries (al_keys a) s))
          (pa_statements parsed) (replicate (length entries) OutsideLayout))"
proof -
  note folds = fold_check_alone [of c pod store entries parsed "pa_events parsed" b]
  have keys: "al_keys b = alone_keys c entries parsed" and cands: "al_candidates b = []"
    and verdicts: "al_verdicts b =
      fold (\<lambda>s. set_verdict (st_entry s) (statement_verdict c pod entries (al_keys b) s))
        (pa_statements parsed) (replicate (length entries) OutsideLayout)"
    by (simp_all add: b_def alone_before_def alone_keys_def find_keys_def count_statements_def
        count_joining_devices_def fold_count_joining fold_count_statements)
  show auth: "al_authors a = al_authors b" and "al_devices a = al_devices b"
    and "al_statement_versions a = al_statement_versions b"
    using folds by (simp_all add: a_def b_def alone_of_before check_alone_def)
  show keys_a: "al_keys a = alone_keys c entries parsed"
    using folds keys by (simp add: a_def b_def alone_of_before check_alone_def)
  show "al_candidates a =
      filter (\<lambda>e. check_event c pod store entries parsed (al_authors a) e = Inr ()) (pa_events parsed)"
    using folds cands by (simp add: auth) (simp add: a_def b_def alone_of_before check_alone_def)
  show "al_verdicts a =
      fold (\<lambda>e. set_verdict (ev_entry e)
              (projl (check_event c pod store entries parsed (al_authors a) e)))
        (filter (\<lambda>e. check_event c pod store entries parsed (al_authors a) e \<noteq> Inr ())
           (pa_events parsed))
        (fold (\<lambda>s. set_verdict (st_entry s) (statement_verdict c pod entries (al_keys a) s))
          (pa_statements parsed) (replicate (length entries) OutsideLayout))"
    using folds verdicts
    by (simp add: auth keys keys_a) (simp add: a_def b_def alone_of_before check_alone_def)
qed

lemma length_alone_verdicts:
  "length (al_verdicts (alone_of c pod store entries parsed)) = length entries"
  by (simp add: alone_of_simps length_fold_verdicts)

lemma alone_verdict_event:
  fixes c pod store entries
  defines "p \<equiv> parsed_of entries"
  defines "a \<equiv> alone_of c pod store entries p"
  assumes "e \<in> set (pa_events p)"
  shows "al_verdicts a ! ev_entry e =
    (case check_event c pod store entries p (al_authors a) e of Inl v \<Rightarrow> v | Inr _ \<Rightarrow> OutsideLayout)"
proof -
  let ?chk = "check_event c pod store entries p (al_authors a)"
  let ?vs = "fold (\<lambda>s. set_verdict (st_entry s) (statement_verdict c pod entries (al_keys a) s))
      (pa_statements p) (replicate (length entries) OutsideLayout)"
  have e: "ev_entry e < length entries" "event_of (ev_entry e, entries ! ev_entry e) = Some e"
    using assms(3) by (simp_all add: p_def in_events_iff)
  have "\<forall>s\<in>set (pa_statements p). st_entry s \<noteq> ev_entry e"
    using e event_not_statement by (fastforce simp: p_def in_statements_iff)
  then have vs: "?vs ! ev_entry e = OutsideLayout" using e by (simp add: fold_verdicts_other)
  have verd: "al_verdicts a = fold (\<lambda>e. set_verdict (ev_entry e) (projl (?chk e)))
      (filter (\<lambda>e. ?chk e \<noteq> Inr ()) (pa_events p)) ?vs"
    unfolding a_def by (rule alone_of_simps)
  have dist: "distinct (map ev_entry (pa_events p))" by (simp add: p_def distinct_event_entries)
  show ?thesis
  proof (cases "?chk e")
    case (Inl v)
    then have "al_verdicts a ! ev_entry e = projl (?chk e)"
      unfolding verd using assms(3) dist e
      by (intro fold_verdicts_at) (auto simp: distinct_map_filter length_fold_verdicts)
    with Inl show ?thesis by simp
  next
    case (Inr u)
    have "\<forall>f\<in>set (filter (\<lambda>e. ?chk e \<noteq> Inr ()) (pa_events p)). ev_entry f \<noteq> ev_entry e"
      using Inr assms(3) dist by (auto simp: distinct_map dest: inj_onD)
    then have "al_verdicts a ! ev_entry e = ?vs ! ev_entry e"
      unfolding verd by (rule fold_verdicts_other)
    with Inr vs show ?thesis by simp
  qed
qed

lemma alone_verdict_statement:
  fixes c pod store entries
  defines "p \<equiv> parsed_of entries"
  defines "a \<equiv> alone_of c pod store entries p"
  assumes "s \<in> set (pa_statements p)"
  shows "al_verdicts a ! st_entry s = statement_verdict c pod entries (al_keys a) s"
proof -
  have s: "st_entry s < length entries" "statement_of (st_entry s, entries ! st_entry s) = Some s"
    using assms(3) by (simp_all add: p_def in_statements_iff)
  have "\<forall>e\<in>set (pa_events p). ev_entry e \<noteq> st_entry s"
    using s event_not_statement by (fastforce simp: p_def in_events_iff)
  then show ?thesis
    unfolding a_def alone_of_simps(6) [of c pod store entries p]
    using assms(3) s distinct_statement_entries [of entries]
    by (subst fold_verdicts_other) (auto simp: p_def intro!: fold_verdicts_at)
qed

lemma alone_verdict_outside:
  assumes "i < length entries" and "membership_parse (he_key (entries ! i)) = None"
  shows "al_verdicts (alone_of c pod store entries (parsed_of entries)) ! i = OutsideLayout"
proof -
  have "\<forall>e\<in>set (pa_events (parsed_of entries)). ev_entry e \<noteq> i"
    and "\<forall>s\<in>set (pa_statements (parsed_of entries)). st_entry s \<noteq> i"
    using assms(2) by (auto simp: in_events_iff in_statements_iff event_of_def statement_of_def)
  then show ?thesis
    unfolding alone_of_simps(6) [of c pod store entries "parsed_of entries"]
    using assms(1) by (simp add: fold_verdicts_other)
qed

end
