(* ===== verification/Components.thy ===== *)
theory Components
  imports Pdn_Prelude
begin

text \<open>
  Strongly connected components, \<open>components\<close> of
  \<^verbatim>\<open>crates/data-layer/src/pod/membership_view.rs\<close>: the iterative form of Tarjan's algorithm the
  membership view breaks loops with. The arrays are lists, \<open>UNVISITED\<close> is \<open>None\<close>, the two \<open>Vec\<close>s used as
  stacks have their last element first. An index out of range panics in the source; here the loop
  returns \<open>None\<close>, and on a graph whose edges stay in range it never does.

  The result is exactly the strongly connected components, each after every component it reaches.
\<close>

record tarjan =
  tj_index :: "nat option list"
  tj_low :: "nat list"
  tj_on :: "bool list"
  tj_stack :: "nat list"
  tj_next :: nat
  tj_out :: "nat list list"
  tj_work :: "(nat \<times> nat) list"

text \<open>Number a node, put it on the stack and begin its edges.\<close>

definition visit :: "nat \<Rightarrow> tarjan \<Rightarrow> tarjan" where
  "visit v st = st\<lparr>tj_index := (tj_index st)[v := Some (tj_next st)],
     tj_low := (tj_low st)[v := tj_next st], tj_next := tj_next st + 1,
     tj_stack := v # tj_stack st, tj_on := (tj_on st)[v := True], tj_work := (v, 0) # tj_work st\<rparr>"

text \<open>Pop the stack down to \<open>node\<close>: the marks, the rest of the stack and the component.\<close>

fun pop_component :: "nat \<Rightarrow> bool list \<Rightarrow> nat list \<Rightarrow> bool list \<times> nat list \<times> nat list" where
  "pop_component node on [] = (on, [], [])"
| "pop_component node on (m # stack) =
     (if m = node then (on[m := False], stack, [m])
      else (let (on', stack', component) = pop_component node (on[m := False]) stack
            in (on', stack', m # component)))"

text \<open>What follows a node's last edge.\<close>

definition finish :: "nat \<Rightarrow> (nat \<times> nat) list \<Rightarrow> tarjan \<Rightarrow> tarjan" where
  "finish node rest st =
     (let st = st\<lparr>tj_work := rest\<rparr>;
          st = (case rest of
                  [] \<Rightarrow> st
                | (parent, _) # _ \<Rightarrow> st\<lparr>tj_low := (tj_low st)[parent :=
                    min (tj_low st ! parent) (tj_low st ! node)]\<rparr>)
      in if Some (tj_low st ! node) = tj_index st ! node
         then (let (on, stack, component) = pop_component node (tj_on st) (tj_stack st)
               in st\<lparr>tj_on := on, tj_stack := stack, tj_out := tj_out st @ [component]\<rparr>)
         else st)"

definition edges_left :: "nat list list \<Rightarrow> (nat \<times> nat) list \<Rightarrow> nat" where
  "edges_left adj work = sum_list (map (\<lambda>(node, edge). length (adj ! node) - edge) work)"

function dfs_loop :: "nat list list \<Rightarrow> tarjan \<Rightarrow> tarjan option" where
  "dfs_loop adj st =
     (case tj_work st of
        [] \<Rightarrow> Some st
      | (node, edge) # rest \<Rightarrow>
          if length adj \<le> node then None
          else if edge < length (adj ! node) then
            (let succ = adj ! node ! edge; st' = st\<lparr>tj_work := (node, edge + 1) # rest\<rparr>
             in if length (tj_index st) \<le> succ then None
                else if tj_index st ! succ = None then dfs_loop adj (visit succ st')
                else if tj_on st ! succ then
                  dfs_loop adj (st'\<lparr>tj_low := (tj_low st)[node :=
                    min (tj_low st ! node) (the (tj_index st ! succ))]\<rparr>)
                else dfs_loop adj st')
          else dfs_loop adj (finish node rest st))"
  by auto

lemma finish_work [simp]: "tj_work (finish node rest st) = rest"
  by (auto simp: finish_def Let_def split: list.splits prod.splits)

lemma finish_index [simp]: "tj_index (finish node rest st) = tj_index st"
  by (auto simp: finish_def Let_def split: list.splits prod.splits)

lemma unvisited_visit:
  "v < length ix \<Longrightarrow> ix ! v = None \<Longrightarrow>
     length (filter (\<lambda>x. x = None) (ix[v := Some n])) < length (filter (\<lambda>x. x = None) ix)"
  by (induction ix arbitrary: v) (auto split: nat.splits)

termination dfs_loop
  by (relation "measures [\<lambda>(adj, st). length (filter (\<lambda>x. x = None) (tj_index st)),
      \<lambda>(adj, st). edges_left adj (tj_work st), \<lambda>(adj, st). length (tj_work st)]")
    (auto simp: visit_def unvisited_visit edges_left_def)

declare dfs_loop.simps [simp del]

primrec visit_roots :: "nat list list \<Rightarrow> nat list \<Rightarrow> tarjan \<Rightarrow> tarjan option" where
  "visit_roots adj [] st = Some st"
| "visit_roots adj (root # roots) st =
     (if tj_index st ! root \<noteq> None then visit_roots adj roots st
      else (case dfs_loop adj (visit root st) of
              None \<Rightarrow> None
            | Some st \<Rightarrow> visit_roots adj roots st))"

definition components :: "nat list list \<Rightarrow> nat list list option" where
  "components adj =
     (let nodes = length adj;
          st = \<lparr>tj_index = replicate nodes None, tj_low = replicate nodes 0,
            tj_on = replicate nodes False, tj_stack = [], tj_next = 0, tj_out = [], tj_work = []\<rparr>
      in map_option tj_out (visit_roots adj [0..<nodes] st))"

text \<open>
  Whether a component holds a loop: more than one node, or a node with an edge to itself. The test
  of \<open>Pass::break_loops\<close>.
\<close>

definition is_looped :: "nat list list \<Rightarrow> nat list \<Rightarrow> bool" where
  "is_looped adj component =
     (case component of
        [single] \<Rightarrow> single < length adj \<and> single \<in> set (adj ! single)
      | _ \<Rightarrow> True)"

subsection \<open>The invariant, on the arrays as functions\<close>

text \<open>The work node a stacked node belongs to: the last one numbered before it.\<close>

definition own :: "(nat \<Rightarrow> nat) \<Rightarrow> nat list \<Rightarrow> nat \<Rightarrow> nat \<Rightarrow> bool" where
  "own idx W w v \<longleftrightarrow> w \<in> set W \<and> idx w \<le> idx v \<and> (\<forall>w'\<in>set W. idx w' \<le> idx v \<longrightarrow> idx w' \<le> idx w)"

text \<open>A list of components in an order in which each is closed with those before it.\<close>

definition scc_list :: "(nat \<times> nat) set \<Rightarrow> nat list list \<Rightarrow> bool" where
  "scc_list E out \<longleftrightarrow>
     distinct (concat out) \<and> [] \<notin> set out \<and>
     (\<forall>C\<in>set out. \<forall>a\<in>set C. \<forall>b\<in>set C. (a, b) \<in> E\<^sup>*) \<and>
     (\<forall>i\<le>length out. E `` set (concat (take i out)) \<subseteq> set (concat (take i out)))"

text \<open>
  \<open>V\<close> the visited nodes, \<open>S\<close> the stack and \<open>W\<close> the nodes of the work list, both last first, \<open>X\<close> the
  edges already looked at.
\<close>

definition tinv :: "(nat \<times> nat) set \<Rightarrow> nat set \<Rightarrow> (nat \<Rightarrow> nat) \<Rightarrow> (nat \<Rightarrow> nat) \<Rightarrow> nat list \<Rightarrow> nat list \<Rightarrow>
    (nat \<times> nat) set \<Rightarrow> nat list list \<Rightarrow> nat \<Rightarrow> bool" where
  "tinv E V idx low S W X out next \<longleftrightarrow>
     inj_on idx V \<and> (\<forall>v\<in>V. idx v < next) \<and>
     sorted_wrt (\<lambda>a b. idx b < idx a) S \<and> set S \<inter> set (concat out) = {} \<and>
     V = set (concat out) \<union> set S \<and> scc_list E out \<and>
     sorted_wrt (\<lambda>a b. idx b < idx a) W \<and> set W \<subseteq> set S \<and>
     successively (\<lambda>a b. (b, a) \<in> E) W \<and>
     (\<forall>v\<in>set S. W \<noteq> [] \<and> idx (last W) \<le> idx v) \<and>
     X \<subseteq> E \<and> (\<forall>v\<in>set S. \<forall>x. (v, x) \<in> X \<longrightarrow> x \<in> V) \<and>
     (\<forall>v\<in>set S. v \<notin> set W \<longrightarrow> (\<forall>x. (v, x) \<in> E \<longrightarrow> (v, x) \<in> X)) \<and>
     (\<forall>v\<in>set S. \<exists>u\<in>set S. low v = idx u \<and> idx u \<le> idx v \<and> (v, u) \<in> E\<^sup>*) \<and>
     (\<forall>v\<in>set S. v \<notin> set W \<longrightarrow> low v < idx v) \<and>
     (\<forall>w. \<forall>v\<in>set S. own idx W w v \<longrightarrow> (w, v) \<in> E\<^sup>*) \<and>
     (\<forall>w. \<forall>v\<in>set S. own idx W w v \<longrightarrow> low w \<le> low v) \<and>
     (\<forall>w. \<forall>v\<in>set S. own idx W w v \<longrightarrow> (\<forall>x\<in>set S. (v, x) \<in> X \<longrightarrow> low w \<le> idx x))"

lemma own_self: "inj_on idx (set W) \<Longrightarrow> v \<in> set W \<Longrightarrow> own idx W w v \<longleftrightarrow> w = v"
  by (auto simp: own_def dest: inj_onD intro: le_antisym)

lemma own_top:
  assumes "sorted_wrt (\<lambda>a b. idx b < idx a) (n # W)" and "idx n \<le> idx v"
  shows "own idx (n # W) w v \<longleftrightarrow> w = n"
  using assms by (auto simp: own_def intro: less_imp_le)

lemma own_below:
  assumes "idx v < idx n"
  shows "own idx (n # W) w v \<longleftrightarrow> own idx W w v"
  using assms by (auto simp: own_def)

lemma tinvD:
  assumes "tinv E V idx low S W X out next"
  shows "inj_on idx V" and "v \<in> V \<Longrightarrow> idx v < next"
    and "sorted_wrt (\<lambda>a b. idx b < idx a) S" and "set S \<inter> set (concat out) = {}"
    and "V = set (concat out) \<union> set S" and "scc_list E out"
    and "sorted_wrt (\<lambda>a b. idx b < idx a) W" and "set W \<subseteq> set S"
    and "successively (\<lambda>a b. (b, a) \<in> E) W"
    and "v \<in> set S \<Longrightarrow> W \<noteq> [] \<and> idx (last W) \<le> idx v"
    and "X \<subseteq> E" and "v \<in> set S \<Longrightarrow> (v, x) \<in> X \<Longrightarrow> x \<in> V"
    and "v \<in> set S \<Longrightarrow> v \<notin> set W \<Longrightarrow> (v, x) \<in> E \<Longrightarrow> (v, x) \<in> X"
    and "v \<in> set S \<Longrightarrow> \<exists>u\<in>set S. low v = idx u \<and> idx u \<le> idx v \<and> (v, u) \<in> E\<^sup>*"
    and "v \<in> set S \<Longrightarrow> v \<notin> set W \<Longrightarrow> low v < idx v"
    and "v \<in> set S \<Longrightarrow> own idx W w v \<Longrightarrow> (w, v) \<in> E\<^sup>*"
    and "v \<in> set S \<Longrightarrow> own idx W w v \<Longrightarrow> low w \<le> low v"
    and "v \<in> set S \<Longrightarrow> own idx W w v \<Longrightarrow> x \<in> set S \<Longrightarrow> (v, x) \<in> X \<Longrightarrow> low w \<le> idx x"
  using assms unfolding tinv_def by (elim conjE; (assumption | (drule (1) bspec; simp) | simp))+

lemma tinvI:
  assumes "inj_on idx V" and "\<And>v. v \<in> V \<Longrightarrow> idx v < next"
    and "sorted_wrt (\<lambda>a b. idx b < idx a) S" and "set S \<inter> set (concat out) = {}"
    and "V = set (concat out) \<union> set S" and "scc_list E out"
    and "sorted_wrt (\<lambda>a b. idx b < idx a) W" and "set W \<subseteq> set S"
    and "successively (\<lambda>a b. (b, a) \<in> E) W"
    and "\<And>v. v \<in> set S \<Longrightarrow> W \<noteq> [] \<and> idx (last W) \<le> idx v"
    and "X \<subseteq> E" and "\<And>v x. v \<in> set S \<Longrightarrow> (v, x) \<in> X \<Longrightarrow> x \<in> V"
    and "\<And>v x. v \<in> set S \<Longrightarrow> v \<notin> set W \<Longrightarrow> (v, x) \<in> E \<Longrightarrow> (v, x) \<in> X"
    and "\<And>v. v \<in> set S \<Longrightarrow> \<exists>u\<in>set S. low v = idx u \<and> idx u \<le> idx v \<and> (v, u) \<in> E\<^sup>*"
    and "\<And>v. v \<in> set S \<Longrightarrow> v \<notin> set W \<Longrightarrow> low v < idx v"
    and "\<And>w v. v \<in> set S \<Longrightarrow> own idx W w v \<Longrightarrow> (w, v) \<in> E\<^sup>*"
    and "\<And>w v. v \<in> set S \<Longrightarrow> own idx W w v \<Longrightarrow> low w \<le> low v"
    and "\<And>w v x. v \<in> set S \<Longrightarrow> own idx W w v \<Longrightarrow> x \<in> set S \<Longrightarrow> (v, x) \<in> X \<Longrightarrow> low w \<le> idx x"
  shows "tinv E V idx low S W X out next"
  unfolding tinv_def
  by (intro conjI ballI allI impI; (fact assms | (rule assms; assumption)
      | (rule assms(10) [THEN conjunct1]; assumption) | (rule assms(10) [THEN conjunct2]; assumption)))

lemma tinv_edge:
  assumes inv: "tinv E V idx low S (n # W) X out nx" and edge: "(n, x) \<in> E" and x: "x \<in> V"
  defines "low' \<equiv> (if x \<in> set S then low(n := min (low n) (idx x)) else low)"
  shows "tinv E V idx low' S (n # W) (insert (n, x) X) out nx"
proof (rule tinvI)
  note I = tinvD [OF inv]
  have nS: "n \<in> set S" using I(8) by simp
  have inj: "inj_on idx (set (n # W))" using I(1,5,8) by (metis inj_on_subset le_supI2)
  have le: "low' v \<le> low v" for v by (simp add: low'_def)
  have same: "v \<noteq> n \<Longrightarrow> low' v = low v" for v by (simp add: low'_def)
  have nn: "own idx (n # W) w n \<Longrightarrow> w = n" for w using own_self [OF inj, of n w] by simp
  show "\<exists>u\<in>set S. low' v = idx u \<and> idx u \<le> idx v \<and> (v, u) \<in> E\<^sup>*" if "v \<in> set S" for v
  proof (cases "v = n \<and> x \<in> set S \<and> idx x < low n")
    case True
    then have "low' v = idx x" "(v, x) \<in> E\<^sup>*" "low n \<le> idx n"
      using edge I(14) [OF nS] by (auto simp: low'_def)
    with True show ?thesis by (intro bexI [of _ x]) auto
  next
    case False
    then have "low' v = low v" by (auto simp: low'_def)
    with I(14) [OF that] show ?thesis by simp
  qed
  show "low' w \<le> low' v" if v: "v \<in> set S" and own: "own idx (n # W) w v" for w v
    using I(17) [OF v own] same [of v] le [of w] nn own by (cases "v = n") auto
  show "low' w \<le> idx y"
    if v: "v \<in> set S" and own: "own idx (n # W) w v" and y: "y \<in> set S" "(v, y) \<in> insert (n, x) X"
    for w v y
  proof (cases "(v, y) = (n, x)")
    case True
    with nn own y show ?thesis by (auto simp: low'_def)
  next
    case False
    with I(18) [OF v own y(1)] y(2) le [of w] show ?thesis by auto
  qed
  show "low' v < idx v" if "v \<in> set S" "v \<notin> set (n # W)" for v
    using I(15) [OF that] that(2) same [of v] by auto
  show "y \<in> V" if "v \<in> set S" "(v, y) \<in> insert (n, x) X" for v y
    using I(12) [OF that(1)] that(2) x by blast
  show "insert (n, x) X \<subseteq> E" using I(11) edge by blast
  show "(v, y) \<in> insert (n, x) X" if "v \<in> set S" "v \<notin> set (n # W)" "(v, y) \<in> E" for v y
    using I(13) [OF that] by blast
qed (use tinvD [OF inv] in \<open>(assumption | blast)+\<close>)

lemma own_upd: "x \<notin> set W \<Longrightarrow> v \<noteq> x \<Longrightarrow> own (idx(x := k)) W w v \<longleftrightarrow> own idx W w v"
  by (auto simp: own_def)

lemma sorted_wrt_upd:
  "x \<notin> set xs \<Longrightarrow> sorted_wrt (\<lambda>a b. (idx(x := k)) b < (idx(x := k)) a) xs \<longleftrightarrow>
     sorted_wrt (\<lambda>a b. idx b < idx a) xs" for idx :: "nat \<Rightarrow> nat"
  by (induction xs) auto

lemma tinv_push:
  assumes inv: "tinv E V idx low S W X out nx" and x: "x \<notin> V" and X: "\<And>y. (x, y) \<notin> X"
    and T: "T \<subseteq> E" "T \<subseteq> {(hd W, x)}" and W: "W \<noteq> [] \<Longrightarrow> (hd W, x) \<in> E" "W = [] \<Longrightarrow> T = {}"
  shows "tinv E (insert x V) (idx(x := nx)) (low(x := nx)) (x # S) (x # W) (X \<union> T) out (Suc nx)"
proof (rule tinvI)
  note I = tinvD [OF inv]
  have xS: "x \<notin> set S" and xO: "x \<notin> set (concat out)" and xW: "x \<notin> set W" using I(5,8) x by auto
  have lt: "idx v < nx" if "v \<in> set S" for v using I(2,5) that by blast
  have injW: "inj_on idx (set W)" using I(1,5,8) by (metis inj_on_subset le_supI2)
  let ?i = "idx(x := nx)" and ?l = "low(x := nx)"
  have sx: "sorted_wrt (\<lambda>a b. ?i b < ?i a) (x # W)"
    unfolding sorted_wrt.simps
  proof
    show "\<forall>y\<in>set W. ?i y < ?i x" using I(8) xW lt by auto
    show "sorted_wrt (\<lambda>a b. ?i b < ?i a) W" using I(7) sorted_wrt_upd [OF xW] by blast
  qed
  have own: "own ?i (x # W) w v \<longleftrightarrow> (if v = x then w = x else own idx W w v)"
    if "v \<in> set (x # S)" for w v
  proof (cases "v = x")
    case True
    then show ?thesis using own_top [of ?i x W x w, OF sx] by simp
  next
    case False
    then have "?i v < ?i x" using lt that by auto
    with False show ?thesis using own_below [of ?i v x W w] own_upd [OF xW False] by simp
  qed
  have wS: "w \<in> set S" if "own idx W w v" for w v using that I(8) by (auto simp: own_def)
  show "inj_on ?i (insert x V)"
    using I(1,2) x by (auto simp: inj_on_def)
  show "?i v < Suc nx" if "v \<in> insert x V" for v using I(2) that by (auto simp: less_SucI)
  show "sorted_wrt (\<lambda>a b. ?i b < ?i a) (x # S)"
    unfolding sorted_wrt.simps
  proof
    show "\<forall>y\<in>set S. ?i y < ?i x" using xS lt by auto
    show "sorted_wrt (\<lambda>a b. ?i b < ?i a) S" using I(3) sorted_wrt_upd [OF xS] by blast
  qed
  show "set (x # S) \<inter> set (concat out) = {}" using I(4) xO by auto
  show "insert x V = set (concat out) \<union> set (x # S)" using I(5) by auto
  show "scc_list E out" by (rule I(6))
  show "sorted_wrt (\<lambda>a b. ?i b < ?i a) (x # W)" by (rule sx)
  show "set (x # W) \<subseteq> set (x # S)" using I(8) by auto
  show "successively (\<lambda>a b. (b, a) \<in> E) (x # W)" using I(9) W by (cases W) auto
  show "x # W \<noteq> [] \<and> ?i (last (x # W)) \<le> ?i v" if "v \<in> set (x # S)" for v
    using that I(10) [of v] lt [of "last W"] I(8) xW xS by (auto simp: subset_iff less_imp_le)
  show "X \<union> T \<subseteq> E" using I(11) T by blast
  show "y \<in> insert x V" if "v \<in> set (x # S)" "(v, y) \<in> X \<union> T" for v y
    using that I(12) X T by auto
  show "(v, y) \<in> X \<union> T" if "v \<in> set (x # S)" "v \<notin> set (x # W)" "(v, y) \<in> E" for v y
    using that I(13) by auto
  show "\<exists>u\<in>set (x # S). ?l v = ?i u \<and> ?i u \<le> ?i v \<and> (v, u) \<in> E\<^sup>*" if "v \<in> set (x # S)" for v
  proof (cases "v = x")
    case False
    with that obtain u where "u \<in> set S" "low v = idx u" "idx u \<le> idx v" "(v, u) \<in> E\<^sup>*"
      using I(14) [of v] by auto
    with False xS show ?thesis by (intro bexI [of _ u]) auto
  qed auto
  show "?l v < ?i v" if "v \<in> set (x # S)" "v \<notin> set (x # W)" for v
    using that I(15) [of v] by auto
  show "(w, v) \<in> E\<^sup>*" if "v \<in> set (x # S)" "own ?i (x # W) w v" for w v
    using that own I(16) [of v w] by (auto split: if_splits)
  show "?l w \<le> ?l v" if "v \<in> set (x # S)" "own ?i (x # W) w v" for w v
    using that own [OF that(1), of w] I(17) [of v w] xS wS [of w v] by (auto split: if_splits)
  show "?l w \<le> ?i y"
    if v: "v \<in> set (x # S)" and o: "own ?i (x # W) w v" and y: "y \<in> set (x # S)" "(v, y) \<in> X \<union> T"
    for w v y
  proof (cases "v = x")
    case True
    with y X T(2) W(2) I(8) xS have False by (cases W) auto
    then show ?thesis ..
  next
    case False
    with own [OF v] o v have w: "own idx W w v" "v \<in> set S" by auto
    then have "w \<noteq> x" and wlow: "low w \<le> idx w" using wS xS I(14) [of w] by auto
    show ?thesis
    proof (cases "y = x")
      case True
      with lt wS w \<open>w \<noteq> x\<close> wlow show ?thesis by (fastforce dest: less_imp_le)
    next
      case yx: False
      with y T(2) have "(v, y) \<in> X" "y \<in> set S" by auto
      with I(18) [OF w(2) w(1)] yx \<open>w \<noteq> x\<close> show ?thesis by simp
    qed
  qed
qed

text \<open>A node that is no root of a component: its stacked nodes pass to its parent.\<close>

lemma own_pass:
  assumes "sorted_wrt (\<lambda>a b. idx b < idx a) (n # p # W)" and "own idx (p # W) w v"
  shows "own idx (n # p # W) w v \<or> w = p \<and> own idx (n # p # W) n v"
proof (cases "idx n \<le> idx v")
  case True
  then have "own idx (n # p # W) n v" using own_top [OF assms(1) True] by simp
  moreover have "idx p \<le> idx v" using True assms(1) by simp
  then have "w = p" using own_top [of idx p W v w] assms by simp
  ultimately show ?thesis by simp
next
  case False
  with assms(2) own_below [of idx v n "p # W" w] show ?thesis by simp
qed

lemma tinv_keep_parent:
  assumes inv: "tinv E V idx low S [n] X out nx"
  shows "low n = idx n"
proof -
  note I = tinvD [OF inv]
  have "n \<in> set S" using I(8) by simp
  then obtain u where "u \<in> set S" "low n = idx u" "idx u \<le> idx n" using I(14) by blast
  with I(10) [of u] show ?thesis by simp
qed

lemma tinv_keep:
  assumes inv: "tinv E V idx low S (n # p # W) X out nx" and all: "\<And>x. (n, x) \<in> E \<Longrightarrow> (n, x) \<in> X"
    and low: "low n \<noteq> idx n"
  defines "low' \<equiv> low(p := min (low p) (low n))"
  shows "tinv E V idx low' S (p # W) X out nx"
proof (rule tinvI)
  note I = tinvD [OF inv]
  have nS: "n \<in> set S" "p \<in> set S" using I(8) by auto
  have inj: "inj_on idx (set (p # W))" using I(1,5,8) by (metis inj_on_subset le_supI2 set_subset_Cons)
  have pn: "idx p < idx n" using I(7) by simp
  have le: "low' v \<le> low v" "low' p \<le> low n" for v by (simp_all add: low'_def)
  have same: "v \<noteq> p \<Longrightarrow> low' v = low v" for v by (simp add: low'_def)
  have pp: "own idx (p # W) w p \<Longrightarrow> w = p" for w using own_self [OF inj, of p w] by simp
  have edge: "(p, n) \<in> E" using I(9) by simp
  note pass = own_pass [OF I(7)]
  show "\<exists>u\<in>set S. low' v = idx u \<and> idx u \<le> idx v \<and> (v, u) \<in> E\<^sup>*" if "v \<in> set S" for v
  proof (cases "v = p \<and> low n < low p")
    case True
    obtain u where u: "u \<in> set S" "low n = idx u" "(n, u) \<in> E\<^sup>*" using I(14) [OF nS(1)] by blast
    have "low p \<le> idx p" using I(14) [OF nS(2)] by auto
    with True u edge show ?thesis
      by (intro bexI [of _ u]) (auto simp: low'_def intro: converse_rtrancl_into_rtrancl)
  next
    case False
    then have "low' v = low v" by (auto simp: low'_def)
    with I(14) [OF that] show ?thesis by simp
  qed
  show "(w, v) \<in> E\<^sup>*" if "v \<in> set S" "own idx (p # W) w v" for w v
    using pass [OF that(2)] I(16) [OF that(1)] edge by (auto intro: converse_rtrancl_into_rtrancl)
  show "low' w \<le> low' v" if v: "v \<in> set S" and own: "own idx (p # W) w v" for w v
  proof (cases "v = p")
    case True
    with pp [of w] own show ?thesis by simp
  next
    case False
    with pass [OF own] I(17) [OF v] le same [of v] show ?thesis by (metis order_trans)
  qed
  show "low' w \<le> idx x"
    if v: "v \<in> set S" and own: "own idx (p # W) w v" and x: "x \<in> set S" "(v, x) \<in> X" for w v x
    using pass [OF own] I(18) [OF v _ x] le by (metis order_trans)
  show "low' v < idx v" if "v \<in> set S" "v \<notin> set (p # W)" for v
    using I(14) [OF nS(1)] I(15) [OF that(1)] that same [of v] low by (cases "v = n") auto
  show "(v, x) \<in> X" if "v \<in> set S" "v \<notin> set (p # W)" "(v, x) \<in> E" for v x
    using I(13) [OF that(1)] that all by (cases "v = n") auto
  show "p # W \<noteq> [] \<and> idx (last (p # W)) \<le> idx v" if "v \<in> set S" for v using I(10) [OF that] by simp
  show "set (p # W) \<subseteq> set S" using I(8) by simp
  show "sorted_wrt (\<lambda>a b. idx b < idx a) (p # W)" using I(7) by simp
  show "successively (\<lambda>a b. (b, a) \<in> E) (p # W)" using I(9) by simp
qed (use tinvD [OF inv] in \<open>(assumption | blast)+\<close>)

text \<open>A root of a component: everything stacked from it on is the component.\<close>

lemma segment_reaches:
  assumes inv: "tinv E V idx low S (n # W) X out nx" and low: "low n = idx n"
  shows "v \<in> set S \<Longrightarrow> idx n \<le> idx v \<Longrightarrow> (v, n) \<in> E\<^sup>*"
proof (induction "idx v" arbitrary: v rule: less_induct)
  case less
  note I = tinvD [OF inv]
  have SV: "set S \<subseteq> V" using I(5) by blast
  show ?case
  proof (cases "v = n")
    case False
    have nS: "n \<in> set S" using I(8) by simp
    then have "idx n \<noteq> idx v" using False inj_onD [OF I(1)] less.prems SV by blast
    with less.prems(2) have nv: "idx n < idx v" by simp
    have "v \<notin> set W" using I(7) nv by (auto dest: less_asym)
    with False have vW: "v \<notin> set (n # W)" by simp
    obtain u where u: "u \<in> set S" "low v = idx u" "(v, u) \<in> E\<^sup>*" using I(14) [OF less.prems(1)] by blast
    have "own idx (n # W) n v" using own_top [OF I(7) less.prems(2)] by simp
    then have "idx n \<le> idx u" using I(17) [OF less.prems(1), of n] low u by simp
    moreover have "idx u < idx v" using I(15) [OF less.prems(1) vW] u by simp
    ultimately have "(u, n) \<in> E\<^sup>*" using less.hyps u by blast
    with u show ?thesis by (meson rtrancl_trans)
  qed simp
qed

lemma scc_list_snoc:
  assumes "scc_list E out" and "C \<noteq> []" and "distinct C" and "set C \<inter> set (concat out) = {}"
    and "\<And>a b. a \<in> set C \<Longrightarrow> b \<in> set C \<Longrightarrow> (a, b) \<in> E\<^sup>*"
    and "\<And>a b. a \<in> set C \<Longrightarrow> (a, b) \<in> E \<Longrightarrow> b \<in> set C \<union> set (concat out)"
  shows "scc_list E (out @ [C])"
proof -
  have "E `` set (concat (take i (out @ [C]))) \<subseteq> set (concat (take i (out @ [C])))"
    if "i \<le> length (out @ [C])" for i
  proof (cases "i \<le> length out")
    case True
    with assms(1) show ?thesis by (simp add: scc_list_def)
  next
    case False
    with that have "take i (out @ [C]) = out @ [C]" by simp
    moreover have "E `` set (concat out) \<subseteq> set (concat out)"
      using assms(1) unfolding scc_list_def by (metis order_refl take_all)
    moreover have "E `` set C \<subseteq> set C \<union> set (concat out)" using assms(6) by blast
    ultimately show ?thesis by (simp only: concat_append set_append) auto
  qed
  with assms show ?thesis by (auto simp: scc_list_def)
qed

lemma sorted_wrt_distinct: "sorted_wrt (\<lambda>a b. idx b < (idx a :: nat)) xs \<Longrightarrow> distinct xs"
  by (induction xs) auto

lemma tinv_pop:
  assumes inv: "tinv E V idx low S (n # W) X out nx" and all: "\<And>x. (n, x) \<in> E \<Longrightarrow> (n, x) \<in> X"
    and low: "low n = idx n" and S: "S = S1 @ n # S2"
  shows "tinv E V idx low S2 W X (out @ [S1 @ [n]]) nx"
proof (rule tinvI)
  note I = tinvD [OF inv]
  have hi: "idx n < idx v" if "v \<in> set S1" for v using I(3) that by (auto simp: S sorted_wrt_append)
  have lo: "idx v < idx n" if "v \<in> set S2" for v using I(3) that by (auto simp: S sorted_wrt_append)
  have seg: "v \<in> set (S1 @ [n]) \<longleftrightarrow> v \<in> set S \<and> idx n \<le> idx v" for v
    using hi lo by (auto simp: S dest: less_imp_le leD)
  have S2: "v \<in> set S2 \<longleftrightarrow> v \<in> set S \<and> idx v < idx n" for v
    using hi lo by (auto simp: S dest: less_asym)
  have dist: "distinct S" using I(3) by (rule sorted_wrt_distinct)
  have own: "own idx (n # W) n v" if "v \<in> set (S1 @ [n])" for v
    using own_top [OF I(7), of v] seg that by simp
  have ownb: "own idx (n # W) w v" if "v \<in> set S2" "own idx W w v" for w v
    using own_below [of idx v n W w] lo that by simp
  show "scc_list E (out @ [S1 @ [n]])"
  proof (rule scc_list_snoc)
    show "scc_list E out" by (rule I(6))
    show "distinct (S1 @ [n])" using dist by (simp add: S)
    show "set (S1 @ [n]) \<inter> set (concat out) = {}" using I(4) by (auto simp: S)
    fix a b assume a: "a \<in> set (S1 @ [n])"
    then have aS: "a \<in> set S" "idx n \<le> idx a" using seg by blast+
    show "(a, b) \<in> E\<^sup>*" if "b \<in> set (S1 @ [n])"
      using segment_reaches [OF inv low aS] I(16) [OF _ own [OF that]] that by (auto simp: S)
    assume ab: "(a, b) \<in> E"
    have "a \<notin> set W" using aS(2) I(7) by (auto dest: leD)
    then have aX: "(a, b) \<in> X" using I(13) [OF aS(1)] ab all by (cases "a = n") auto
    then have "b \<in> set (concat out) \<union> set S" using I(5) I(12) [OF aS(1)] by blast
    moreover have "idx n \<le> idx b" if "b \<in> set S" using I(18) [OF aS(1) own [OF a] that aX] low by simp
    ultimately show "b \<in> set (S1 @ [n]) \<union> set (concat out)" using seg by blast
  qed simp
  show "\<exists>u\<in>set S2. low v = idx u \<and> idx u \<le> idx v \<and> (v, u) \<in> E\<^sup>*" if "v \<in> set S2" for v
  proof -
    have v: "v \<in> set S" "idx v < idx n" using that S2 by blast+
    then obtain u where "u \<in> set S" "low v = idx u" "idx u \<le> idx v" "(v, u) \<in> E\<^sup>*" using I(14) by blast
    with v S2 show ?thesis by (metis le_less_trans)
  qed
  show "set W \<subseteq> set S2" using I(7,8) S2 by (auto simp del: set_append simp: subset_iff)
  show "W \<noteq> [] \<and> idx (last W) \<le> idx v" if "v \<in> set S2" for v
    using I(10) [of v] S2 that by (auto split: if_splits)
  show "set S2 \<inter> set (concat (out @ [S1 @ [n]])) = {}" using I(4) dist by (auto simp: S)
  show "V = set (concat (out @ [S1 @ [n]])) \<union> set S2" using I(5) by (auto simp: S)
  show "sorted_wrt (\<lambda>a b. idx b < idx a) S2" using I(3) by (simp add: S sorted_wrt_append)
  show "sorted_wrt (\<lambda>a b. idx b < idx a) W" using I(7) by simp
  show "successively (\<lambda>a b. (b, a) \<in> E) W" using I(9) by (cases W) simp_all
  show "(v, x) \<in> X" if "v \<in> set S2" "v \<notin> set W" "(v, x) \<in> E" for v x
    using I(13) [of v x] that S2 by auto
  show "low v < idx v" if "v \<in> set S2" "v \<notin> set W" for v
    using I(15) [of v] that S2 by auto
  show "(w, v) \<in> E\<^sup>*" if "v \<in> set S2" "own idx W w v" for w v
    using I(16) [of v w] ownb [OF that] that S2 by blast
  show "low w \<le> low v" if "v \<in> set S2" "own idx W w v" for w v
    using I(17) [of v w] ownb [OF that] that S2 by blast
  show "low w \<le> idx x" if "v \<in> set S2" "own idx W w v" "x \<in> set S2" "(v, x) \<in> X" for w v x
    using I(18) [of v w x] ownb [OF that(1,2)] that S2 by blast
  show "x \<in> V" if "v \<in> set S2" "(v, x) \<in> X" for v x using I(12) [of v x] that S2 by blast
qed (use tinvD [OF inv] in \<open>(assumption | blast)+\<close>)

subsection \<open>The loop keeps the invariant\<close>

definition edges :: "nat list list \<Rightarrow> (nat \<times> nat) set" where
  "edges adj = {(v, x). v < length adj \<and> x \<in> set (adj ! v)}"

definition wf_adj :: "nat list list \<Rightarrow> bool" where
  "wf_adj adj \<longleftrightarrow> (\<forall>next\<in>set adj. \<forall>x\<in>set next. x < length adj)"

definition visited :: "tarjan \<Rightarrow> nat set" where
  "visited st = {v. v < length (tj_index st) \<and> tj_index st ! v \<noteq> None}"

definition explored :: "nat list list \<Rightarrow> tarjan \<Rightarrow> (nat \<times> nat) set" where
  "explored adj st = {(v, adj ! v ! k) |v k. v \<in> visited st \<and> k < length (adj ! v) \<and>
     (\<forall>e. (v, e) \<in> set (tj_work st) \<longrightarrow> k < e)}"

definition cinv :: "nat list list \<Rightarrow> tarjan \<Rightarrow> bool" where
  "cinv adj st \<longleftrightarrow>
     length (tj_index st) = length adj \<and> length (tj_low st) = length adj \<and>
     length (tj_on st) = length adj \<and> (\<forall>v<length adj. tj_on st ! v \<longleftrightarrow> v \<in> set (tj_stack st)) \<and>
     tinv (edges adj) (visited st) (\<lambda>v. the (tj_index st ! v)) ((!) (tj_low st)) (tj_stack st)
       (map fst (tj_work st)) (explored adj st) (tj_out st) (tj_next st)"

lemma visited_upd [simp]:
  "visited (st\<lparr>tj_work := w\<rparr>) = visited st" "visited (st\<lparr>tj_low := l\<rparr>) = visited st"
  "visited (st\<lparr>tj_stack := s\<rparr>) = visited st" "visited (st\<lparr>tj_on := b\<rparr>) = visited st"
  "visited (st\<lparr>tj_out := out\<rparr>) = visited st"
  by (simp_all add: visited_def)

lemma explored_upd [simp]:
  "explored adj (st\<lparr>tj_low := l\<rparr>) = explored adj st"
  "explored adj (st\<lparr>tj_stack := s\<rparr>) = explored adj st"
  "explored adj (st\<lparr>tj_on := b\<rparr>) = explored adj st"
  "explored adj (st\<lparr>tj_out := out\<rparr>) = explored adj st"
  by (simp_all add: explored_def)

lemma cinv_tinv:
  "cinv adj st \<Longrightarrow> tinv (edges adj) (visited st) (\<lambda>v. the (tj_index st ! v)) ((!) (tj_low st))
     (tj_stack st) (map fst (tj_work st)) (explored adj st) (tj_out st) (tj_next st)"
  by (simp add: cinv_def)

lemma cinv_work:
  assumes "cinv adj st" and "(v, e) \<in> set (tj_work st)"
  shows "v \<in> visited st" and "v < length adj"
proof -
  have "v \<in> set (map fst (tj_work st))" using assms(2) by force
  then show "v \<in> visited st" using tinvD(5,8) [OF cinv_tinv [OF assms(1)]] by blast
  with assms(1) show "v < length adj" by (simp add: visited_def cinv_def)
qed

lemma cinv_top:
  assumes "cinv adj st" and "tj_work st = (node, edge) # rest"
  shows "node \<notin> fst ` set rest"
  using sorted_wrt_distinct [OF tinvD(7) [OF cinv_tinv [OF assms(1)]]] assms(2)
  by simp

lemma explored_iff:
  "(v, x) \<in> explored adj st \<longleftrightarrow> v \<in> visited st \<and>
     (\<exists>k<length (adj ! v). x = adj ! v ! k \<and> (\<forall>e. (v, e) \<in> set (tj_work st) \<longrightarrow> k < e))"
  by (auto simp: explored_def)

lemma explored_step:
  assumes "cinv adj st" and "tj_work st = (node, edge) # rest" and "edge < length (adj ! node)"
  shows "explored adj (st\<lparr>tj_work := (node, edge + 1) # rest, tj_low := l\<rparr>) =
    insert (node, adj ! node ! edge) (explored adj st)" (is "?L = ?R")
proof -
  have v: "node \<in> visited st" using cinv_work(1) [OF assms(1), of node edge] assms(2) by simp
  have n: "(node, e) \<notin> set rest" for e using cinv_top [OF assms(1,2)] by force
  have "(u, x) \<in> ?L \<longleftrightarrow> (u, x) \<in> ?R" for u x
  proof (cases "u = node")
    case True
    have "(\<exists>k<length (adj ! node). x = adj ! node ! k \<and> k < Suc edge) \<longleftrightarrow>
        x = adj ! node ! edge \<or> (\<exists>k<length (adj ! node). x = adj ! node ! k \<and> k < edge)"
      using assms(3) by (auto simp: less_Suc_eq)
    with True v n assms(2) show ?thesis by (simp add: explored_iff visited_def)
  next
    case False
    with assms(2) show ?thesis by (simp add: explored_iff visited_def)
  qed
  then show ?thesis by auto
qed

lemma explored_done:
  assumes "cinv adj st" and "tj_work st = (node, edge) # rest" and "length (adj ! node) \<le> edge"
  shows "explored adj (st\<lparr>tj_work := rest\<rparr>) = explored adj st" (is "?L = ?R")
proof -
  have n: "(node, e) \<notin> set rest" for e using cinv_top [OF assms(1,2)] by force
  have "(u, x) \<in> ?L \<longleftrightarrow> (u, x) \<in> ?R" for u x
  proof (cases "u = node")
    case True
    with n assms(2,3) show ?thesis by (auto simp: explored_iff visited_def)
  next
    case False
    with assms(2) show ?thesis by (simp add: explored_iff visited_def)
  qed
  then show ?thesis by auto
qed

lemma explored_visit:
  assumes "x \<notin> visited st" and "x < length (tj_index st)" and "\<forall>e. (x, e) \<notin> set (tj_work st)"
  shows "explored adj (visit x st) = explored adj st"
proof -
  have "visited (visit x st) = insert x (visited st)"
    using assms(2) by (auto simp: visited_def visit_def nth_list_update)
  then have "(u, y) \<in> explored adj (visit x st) \<longleftrightarrow> (u, y) \<in> explored adj st" for u y
    using assms by (auto simp: explored_iff visit_def)
  then show ?thesis by auto
qed

lemma cinv_step:
  assumes inv: "cinv adj st" and work: "tj_work st = (node, edge) # rest"
    and edge: "edge < length (adj ! node)" and vis: "tj_index st ! (adj ! node ! edge) \<noteq> None"
    and x: "adj ! node ! edge < length adj"
  shows "cinv adj (st\<lparr>tj_work := (node, edge + 1) # rest, tj_low :=
    (if tj_on st ! (adj ! node ! edge)
     then (tj_low st)[node := min (tj_low st ! node) (the (tj_index st ! (adj ! node ! edge)))]
     else tj_low st)\<rparr>)"
proof -
  let ?x = "adj ! node ! edge"
  let ?l = "if tj_on st ! ?x then (tj_low st)[node := min (tj_low st ! node) (the (tj_index st ! ?x))]
     else tj_low st"
  have len: "length (tj_low st) = length adj" "length (tj_index st) = length adj"
    and on: "tj_on st ! ?x \<longleftrightarrow> ?x \<in> set (tj_stack st)"
    using inv x by (auto simp: cinv_def)
  have node: "node < length adj" using cinv_work(2) [OF inv, of node edge] work by simp
  have low: "(!) ?l = (if ?x \<in> set (tj_stack st)
      then ((!) (tj_low st))(node := min (tj_low st ! node) (the (tj_index st ! ?x)))
      else (!) (tj_low st))"
    using on node len by (auto simp: fun_eq_iff nth_list_update)
  have "(node, ?x) \<in> edges adj" using node edge by (simp add: edges_def)
  moreover have "?x \<in> visited st" using x vis len by (simp add: visited_def)
  ultimately have "tinv (edges adj) (visited st) (\<lambda>v. the (tj_index st ! v)) ((!) ?l) (tj_stack st)
      (node # map fst rest) (insert (node, ?x) (explored adj st)) (tj_out st) (tj_next st)"
    unfolding low using cinv_tinv [OF inv] work by (intro tinv_edge) simp_all
  with inv explored_step [OF inv work edge, of ?l] show ?thesis
    by (simp add: cinv_def visited_def)
qed

lemma cinv_push:
  assumes lens: "length (tj_index st) = length adj" "length (tj_low st) = length adj"
      "length (tj_on st) = length adj"
    and on: "\<forall>v<length adj. tj_on st ! v \<longleftrightarrow> v \<in> set (tj_stack st)"
    and inv: "tinv (edges adj) (visited st) (\<lambda>v. the (tj_index st ! v)) ((!) (tj_low st))
      (tj_stack st) (map fst (tj_work st)) X (tj_out st) (tj_next st)"
    and x: "x < length adj" "tj_index st ! x = None"
    and T: "T \<subseteq> edges adj" "T \<subseteq> {(hd (map fst (tj_work st)), x)}" "tj_work st = [] \<Longrightarrow> T = {}"
    and W: "tj_work st \<noteq> [] \<Longrightarrow> (hd (map fst (tj_work st)), x) \<in> edges adj"
    and X: "X \<subseteq> visited st \<times> UNIV" "X \<union> T = explored adj st"
  shows "cinv adj (visit x st)"
proof -
  let ?idx = "\<lambda>v. the (tj_index st ! v)"
  have xV: "x \<notin> visited st" using x by (simp add: visited_def)
  have "tinv (edges adj) (insert x (visited st)) (?idx(x := tj_next st))
      (((!) (tj_low st))(x := tj_next st)) (x # tj_stack st) (x # map fst (tj_work st)) (X \<union> T)
      (tj_out st) (Suc (tj_next st))"
    using inv xV X(1) T W by (intro tinv_push) auto
  moreover have "(\<lambda>v. the (tj_index (visit x st) ! v)) = ?idx(x := tj_next st)"
    using lens x by (auto simp: fun_eq_iff visit_def nth_list_update)
  moreover have "(!) (tj_low (visit x st)) = ((!) (tj_low st))(x := tj_next st)"
    using lens x by (auto simp: fun_eq_iff visit_def nth_list_update)
  moreover have "visited (visit x st) = insert x (visited st)"
    using lens x by (auto simp: visited_def visit_def nth_list_update)
  moreover have "explored adj (visit x st) = X \<union> T"
  proof -
    have "(x, e) \<notin> set (tj_work st)" for e
      using tinvD(5,8) [OF inv] xV by force
    then show ?thesis using explored_visit [OF xV] lens x X(2) by simp
  qed
  ultimately show ?thesis
    unfolding cinv_def using lens on x
    by (simp add: nth_list_update) (simp add: visit_def nth_list_update)
qed

lemma cinv_tree:
  assumes inv: "cinv adj st" and work: "tj_work st = (node, edge) # rest"
    and edge: "edge < length (adj ! node)" and vis: "tj_index st ! (adj ! node ! edge) = None"
    and x: "adj ! node ! edge < length adj"
  shows "cinv adj (visit (adj ! node ! edge) (st\<lparr>tj_work := (node, edge + 1) # rest\<rparr>))"
proof -
  let ?x = "adj ! node ! edge" and ?st = "st\<lparr>tj_work := (node, edge + 1) # rest\<rparr>"
  have node: "node < length adj" using cinv_work(2) [OF inv, of node edge] work by simp
  have ex: "explored adj ?st = insert (node, ?x) (explored adj st)"
    using explored_step [OF inv work edge, of "tj_low st"] by simp
  have "X \<subseteq> visited st \<times> UNIV" if "X = explored adj st" for X
    using that by (auto simp: explored_def)
  moreover have "(node, ?x) \<in> edges adj" using node edge by (simp add: edges_def)
  ultimately show ?thesis
    using inv [unfolded cinv_def] x vis work ex
    by (intro cinv_push [where X = "explored adj st" and T = "{(node, ?x)}"])
      simp_all
qed

lemma pop_component_append:
  assumes "node \<notin> set S1"
  shows "pop_component node on (S1 @ node # S2) =
    (fold (\<lambda>m on. on[m := False]) (S1 @ [node]) on, S2, S1 @ [node])"
  using assms by (induction S1 arbitrary: on) auto

lemma fold_unmark:
  "length (fold (\<lambda>m on. on[m := False]) ms on) = length on \<and>
   (v < length on \<longrightarrow> fold (\<lambda>m on. on[m := False]) ms on ! v = (on ! v \<and> v \<notin> set ms))"
proof (induction ms arbitrary: on)
  case (Cons m ms)
  show ?case using Cons [of "on[m := False]"] by (cases "m = v") auto
qed simp

lemma cinv_finish:
  assumes inv: "cinv adj st" and work: "tj_work st = (node, edge) # rest"
    and last: "length (adj ! node) \<le> edge"
  shows "cinv adj (finish node rest st)"
proof -
  let ?idx = "\<lambda>v. the (tj_index st ! v)"
  note C = inv [unfolded cinv_def] and I = tinvD [OF cinv_tinv [OF inv]]
  have node: "node \<in> visited st" "node < length adj"
    using cinv_work [OF inv, of node edge] work by auto
  then have ix: "tj_index st ! node = Some (?idx node)" by (auto simp: visited_def)
  have nS: "node \<in> set (tj_stack st)" using I(8) work by auto
  have T: "tinv (edges adj) (visited st) ?idx ((!) (tj_low st)) (tj_stack st)
      (node # map fst rest) (explored adj st) (tj_out st) (tj_next st)"
    using C work by simp
  have ex: "explored adj (st\<lparr>tj_work := rest\<rparr>) = explored adj st"
    by (rule explored_done [OF inv work last])
  have all: "(node, x) \<in> explored adj st" if "(node, x) \<in> edges adj" for x
    using that node work last cinv_top [OF inv work]
    by (force simp: edges_def explored_iff in_set_conv_nth)
  show ?thesis
  proof (cases "tj_low st ! node = ?idx node")
    case False
    then have nlow: "Some (tj_low st ! node) \<noteq> tj_index st ! node" by (metis option.sel)
    from False obtain p e rest' where rest: "rest = (p, e) # rest'"
      using tinv_keep_parent [of "edges adj" "visited st" ?idx] T by (cases rest) auto
    then have p: "p < length adj" "p \<noteq> node"
      using cinv_work(2) [OF inv, of p e] cinv_top [OF inv work] work by auto
    let ?low = "(tj_low st)[p := min (tj_low st ! p) (tj_low st ! node)]"
    have low: "(!) ?low = ((!) (tj_low st))(p := min (tj_low st ! p) (tj_low st ! node))"
      using C p by (auto simp: fun_eq_iff nth_list_update)
    have "finish node rest st = st\<lparr>tj_work := rest, tj_low := ?low\<rparr>"
      using nlow p by (simp add: finish_def rest Let_def)
    moreover have "tinv (edges adj) (visited st) ?idx ((!) ?low) (tj_stack st)
        (p # map fst rest') (explored adj st) (tj_out st) (tj_next st)"
      unfolding low using T rest all False by (intro tinv_keep) auto
    ultimately show ?thesis
      using C ex unfolding cinv_def by (simp add: rest)
  next
    case True
    then have ylow: "Some (tj_low st ! node) = tj_index st ! node" using ix by simp
    obtain S1 S2 where S: "tj_stack st = S1 @ node # S2" "node \<notin> set S1"
      using split_list_first [OF nS] by blast
    have low: "(case rest of [] \<Rightarrow> tj_low st
        | (parent, _) # _ \<Rightarrow> (tj_low st)[parent := min (tj_low st ! parent) (tj_low st ! node)]) = tj_low st"
    proof (cases rest)
      case (Cons pe rest')
      obtain p e where pe: "pe = (p, e)" by (cases pe)
      have "p \<in> set (tj_stack st)" "?idx p < ?idx node" using I(7,8) work Cons pe by auto
      then have "tj_low st ! p \<le> tj_low st ! node" using I(14) [of p] True by auto
      then show ?thesis by (simp add: Cons pe min_absorb1)
    qed simp
    define on' where "on' = fold (\<lambda>m on. on[m := False]) (S1 @ [node]) (tj_on st)"
    have fin: "finish node rest st = st\<lparr>tj_work := rest, tj_stack := S2, tj_on := on',
        tj_out := tj_out st @ [S1 @ [node]]\<rparr>"
      using ylow low by (cases rest) (auto simp: finish_def S pop_component_append on'_def)
    have "tinv (edges adj) (visited st) ?idx ((!) (tj_low st)) S2 (map fst rest) (explored adj st)
        (tj_out st @ [S1 @ [node]]) (tj_next st)"
      by (rule tinv_pop [OF T all True S(1)])
    moreover have "length on' = length adj" "\<forall>v<length adj. on' ! v \<longleftrightarrow> v \<in> set S2"
      using fold_unmark [of "S1 @ [node]" "tj_on st", folded on'_def] sorted_wrt_distinct [OF I(3)] C
      by (auto simp: S)
    ultimately show ?thesis
      using C ex unfolding cinv_def fin by simp
  qed
qed

lemma wf_adj_nth: "wf_adj adj \<Longrightarrow> node < length adj \<Longrightarrow> edge < length (adj ! node) \<Longrightarrow>
    adj ! node ! edge < length adj"
  unfolding wf_adj_def by (meson nth_mem)

lemma visited_visit:
  "x < length (tj_index st) \<Longrightarrow> visited (visit x st) = insert x (visited st)"
  by (auto simp: visited_def visit_def nth_list_update)

lemma dfs_loop_cinv:
  "cinv adj st \<Longrightarrow> wf_adj adj \<Longrightarrow> \<exists>st'. dfs_loop adj st = Some st' \<and> cinv adj st' \<and>
     tj_work st' = [] \<and> visited st \<subseteq> visited st'"
proof (induction adj st rule: dfs_loop.induct)
  case (1 adj st)
  note inv = 1(5) and wf = 1(6)
  show ?case
  proof (cases "tj_work st")
    case Nil
    with inv show ?thesis by (subst dfs_loop.simps) simp
  next
    case (Cons ne rest)
    obtain node edge where work: "tj_work st = (node, edge) # rest" using Cons by (cases ne) simp
    have node: "\<not> length adj \<le> node" using cinv_work(2) [OF inv, of node edge] work by simp
    have len: "length (tj_index st) = length adj" using inv by (simp add: cinv_def)
    show ?thesis
    proof (cases "edge < length (adj ! node)")
      case False
      have "visited (finish node rest st) = visited st" by (simp add: visited_def)
      with False work node 1(4) [OF work refl node False cinv_finish [OF inv work] wf]
      show ?thesis by (subst dfs_loop.simps) simp
    next
      case edge: True
      let ?x = "adj ! node ! edge" and ?st = "st\<lparr>tj_work := (node, edge + 1) # rest\<rparr>"
      have x: "?x < length adj" using wf_adj_nth [OF wf _ edge] node by simp
      then have x': "\<not> length (tj_index st) \<le> ?x" by (simp add: len)
      note IH = 1(1-3) [OF work refl node edge refl refl x'] and step = cinv_step [OF inv work edge _ x]
      consider "tj_index st ! ?x = None" | "tj_index st ! ?x \<noteq> None" "tj_on st ! ?x"
        | "tj_index st ! ?x \<noteq> None" "\<not> tj_on st ! ?x" by blast
      then show ?thesis
      proof cases
        case 1
        have "visited (visit ?x ?st) = insert ?x (visited st)"
          using visited_visit [of ?x ?st] x len by simp
        with 1 IH(1) [OF 1 cinv_tree [OF inv work edge 1 x] wf] work node edge x len show ?thesis
          by (subst dfs_loop.simps) auto
      next
        case 2
        with IH(2) [OF 2] step wf work node edge x len show ?thesis
          by (subst dfs_loop.simps) (auto simp: Let_def)
      next
        case 3
        with IH(3) [OF 3] step wf work node edge x len show ?thesis
          by (subst dfs_loop.simps) (auto simp: Let_def)
      qed
    qed
  qed
qed

lemma cinv_root:
  assumes inv: "cinv adj st" and "tj_work st = []" and "root < length adj"
    and "tj_index st ! root = None"
  shows "cinv adj (visit root st)"
  using assms inv [unfolded cinv_def]
  by (intro cinv_push [where X = "explored adj st" and T = "{}"]) (auto simp: explored_def)

lemma visit_roots_cinv:
  assumes "cinv adj st" and "wf_adj adj" and "tj_work st = []" and "set roots \<subseteq> {..<length adj}"
  shows "\<exists>st'. visit_roots adj roots st = Some st' \<and> cinv adj st' \<and> tj_work st' = [] \<and>
    visited st \<union> set roots \<subseteq> visited st'"
  using assms
proof (induction roots arbitrary: st)
  case (Cons root roots)
  have len: "length (tj_index st) = length adj" using Cons.prems by (simp add: cinv_def)
  show ?case
  proof (cases "tj_index st ! root = None")
    case True
    have "cinv adj (visit root st)" using cinv_root Cons.prems True by simp
    then obtain st1 where st1: "dfs_loop adj (visit root st) = Some st1" "cinv adj st1"
      "tj_work st1 = []" "visited (visit root st) \<subseteq> visited st1"
      using dfs_loop_cinv Cons.prems(2) by blast
    then obtain st2 where "visit_roots adj roots st1 = Some st2" "cinv adj st2" "tj_work st2 = []"
      "visited st1 \<union> set roots \<subseteq> visited st2"
      using Cons.IH [of st1] Cons.prems by auto
    with True st1 visited_visit [of root st] len Cons.prems(4) show ?thesis by auto
  next
    case False
    then have "root \<in> visited st" using len Cons.prems(4) by (simp add: visited_def)
    moreover have "\<exists>st'. visit_roots adj roots st = Some st' \<and> cinv adj st' \<and> tj_work st' = [] \<and>
        visited st \<union> set roots \<subseteq> visited st'"
      using Cons.IH [of st] Cons.prems by simp
    ultimately show ?thesis using False by auto
  qed
qed auto

lemma cinv_init:
  "cinv adj \<lparr>tj_index = replicate (length adj) None, tj_low = replicate (length adj) 0,
     tj_on = replicate (length adj) False, tj_stack = [], tj_next = 0, tj_out = [], tj_work = []\<rparr>"
proof -
  let ?st = "\<lparr>tj_index = replicate (length adj) None, tj_low = replicate (length adj) 0,
     tj_on = replicate (length adj) False, tj_stack = [], tj_next = 0, tj_out = [], tj_work = []\<rparr>"
  have "visited ?st = {}" "explored adj ?st = {}" by (auto simp: visited_def explored_def)
  then show ?thesis by (auto simp: cinv_def scc_list_def intro!: tinvI)
qed

lemma components_Some:
  assumes "wf_adj adj"
  obtains out where "components adj = Some out" "scc_list (edges adj) out"
    "set (concat out) = {..<length adj}"
proof -
  obtain st where st: "visit_roots adj [0..<length adj]
      \<lparr>tj_index = replicate (length adj) None, tj_low = replicate (length adj) 0,
       tj_on = replicate (length adj) False, tj_stack = [], tj_next = 0, tj_out = [], tj_work = []\<rparr>
      = Some st" "cinv adj st" "tj_work st = []" "{..<length adj} \<subseteq> visited st"
    using visit_roots_cinv [OF cinv_init assms, of "[0..<length adj]"] by (auto simp: atLeast0LessThan)
  note I = tinvD [OF cinv_tinv [OF st(2)]]
  have "tj_stack st = []" using I(10) st(3) by (cases "tj_stack st") auto
  moreover have "visited st \<subseteq> {..<length adj}" using st(2) by (auto simp: visited_def cinv_def)
  ultimately have "set (concat (tj_out st)) = {..<length adj}" using I(5) st(4) by auto
  with that [of "tj_out st"] I(6) st(1) show thesis by (simp add: components_def)
qed

subsection \<open>The contract of a component finder\<close>

lemma closed_reach: "E `` A \<subseteq> A \<Longrightarrow> (a, b) \<in> E\<^sup>* \<Longrightarrow> a \<in> A \<Longrightarrow> b \<in> A"
  by (rule Image_closed_trancl [THEN equalityD1, THEN subsetD]) auto

lemma scc_list_order:
  assumes "scc_list E out" and "i < length out" and "a \<in> set (out ! i)" and "(a, b) \<in> E\<^sup>*"
  shows "b \<in> set (concat (take (Suc i) out))"
proof (rule closed_reach [OF _ assms(4)])
  show "E `` set (concat (take (Suc i) out)) \<subseteq> set (concat (take (Suc i) out))"
    using assms(1,2) unfolding scc_list_def by (meson Suc_leI)
  show "a \<in> set (concat (take (Suc i) out))"
    using assms(2,3) by (auto simp: take_Suc_conv_app_nth)
qed

lemma set_take_nth: "set (take n xs) = {xs ! j |j. j < n \<and> j < length xs}"
  by (auto simp: in_set_conv_nth) (blast, metis nth_take)

lemma in_concat_take:
  "x \<in> set (concat (take n xss)) \<longleftrightarrow> (\<exists>j<n. j < length xss \<and> x \<in> set (xss ! j))"
  by (auto simp: set_take_nth)

lemma distinct_concat_nth:
  assumes "distinct (concat xss)" "i < length xss" "j < length xss" "x \<in> set (xss ! i)" "x \<in> set (xss ! j)"
  shows "i = j"
proof (rule ccontr)
  have *: False if "i < j" "distinct (concat xss)" "j < length xss" "x \<in> set (xss ! i)" "x \<in> set (xss ! j)"
    for i j
  proof -
    have "xss = take j xss @ xss ! j # drop (Suc j) xss" using that by (simp add: id_take_nth_drop)
    then have "set (concat (take j xss)) \<inter> set (xss ! j) = {}"
      using that(2) by (metis concat.simps(2) concat_append distinct_append inf_sup_aci(1)
          inf_sup_distrib1 set_append sup_bot.neutr_eq_iff)
    moreover have "x \<in> set (concat (take j xss))"
      unfolding in_concat_take using that by (intro exI [of _ i]) simp
    ultimately show False using that by blast
  qed
  assume "i \<noteq> j"
  then show False using *[of i j] *[of j i] assms by (cases "i < j") auto
qed

lemma scc_list_class:
  assumes scc: "scc_list E out" and C: "C \<in> set out" "a \<in> set C"
  shows "b \<in> set C \<longleftrightarrow> (a, b) \<in> E\<^sup>* \<and> (b, a) \<in> E\<^sup>*"
proof
  assume "b \<in> set C"
  with assms show "(a, b) \<in> E\<^sup>* \<and> (b, a) \<in> E\<^sup>*" unfolding scc_list_def by blast
next
  assume ab: "(a, b) \<in> E\<^sup>* \<and> (b, a) \<in> E\<^sup>*"
  obtain i where i: "i < length out" "out ! i = C" using C by (auto simp: in_set_conv_nth)
  then have "b \<in> set (concat (take (Suc i) out))" using scc_list_order [OF scc, of i a b] C ab by simp
  then obtain j where j: "j \<le> i" "b \<in> set (out ! j)"
    unfolding in_concat_take less_Suc_eq_le by blast
  then have "a \<in> set (concat (take (Suc j) out))" using scc_list_order [OF scc, of j b a] i ab by simp
  then obtain k where k: "k \<le> j" "a \<in> set (out ! k)"
    unfolding in_concat_take less_Suc_eq_le by blast
  have "k = i" using distinct_concat_nth [of out k i a] scc i j k C by (auto simp: scc_list_def)
  with i j k show "b \<in> set C" by simp
qed

locale scc_finder =
  fixes find_sccs :: "nat list list \<Rightarrow> nat list list option"
  assumes finds: "wf_adj adj \<Longrightarrow> \<exists>cs. find_sccs adj = Some cs"
    and covers: "wf_adj adj \<Longrightarrow> find_sccs adj = Some cs \<Longrightarrow> set (concat cs) = {..<length adj}"
    and disjoint: "wf_adj adj \<Longrightarrow> find_sccs adj = Some cs \<Longrightarrow> distinct (concat cs)"
    and nonempty: "wf_adj adj \<Longrightarrow> find_sccs adj = Some cs \<Longrightarrow> C \<in> set cs \<Longrightarrow> C \<noteq> []"
    and scc: "wf_adj adj \<Longrightarrow> find_sccs adj = Some cs \<Longrightarrow> C \<in> set cs \<Longrightarrow> a \<in> set C \<Longrightarrow>
      b \<in> set C \<longleftrightarrow> (a, b) \<in> (edges adj)\<^sup>* \<and> (b, a) \<in> (edges adj)\<^sup>*"
begin

lemma looped_on_cycle:
  assumes "wf_adj adj" and "find_sccs adj = Some cs" and "C \<in> set cs" and "is_looped adj C"
    and v: "v \<in> set C"
  shows "(v, v) \<in> (edges adj)\<^sup>+"
proof (cases "\<exists>u. u \<in> set C \<and> u \<noteq> v")
  case True
  then obtain u where "u \<in> set C" "u \<noteq> v" by blast
  then have "(v, u) \<in> (edges adj)\<^sup>+" "(u, v) \<in> (edges adj)\<^sup>+"
    using scc [OF assms(1-3) v, of u] by (auto simp: rtrancl_eq_or_trancl)
  then show ?thesis by (rule trancl_trans)
next
  case False
  have "distinct C" using disjoint [OF assms(1,2)] assms(3) by (metis distinct_concat_iff)
  with False v have "C = [v]" by (cases C; cases "tl C") auto
  with assms(4) show ?thesis by (auto simp: is_looped_def edges_def)
qed

lemma cycle_looped:
  assumes "wf_adj adj" and "find_sccs adj = Some cs" and v: "(v, v) \<in> (edges adj)\<^sup>+"
  shows "\<exists>C\<in>set cs. v \<in> set C \<and> is_looped adj C"
proof -
  obtain u where u: "(v, u) \<in> edges adj" "(u, v) \<in> (edges adj)\<^sup>*" using v by (meson tranclD)
  then have "v < length adj" by (simp add: edges_def)
  then obtain C where C: "C \<in> set cs" "v \<in> set C" using covers [OF assms(1,2)] by auto
  have "u \<in> set C" using scc [OF assms(1,2) C] u by blast
  then have "is_looped adj C"
    using C(2) u by (cases C; cases "tl C") (auto simp: is_looped_def edges_def)
  with C show ?thesis by blast
qed

end

interpretation tarjan_finder: scc_finder components
proof
  fix adj cs C a b
  assume wf: "wf_adj adj"
  obtain out where out: "components adj = Some out" "scc_list (edges adj) out"
    "set (concat out) = {..<length adj}" using components_Some [OF wf] by blast
  show "\<exists>cs. components adj = Some cs" using out by blast
  assume "components adj = Some cs"
  with out have cs: "scc_list (edges adj) cs" "set (concat cs) = {..<length adj}" by auto
  show "set (concat cs) = {..<length adj}" by (rule cs(2))
  show "distinct (concat cs)" using cs(1) by (simp add: scc_list_def)
  assume C: "C \<in> set cs"
  show "C \<noteq> []" using C cs(1) by (auto simp: scc_list_def)
  assume "a \<in> set C"
  then show "b \<in> set C \<longleftrightarrow> (a, b) \<in> (edges adj)\<^sup>* \<and> (b, a) \<in> (edges adj)\<^sup>*"
    by (rule scc_list_class [OF cs(1) C])
qed

subsection \<open>Properties\<close>

text \<open>
  C6: On every graph whose edges stay in range the iterative search ends without an index out of
  range and returns the strongly connected components: every node once, two nodes together exactly
  when each reaches the other, and each component after every component it reaches.
\<close>

theorem components_correct:
  assumes "wf_adj adj"
  shows "\<exists>cs. components adj = Some cs \<and> set (concat cs) = {..<length adj} \<and> distinct (concat cs) \<and>
    (\<forall>C\<in>set cs. C \<noteq> [] \<and> (\<forall>a\<in>set C. \<forall>b. b \<in> set C \<longleftrightarrow>
       (a, b) \<in> (edges adj)\<^sup>* \<and> (b, a) \<in> (edges adj)\<^sup>*)) \<and>
    (\<forall>i<length cs. \<forall>a\<in>set (cs ! i). \<forall>b. (a, b) \<in> (edges adj)\<^sup>* \<longrightarrow>
       b \<in> set (concat (take (Suc i) cs)))"
proof -
  obtain out where out: "components adj = Some out" "scc_list (edges adj) out"
    "set (concat out) = {..<length adj}" using components_Some [OF assms] by blast
  moreover have "distinct (concat out)" using out(2) by (simp add: scc_list_def)
  moreover have "C \<noteq> []" if "C \<in> set out" for C using out(2) that by (auto simp: scc_list_def)
  ultimately show ?thesis
    using scc_list_order [OF out(2)] scc_list_class [OF out(2)] by (intro exI [of _ out]) blast
qed

theorem components_correct_witness:
  "wf_adj [[1], [2], [0, 3], []] \<and>
   (\<exists>cs. components [[1], [2], [0, 3], []] = Some cs \<and> cs = [[3], [2, 1, 0]] \<and>
     distinct (concat cs))"
proof -
  have "wf_adj [[1], [2], [0, 3], []]" by (simp add: wf_adj_def)
  moreover have "components [[1], [2], [0, 3], []] = Some [[3], [2, 1, 0]]"
    by code_simp
  ultimately show ?thesis using components_correct [of "[[1], [2], [0, 3], []]"] by simp
qed

end
