(* ===== verification/Membership_Pass.thy ===== *)
theory Membership_Pass
  imports Membership_Alone Components
begin

text \<open>
  The second half of the membership view, \<^verbatim>\<open>crates/data-layer/src/pod/membership_view.rs\<close>: one
  evaluation of every candidate event (\<open>Pass\<close>, with its worklist \<open>Settling\<close>).

  A map is a function or an association list, a \<open>Vec\<close> used as a stack has its last element first. The
  source iterates over two hash maps, whose order the standard library leaves open: the record
  \<open>orders\<close> gives the order of each iteration and is a parameter of the evaluation; \<open>valid_orders\<close> says
  it is an order of the map's bindings. A panic of \<open>components\<close> is the result \<open>None\<close>.
\<close>

type_synonym point = "PdnId \<times> nat"

datatype MemberState = MemberState (ms_member: bool) (ms_owner: bool)

definition no_state :: MemberState where "no_state = MemberState False False"

record Winner =
  win_kind :: EventKind
  win_events :: "(nat \<times> PdnId) list"

record Pass =
  ps_verdicts :: "Verdict list"
  ps_winners :: "point \<Rightarrow> Winner option"
  ps_states :: "point \<Rightarrow> MemberState option"

record Settling =
  se_pending :: "(point, nat) hmap"
  se_waiting :: "point \<Rightarrow> nat list"
  se_awaited :: "(nat, point) hmap"
  se_settled :: "PdnId \<Rightarrow> nat option"
  se_open :: "point list"
  se_close :: "point list"

record orders =
  or_runs :: "(PdnId, nat) hmap \<Rightarrow> (PdnId \<times> nat) list"
  or_awaited :: "(nat, point) hmap \<Rightarrow> (nat \<times> point) list"

definition valid_orders :: "orders \<Rightarrow> bool" where
  "valid_orders ord \<longleftrightarrow>
     (\<forall>m. distinct (map fst m) \<longrightarrow>
        distinct (or_runs ord m) \<and> set (or_runs ord m) = set m) \<and>
     (\<forall>m. distinct (map fst m) \<longrightarrow>
        distinct (or_awaited ord m) \<and> set (or_awaited ord m) = set m)"

definition GUARD_PASSES :: nat where "GUARD_PASSES = 4"
definition LOOP_ROUNDS :: nat where "LOOP_ROUNDS = 4"

definition allows :: "MemberState \<Rightarrow> EventKind \<Rightarrow> bool" where
  "allows before kind =
     (case kind of
        Created \<Rightarrow> \<not> ms_member before
      | Joined \<Rightarrow> \<not> ms_member before
      | Left \<Rightarrow> ms_member before
      | Removed \<Rightarrow> ms_member before
      | Promoted \<Rightarrow> ms_member before
      | Demoted \<Rightarrow> ms_owner before)"

primrec rank :: "EventKind \<Rightarrow> nat" where
  "rank Removed = 6"
| "rank Left = 5"
| "rank Demoted = 4"
| "rank Promoted = 3"
| "rank Created = 2"
| "rank Joined = 1"

primrec apply_kind :: "EventKind \<Rightarrow> MemberState" where
  "apply_kind Created = MemberState True True"
| "apply_kind Promoted = MemberState True True"
| "apply_kind Joined = MemberState True False"
| "apply_kind Demoted = MemberState True False"
| "apply_kind Left = no_state"
| "apply_kind Removed = no_state"

subsection \<open>Deciding an event\<close>

definition record_winner :: "Event \<Rightarrow> Pass \<Rightarrow> Pass" where
  "record_winner event pass =
     (let at_seq = (ev_subject event, ev_seq event);
          fresh = \<lparr>win_kind = ev_kind event, win_events = [(ev_entry event, ev_actor event)]\<rparr>
      in case ps_winners pass at_seq of
           Some winner \<Rightarrow>
             if rank (win_kind winner) > rank (ev_kind event) then pass
             else if win_kind winner = ev_kind event
             then pass\<lparr>ps_winners := (ps_winners pass)(at_seq \<mapsto>
                 winner\<lparr>win_events := win_events winner @ [(ev_entry event, ev_actor event)]\<rparr>)\<rparr>
             else pass\<lparr>ps_winners := (ps_winners pass)(at_seq \<mapsto> fresh)\<rparr>
         | None \<Rightarrow> pass\<lparr>ps_winners := (ps_winners pass)(at_seq \<mapsto> fresh)\<rparr>)"

definition decide :: "Event \<Rightarrow> Verdict \<Rightarrow> Pass \<Rightarrow> Pass" where
  "decide event verdict pass =
     (let pass = (if verdict = Counted then record_winner event pass else pass)
      in pass\<lparr>ps_verdicts := set_verdict (ev_entry event) verdict (ps_verdicts pass)\<rparr>)"

definition state_of :: "Pass \<Rightarrow> PdnId \<Rightarrow> nat \<Rightarrow> MemberState" where
  "state_of pass member seq =
     (if seq = 0 then no_state
      else (case ps_states pass (member, seq) of None \<Rightarrow> no_state | Some st \<Rightarrow> st))"

definition actor_state :: "Pass \<Rightarrow> Event \<Rightarrow> MemberState option" where
  "actor_state pass event =
     (if ev_kind event = Created \<or> ev_kind event = Left \<or> ev_actor_seq event = 0 then Some no_state
      else ps_states pass (ev_actor event, ev_actor_seq event))"

definition needed :: "EventKind \<Rightarrow> MemberState \<Rightarrow> bool" where
  "needed kind actor =
     (case kind of
        Joined \<Rightarrow> ms_member actor
      | Promoted \<Rightarrow> ms_owner actor
      | Removed \<Rightarrow> ms_owner actor
      | Demoted \<Rightarrow> ms_owner actor
      | Created \<Rightarrow> True
      | Left \<Rightarrow> True)"

definition judge :: "nat set \<Rightarrow> Event \<Rightarrow> MemberState \<Rightarrow> Verdict" where
  "judge set_aside event actor =
     (if \<not> needed (ev_kind event) actor then CountedForNothing ActorLacksState
      else if ev_entry event \<in> set_aside then CountedForNothing LastOwnerKept
      else Counted)"

subsection \<open>The worklist\<close>

definition one_less_pending :: "point \<Rightarrow> Settling \<Rightarrow> Settling" where
  "one_less_pending q se =
     (case map_of (se_pending se) q of
        None \<Rightarrow> se
      | Some pending \<Rightarrow>
          if pending - 1 = 0
          then se\<lparr>se_pending := AList.delete q (se_pending se), se_close := q # se_close se\<rparr>
          else se\<lparr>se_pending := AList.update q (pending - 1) (se_pending se)\<rparr>)"

text \<open>The candidates at each sequence of each chain, \<open>Settling::at\<close>: filled once, before the loop.\<close>

definition at_map :: "Event list \<Rightarrow> (point, nat list) hmap" where
  "at_map candidates =
     fold (\<lambda>(index, event). hmodify (ev_subject event, ev_seq event) [] (\<lambda>l. l @ [index]))
       (enumerate 0 candidates) []"

definition open_event ::
    "Event list \<Rightarrow> nat set \<Rightarrow> MemberState \<Rightarrow> nat \<Rightarrow> Pass \<times> Settling \<times> nat \<Rightarrow> Pass \<times> Settling \<times> nat" where
  "open_event candidates set_aside before index = (\<lambda>(pass, se, pending).
     if length candidates \<le> index then (pass, se, pending)
     else (let event = candidates ! index in
       if \<not> allows before (ev_kind event)
       then (decide event (CountedForNothing TransitionNotAllowed) pass, se, pending)
       else (case actor_state pass event of
         Some actor \<Rightarrow> (decide event (judge set_aside event actor) pass, se, pending)
       | None \<Rightarrow>
           (let point = (ev_actor event, ev_actor_seq event)
            in (pass, se\<lparr>se_waiting := (se_waiting se)(point := se_waiting se point @ [index]),
                  se_awaited := AList.update index point (se_awaited se)\<rparr>, pending + 1)))))"

definition open_sequence ::
    "Event list \<Rightarrow> nat set \<Rightarrow> point \<Rightarrow> Pass \<times> Settling \<Rightarrow> Pass \<times> Settling" where
  "open_sequence candidates set_aside q = (\<lambda>(pass, se).
     let before = state_of pass (fst q) (snd q - 1);
         here = hget_or [] (at_map candidates) q;
         (pass, se, pending) = fold (open_event candidates set_aside before) here (pass, se, 0)
     in if pending = 0 then (pass, se\<lparr>se_close := q # se_close se\<rparr>)
        else (pass, se\<lparr>se_pending := AList.update q pending (se_pending se)\<rparr>))"

text \<open>A waiting candidate decided: off the pending count of its sequence.\<close>

definition settle_event :: "Event list \<Rightarrow> (Event \<Rightarrow> Verdict) \<Rightarrow> nat \<Rightarrow> Pass \<times> Settling \<Rightarrow> Pass \<times> Settling" where
  "settle_event candidates verdict index = (\<lambda>(pass, se).
     if length candidates \<le> index then (pass, se)
     else (let event = candidates ! index
           in (decide event (verdict event) pass,
               one_less_pending (ev_subject event, ev_seq event) se)))"

definition unawait :: "nat \<Rightarrow> Settling \<Rightarrow> Settling" where
  "unawait index se = se\<lparr>se_awaited := AList.delete index (se_awaited se)\<rparr>"

text \<open>The state a sequence leaves: of its winner, or the state before.\<close>

definition after_state :: "Pass \<Rightarrow> point \<Rightarrow> MemberState" where
  "after_state pass q =
     (case ps_winners pass q of
        None \<Rightarrow> state_of pass (fst q) (snd q - 1)
      | Some winner \<Rightarrow> apply_kind (win_kind winner))"

definition wake ::
    "Event list \<Rightarrow> nat set \<Rightarrow> MemberState \<Rightarrow> nat \<Rightarrow> Pass \<times> Settling \<Rightarrow> Pass \<times> Settling" where
  "wake candidates set_aside after index = (\<lambda>(pass, se).
     settle_event candidates (\<lambda>event. judge set_aside event after) index (pass, unawait index se))"

definition close_sequence ::
    "Event list \<Rightarrow> nat set \<Rightarrow> (PdnId \<Rightarrow> nat) \<Rightarrow> point \<Rightarrow> Pass \<times> Settling \<Rightarrow> Pass \<times> Settling" where
  "close_sequence candidates set_aside run q = (\<lambda>(pass, se).
     let after = after_state pass q;
         (pass', se') = fold (wake candidates set_aside after) (se_waiting se q)
           (pass\<lparr>ps_states := (ps_states pass)(q \<mapsto> after)\<rparr>,
            se\<lparr>se_settled := (se_settled se)(fst q \<mapsto> snd q),
              se_waiting := (se_waiting se)(q := [])\<rparr>)
     in (pass', if snd q < run (fst q) then se'\<lparr>se_open := (fst q, snd q + 1) # se_open se'\<rparr>
                else se'))"

subsection \<open>Loops\<close>

text \<open>The graph of the waits: a node per waiting event, in the order they are listed.\<close>

definition waits_on :: "Event list \<Rightarrow> nat list \<Rightarrow> (point, nat list) hmap" where
  "waits_on candidates waiting =
     fold (\<lambda>(node, index) m.
         if length candidates \<le> index then m
         else hmodify (ev_subject (candidates ! index), ev_seq (candidates ! index)) []
                (\<lambda>l. l @ [node]) m)
       (enumerate 0 waiting) []"

definition adjacency :: "Event list \<Rightarrow> Settling \<Rightarrow> nat list \<Rightarrow> nat list list" where
  "adjacency candidates se waiting =
     map (\<lambda>index.
         case map_of (se_awaited se) index of
           None \<Rightarrow> []
         | Some (actor, _) \<Rightarrow>
             (let unsettled = (case se_settled se actor of None \<Rightarrow> 0 | Some s \<Rightarrow> s) + 1
              in hget_or [] (waits_on candidates waiting) (actor, unsettled)))
       waiting"

definition break_event ::
    "Event list \<Rightarrow> nat list \<Rightarrow> nat \<Rightarrow> Pass \<times> Settling \<Rightarrow> Pass \<times> Settling" where
  "break_event candidates waiting node = (\<lambda>(pass, se).
     if length waiting \<le> node then (pass, se)
     else (let index = waiting ! node in
       if length candidates \<le> index then (pass, se)
       else (let se = (case map_of (se_awaited se) index of
                None \<Rightarrow> se
              | Some point \<Rightarrow> (unawait index se)\<lparr>se_waiting :=
                  (se_waiting se)(point := filter (\<lambda>other. other \<noteq> index) (se_waiting se point))\<rparr>)
             in settle_event candidates (\<lambda>_. CountedForNothing Cyclic) index (pass, se))))"

definition break_loops ::
    "orders \<Rightarrow> Event list \<Rightarrow> Pass \<times> Settling \<Rightarrow> (Pass \<times> Settling) option" where
  "break_loops ord candidates = (\<lambda>(pass, se).
     let waiting = map fst (or_awaited ord (se_awaited se));
         adj = adjacency candidates se waiting
     in case components adj of
          None \<Rightarrow> None
        | Some cs \<Rightarrow>
            Some (fold (break_event candidates waiting) (concat (filter (is_looped adj) cs)) (pass, se)))"

definition give_up :: "orders \<Rightarrow> Event list \<Rightarrow> Pass \<times> Settling \<Rightarrow> Pass \<times> Settling" where
  "give_up ord candidates = (\<lambda>(pass, se).
     let waiting = map fst (or_awaited ord (se_awaited se));
         se = se\<lparr>se_waiting := (\<lambda>_. []), se_awaited := []\<rparr>
     in fold (settle_event candidates (\<lambda>_. CountedForNothing Cyclic)) waiting (pass, se))"

subsection \<open>The evaluation\<close>

text \<open>What is left to do, for the end of the loop: a weight per open, pending and closing sequence.\<close>

definition close_weight :: "nat \<Rightarrow> (PdnId \<Rightarrow> nat) \<Rightarrow> point \<Rightarrow> nat" where
  "close_weight n run q = 1 + (run (fst q) - snd q) * (n + 2)"

definition settling_weight :: "nat \<Rightarrow> (PdnId \<Rightarrow> nat) \<Rightarrow> nat \<Rightarrow> Settling \<Rightarrow> nat" where
  "settling_weight n run rounds se =
     sum_list (map (\<lambda>q. close_weight n run q + n + 1) (se_open se)) +
     sum_list (map (close_weight n run) (se_close se)) +
     sum_list (map (\<lambda>p. close_weight n run (fst p)) (se_pending se)) +
     length (se_awaited se) + (LOOP_ROUNDS - rounds)"

function evaluate_loop ::
    "orders \<Rightarrow> Event list \<Rightarrow> nat set \<Rightarrow> (PdnId \<Rightarrow> nat) \<Rightarrow> nat \<Rightarrow> Pass \<Rightarrow> Settling \<Rightarrow> Pass option" where
  "evaluate_loop ord candidates set_aside run rounds pass se =
     (case se_close se of
        q # close \<Rightarrow>
          (let (pass, se) = close_sequence candidates set_aside run q (pass, se\<lparr>se_close := close\<rparr>)
           in evaluate_loop ord candidates set_aside run rounds pass se)
      | [] \<Rightarrow>
          (case se_open se of
             q # opened \<Rightarrow>
               (let (pass, se) = open_sequence candidates set_aside q (pass, se\<lparr>se_open := opened\<rparr>)
                in evaluate_loop ord candidates set_aside run rounds pass se)
           | [] \<Rightarrow>
               if se_awaited se = [] then Some pass
               else if rounds < LOOP_ROUNDS then
                 (case break_loops ord candidates (pass, se) of
                    None \<Rightarrow> None
                  | Some (pass, se) \<Rightarrow>
                      evaluate_loop ord candidates set_aside run (rounds + 1) pass se)
               else (let (pass, se) = give_up ord candidates (pass, se)
                     in evaluate_loop ord candidates set_aside run rounds pass se)))"
  by pat_completeness auto

lemma sum_keys_update:
  "sum_list (map (\<lambda>p. f (fst p)) (AList.update k v m)) =
     (if k \<in> fst ` set m then sum_list (map (\<lambda>p. f (fst p)) m)
      else sum_list (map (\<lambda>p. f (fst p)) m) + f k)"
  for f :: "'a \<Rightarrow> nat"
  by (induction m) auto

lemma sum_keys_delete_le:
  "sum_list (map (\<lambda>p. f (fst p)) (AList.delete k m)) \<le> sum_list (map (\<lambda>p. f (fst p)) m)"
  for f :: "'a \<Rightarrow> nat"
  by (induction m) auto

lemma sum_keys_delete:
  "k \<in> fst ` set m \<Longrightarrow>
     sum_list (map (\<lambda>p. f (fst p)) (AList.delete k m)) + f k \<le> sum_list (map (\<lambda>p. f (fst p)) m)"
  for f :: "'a \<Rightarrow> nat"
proof (induction m)
  case (Cons x m)
  then show ?case using sum_keys_delete_le [of f k m] by (cases "fst x = k") auto
qed simp

lemma length_update_le: "length (AList.update k v m) \<le> length m + 1"
  by (induction m) auto

lemma map_of_SomeD_fst: "map_of m k = Some v \<Longrightarrow> k \<in> fst ` set m"
  by (metis domI dom_map_of_conv_image_fst)

lemma weight_one_less: "settling_weight n run r (one_less_pending q se) \<le> settling_weight n run r se"
proof (cases "map_of (se_pending se) q")
  case (Some c)
  then have "q \<in> fst ` set (se_pending se)" by (rule map_of_SomeD_fst)
  with Some sum_keys_delete [OF this, of "close_weight n run"] show ?thesis
    by (auto simp: one_less_pending_def settling_weight_def sum_keys_update)
qed (simp add: one_less_pending_def)

lemma weight_settle_event:
  "settling_weight n run r (snd (settle_event cs v i (pass, se))) \<le> settling_weight n run r se"
  by (simp add: settle_event_def Let_def weight_one_less)

lemma weight_unawait: "settling_weight n run r (unawait i se) \<le> settling_weight n run r se"
  by (simp add: settling_weight_def unawait_def length_delete_le)

lemma weight_fold:
  assumes "\<And>x ps. settling_weight n run r (snd (f x ps)) \<le> settling_weight n run r (snd ps)"
  shows "settling_weight n run r (snd (fold f xs ps)) \<le> settling_weight n run r (snd ps)"
proof (induction xs arbitrary: ps)
  case (Cons x xs)
  then show ?case using assms [of x ps] by (simp add: order_trans [OF Cons])
qed simp

lemma weight_break_event:
  "settling_weight n run r (snd (break_event cs w i ps)) \<le> settling_weight n run r (snd ps)"
proof (cases ps)
  case (Pair pass se)
  show ?thesis
  proof (cases "length w \<le> i \<or> length cs \<le> w ! i")
    case False
    let ?se = "case map_of (se_awaited se) (w ! i) of None \<Rightarrow> se
      | Some point \<Rightarrow> (unawait (w ! i) se)\<lparr>se_waiting :=
          (se_waiting se)(point := filter (\<lambda>other. other \<noteq> w ! i) (se_waiting se point))\<rparr>"
    have "settling_weight n run r ?se \<le> settling_weight n run r se"
      by (auto simp: settling_weight_def unawait_def length_delete_le split: option.splits)
    with weight_settle_event have "settling_weight n run r
        (snd (settle_event cs (\<lambda>_. CountedForNothing Cyclic) (w ! i) (pass, ?se)))
        \<le> settling_weight n run r se"
      by (rule order_trans)
    with False Pair show ?thesis by (simp add: break_event_def Let_def)
  qed (auto simp: break_event_def Pair)
qed

lemma hget_at_map:
  "hget_or [] (at_map cs) q = filter (\<lambda>i. (ev_subject (cs ! i), ev_seq (cs ! i)) = q) [0..<length cs]"
proof -
  have *: "hget_or [] (fold (\<lambda>(index, event). hmodify (ev_subject event, ev_seq event) [] (\<lambda>l. l @ [index]))
      xs m) q = hget_or [] m q @ map fst (filter (\<lambda>(i, e). (ev_subject e, ev_seq e) = q) xs)" for xs m
    by (induction xs arbitrary: m) (auto simp: hmap_simps)
  have "hget_or [] (at_map cs) q =
      map fst (filter (\<lambda>(i, e). (ev_subject e, ev_seq e) = q) (enumerate 0 cs))"
    unfolding at_map_def * by simp
  also have "enumerate 0 cs = map (\<lambda>i. (i, cs ! i)) [0..<length cs]"
    by (rule nth_equalityI) (simp_all add: nth_enumerate_eq)
  finally show ?thesis by (simp add: filter_map o_def)
qed

lemma length_hget_at_map: "length (hget_or [] (at_map cs) q) \<le> length cs"
  unfolding hget_at_map using length_filter_le [of _ "[0..<length cs]"] by simp

lemma open_event_weight:
  assumes "open_event cs aside before i (pass, se, k) = (pass', se', k')"
  shows "se_open se' = se_open se" "se_close se' = se_close se" "se_pending se' = se_pending se"
    "length (se_awaited se') \<le> length (se_awaited se) + 1"
  using assms length_update_le [of i _ "se_awaited se"]
  by (auto simp: open_event_def Let_def split: if_splits option.splits)

lemma open_fold_weight:
  assumes "fold (open_event cs aside before) xs (pass, se, k) = (pass', se', k')"
  shows "se_open se' = se_open se \<and> se_close se' = se_close se \<and> se_pending se' = se_pending se \<and>
    length (se_awaited se') \<le> length (se_awaited se) + length xs"
  using assms
proof (induction xs arbitrary: pass se k)
  case (Cons x xs)
  obtain pass1 se1 k1 where 1: "open_event cs aside before x (pass, se, k) = (pass1, se1, k1)"
    by (metis prod_cases3)
  then show ?case using Cons open_event_weight [OF 1] by fastforce
qed simp

lemma open_sequence_weight:
  assumes "open_sequence cs aside q (pass, se\<lparr>se_open := opened\<rparr>) = (pass', se')"
    and "se_open se = q # opened"
  shows "settling_weight (length cs) run r se' < settling_weight (length cs) run r se"
proof -
  let ?se = "se\<lparr>se_open := opened\<rparr>" and ?w = "close_weight (length cs) run"
  let ?before = "state_of pass (fst q) (snd q - 1)" and ?here = "hget_or [] (at_map cs) q"
  obtain pass1 se1 k1 where f: "fold (open_event cs aside ?before) ?here (pass, ?se, 0) = (pass1, se1, k1)"
    by (metis prod_cases3)
  note w = open_fold_weight [OF f] and l = length_hget_at_map [of cs q]
  have "sum_list (map (\<lambda>p. ?w (fst p)) (AList.update q k1 (se_pending se1))) \<le>
      sum_list (map (\<lambda>p. ?w (fst p)) (se_pending se1)) + ?w q"
    by (simp add: sum_keys_update)
  with assms w l f show ?thesis
    by (auto simp: open_sequence_def settling_weight_def Let_def split: if_splits)
qed

lemma close_weight_step:
  "snd q < run (fst q) \<Longrightarrow>
     close_weight n run (fst q, snd q + 1) + n + 1 + 1 = close_weight n run q"
  unfolding close_weight_def by (simp flip: add_mult_distrib Suc_diff_Suc)

lemma weight_wake:
  "settling_weight n run r (snd (wake cs aside after i ps)) \<le> settling_weight n run r (snd ps)"
  using weight_settle_event [of n run r cs _ i "fst ps" "unawait i (snd ps)"]
    weight_unawait [of n run r i "snd ps"]
  by (cases ps) (auto simp: wake_def intro: order_trans)

lemma close_sequence_weight:
  assumes "close_sequence cs aside run q (pass, se\<lparr>se_close := close\<rparr>) = (pass', se')"
    and "se_close se = q # close"
  shows "settling_weight n run r se' < settling_weight n run r se"
proof -
  define se1 where "se1 = se\<lparr>se_close := close, se_settled := (se_settled se)(fst q \<mapsto> snd q),
    se_waiting := (se_waiting se)(q := [])\<rparr>"
  define ps2 where "ps2 = fold (wake cs aside (after_state pass q)) (se_waiting se q)
      (pass\<lparr>ps_states := (ps_states pass)(q \<mapsto> after_state pass q)\<rparr>, se1)"
  have lt: "settling_weight n run r se1 + close_weight n run q = settling_weight n run r se"
    using assms(2) by (simp add: settling_weight_def se1_def)
  have "settling_weight n run r (snd ps2) \<le> settling_weight n run r se1"
    unfolding ps2_def by (rule order_trans [OF weight_fold [OF weight_wake]]) simp
  moreover have "se' = (if snd q < run (fst q)
      then (snd ps2)\<lparr>se_open := (fst q, snd q + 1) # se_open (snd ps2)\<rparr> else snd ps2)"
    using assms(1) unfolding close_sequence_def ps2_def se1_def
    by (auto simp: Let_def split: prod.splits)
  ultimately show ?thesis
    using lt close_weight_step [of q run n]
    by (auto simp: settling_weight_def close_weight_def split: if_splits)
qed

lemma break_loops_weight:
  assumes "break_loops ord cs (pass, se) = Some (pass', se')"
  shows "settling_weight n run r se' \<le> settling_weight n run r se"
proof -
  from assms obtain w xs where "fold (break_event cs w) xs (pass, se) = (pass', se')"
    by (auto simp: break_loops_def Let_def split: option.splits)
  then show ?thesis
    using weight_fold [of n run r "break_event cs w" xs "(pass, se)"] weight_break_event
    by (metis snd_conv)
qed

lemma give_up_weight:
  assumes "give_up ord cs (pass, se) = (pass', se')" and "se_awaited se \<noteq> []"
  shows "settling_weight n run r se' < settling_weight n run r se"
proof -
  let ?se = "se\<lparr>se_waiting := (\<lambda>_. []), se_awaited := []\<rparr>"
  let ?f = "settle_event cs (\<lambda>_. CountedForNothing Cyclic)"
  have "settling_weight n run r (snd (?f x ps)) \<le> settling_weight n run r (snd ps)" for x ps
    using weight_settle_event by (metis prod.collapse)
  then have "settling_weight n run r se' \<le> settling_weight n run r ?se"
    using assms(1) weight_fold [of n run r ?f "map fst (or_awaited ord (se_awaited se))" "(pass, ?se)"]
    by (simp add: give_up_def Let_def)
  also have "\<dots> < settling_weight n run r se"
    using assms(2) by (simp add: settling_weight_def)
  finally show ?thesis .
qed

termination evaluate_loop
proof (relation "measure (\<lambda>(ord, cs, aside, run, rounds, pass, se).
    settling_weight (length cs) run rounds se)", goal_cases)
  case (2 ord cs aside run rounds pass se ps pass' se')
  then have "settling_weight (length cs) run rounds se' \<le> settling_weight (length cs) run rounds se"
    by (auto intro: break_loops_weight)
  moreover have "settling_weight (length cs) run (rounds + 1) se' < settling_weight (length cs) run rounds se'"
    using 2 by (simp add: settling_weight_def)
  ultimately show ?case using 2 by auto
next
  case (3 ord cs aside run rounds pass se ps pass' se')
  then have "give_up ord cs (pass, se) = (pass', se')" by simp
  from give_up_weight [OF this 3(3)] show ?case by simp
next
  case (4 ord cs aside run rounds pass se q opened ps pass' se')
  then have "open_sequence cs aside q (pass, se\<lparr>se_open := opened\<rparr>) = (pass', se')" by simp
  from open_sequence_weight [OF this 4(2)] show ?case by simp
next
  case (5 ord cs aside run rounds pass se q close ps pass' se')
  then have "close_sequence cs aside run q (pass, se\<lparr>se_close := close\<rparr>) = (pass', se')" by simp
  from close_sequence_weight [OF this 5(1)] show ?case by simp
qed simp

declare evaluate_loop.simps [simp del]

definition settling_start :: "orders \<Rightarrow> Parsed \<Rightarrow> Settling" where
  "settling_start ord parsed =
     \<lparr>se_pending = [], se_waiting = (\<lambda>_. []), se_awaited = [], se_settled = (\<lambda>_. None),
      se_open = fold (\<lambda>(member, run) opened. if 1 \<le> run then (member, 1) # opened else opened)
        (or_runs ord (pa_runs parsed)) [],
      se_close = []\<rparr>"

definition evaluate :: "orders \<Rightarrow> Event list \<Rightarrow> nat set \<Rightarrow> Parsed \<Rightarrow> Pass \<Rightarrow> Pass option" where
  "evaluate ord candidates set_aside parsed pass =
     evaluate_loop ord candidates set_aside (run_of parsed) 0 pass (settling_start ord parsed)"

definition pass_run :: "orders \<Rightarrow> Alone \<Rightarrow> Parsed \<Rightarrow> nat set \<Rightarrow> Pass option" where
  "pass_run ord alone parsed set_aside =
     evaluate ord (al_candidates alone) set_aside parsed
       \<lparr>ps_verdicts = al_verdicts alone, ps_winners = (\<lambda>_. None), ps_states = (\<lambda>_. None)\<rparr>"

end
