(* ===== verification/Membership_View.thy ===== *)
theory Membership_View
  imports Membership_Pass "HOL-Library.Product_Lexorder"
begin

text \<open>
  The membership view itself, \<open>MembershipView\<close> and \<open>Member\<close> of
  \<^verbatim>\<open>crates/data-layer/src/pod/membership_view.rs\<close>: the guard over the last owner around the
  evaluations of \<^verbatim>\<open>Membership_Pass\<close>, and what a view answers. A \<open>BTreeMap\<close> from 1 to a chain's run is
  the list of its values.
\<close>

record Member =
  mb_state :: MemberState
  mb_identity_key :: "identity_key option"
  mb_devices :: "MemberDevice set"
  mb_statement_version :: "64 word"
  mb_chain :: "MemberState list"

definition member_run :: "Member \<Rightarrow> nat" where
  "member_run m = length (mb_chain m)"

definition state_at :: "Member \<Rightarrow> nat \<Rightarrow> MemberState option" where
  "state_at m seq =
     (if seq = 0 then Some no_state
      else if seq \<le> length (mb_chain m) then Some (mb_chain m ! (seq - 1)) else None)"

definition is_member_at :: "Member \<Rightarrow> nat \<Rightarrow> bool" where
  "is_member_at m seq = (case state_at m seq of None \<Rightarrow> False | Some st \<Rightarrow> ms_member st)"

definition joined_at :: "Member \<Rightarrow> nat option" where
  "joined_at m =
     (if \<not> ms_member (mb_state m) then None
      else find (\<lambda>seq. \<not> is_member_at m (seq - 1)) (rev [1..<member_run m + 1]))"

definition departed_at :: "Member \<Rightarrow> nat option" where
  "departed_at m =
     (if ms_member (mb_state m) then None
      else find (\<lambda>seq. is_member_at m (seq - 1) \<and>
             (case state_at m seq of None \<Rightarrow> False | Some after \<Rightarrow> \<not> ms_member after))
        (rev [1..<member_run m + 1]))"

record MembershipView =
  mv_members :: "(PdnId \<times> Member) list"
  mv_verdicts :: "Verdict list"

definition view_member :: "MembershipView \<Rightarrow> PdnId \<Rightarrow> Member option" where
  "view_member view who = map_of (mv_members view) who"

subsection \<open>The guard over the last owner\<close>

definition identities :: "Parsed \<Rightarrow> PdnId list" where
  "identities parsed =
     sort (remdups (map fst (pa_present parsed) @ map st_member (pa_statements parsed)))"

text \<open>
  The loop of \<open>ending_demotion\<close> over a chain's winners; a winner with no event, which no run has,
  returns from the function.
\<close>

primrec ending_loop ::
    "Pass \<Rightarrow> PdnId \<Rightarrow> nat list \<Rightarrow> (PdnId \<times> nat list) option \<Rightarrow> (PdnId \<times> nat list) option" where
  "ending_loop pass member [] ending = ending"
| "ending_loop pass member (seq # seqs) ending =
     (case ps_winners pass (member, seq) of
        None \<Rightarrow> ending_loop pass member seqs ending
      | Some winner \<Rightarrow>
          if win_kind winner = Demoted
          then (case map snd (win_events winner) of
                  [] \<Rightarrow> None
                | actor # actors \<Rightarrow>
                    ending_loop pass member seqs
                      (Some (fold min actors actor, map fst (win_events winner))))
          else ending_loop pass member seqs None)"

definition ending_demotion :: "Pass \<Rightarrow> Parsed \<Rightarrow> PdnId \<Rightarrow> (PdnId \<times> nat list) option" where
  "ending_demotion pass parsed member =
     ending_loop pass member [1..<run_of parsed member + 1] None"

primrec guard_loop :: "(PdnId \<times> PdnId \<times> nat list) list \<Rightarrow> PdnId set \<Rightarrow> nat set \<Rightarrow> nat set" where
  "guard_loop [] remaining set_aside = set_aside"
| "guard_loop (e # ended) remaining set_aside =
     (case e of (_, subject, entries) \<Rightarrow>
        if card remaining = 1 \<and> subject \<in> remaining
        then guard_loop ended remaining (set_aside \<union> set entries)
        else guard_loop ended (remaining - {subject}) set_aside)"

definition ended_owners :: "Pass \<Rightarrow> Parsed \<Rightarrow> (PdnId \<times> PdnId \<times> nat list) list" where
  "ended_owners pass parsed =
     List.map_filter (\<lambda>id.
         if ms_member (state_of pass id (run_of parsed id))
         then map_option (\<lambda>(actor, entries). (actor, id, entries)) (ending_demotion pass parsed id)
         else None)
       (identities parsed)"

definition demotions_to_set_aside :: "Pass \<Rightarrow> Parsed \<Rightarrow> nat set" where
  "demotions_to_set_aside pass parsed =
     (if list_ex (\<lambda>id. ms_owner (state_of pass id (run_of parsed id))) (identities parsed) then {}
      else (let ended = sort_key (\<lambda>(actor, subject, _). (actor, subject)) (ended_owners pass parsed)
            in guard_loop ended (set (map (\<lambda>(_, subject, _). subject) ended)) {}))"

subsection \<open>The view\<close>

definition member_of :: "Pass \<Rightarrow> Alone \<Rightarrow> Parsed \<Rightarrow> PdnId \<Rightarrow> Member" where
  "member_of pass alone parsed who =
     \<lparr>mb_state = state_of pass who (run_of parsed who),
      mb_identity_key = map_of (al_keys alone) who,
      mb_devices = hget_or {} (al_devices alone) who,
      mb_statement_version = hget_or 0 (al_statement_versions alone) who,
      mb_chain = map (state_of pass who) [1..<run_of parsed who + 1]\<rparr>"

definition into_view :: "Pass \<Rightarrow> Alone \<Rightarrow> Parsed \<Rightarrow> MembershipView" where
  "into_view pass alone parsed =
     \<lparr>mv_members = map (\<lambda>id. (id, member_of pass alone parsed id)) (identities parsed),
      mv_verdicts = ps_verdicts pass\<rparr>"

text \<open>The passes of the guard, counted from 0: the last is the one numbered \<open>GUARD_PASSES - 1\<close>.\<close>

function guard_passes ::
    "(nat \<Rightarrow> orders) \<Rightarrow> Alone \<Rightarrow> Parsed \<Rightarrow> nat \<Rightarrow> nat set \<Rightarrow> MembershipView option" where
  "guard_passes ords alone parsed passes set_aside =
     (case pass_run (ords passes) alone parsed set_aside of
        None \<Rightarrow> None
      | Some pass \<Rightarrow>
          (let more = demotions_to_set_aside pass parsed
           in if more \<subseteq> set_aside \<or> GUARD_PASSES \<le> passes + 1 then Some (into_view pass alone parsed)
              else guard_passes ords alone parsed (passes + 1) (set_aside \<union> more)))"
  by auto
termination guard_passes
  by (relation "measure (\<lambda>(ords, alone, parsed, passes, set_aside). GUARD_PASSES - passes)") auto

declare guard_passes.simps [simp del]

definition membership_view ::
    "crypto \<Rightarrow> (nat \<Rightarrow> orders) \<Rightarrow> PodId \<Rightarrow> NamespaceId \<Rightarrow> HeldEntry list \<Rightarrow> MembershipView option" where
  "membership_view c ords pod store entries =
     (let parsed = parsed_of entries
      in guard_passes ords (alone_of c pod store entries parsed) parsed 0 {})"

end
