(* ===== verification/Record_View.thy ===== *)
theory Record_View
  imports Membership_View "HOL-Library.List_Lexorder"
begin

text \<open>
  The record view, \<^verbatim>\<open>crates/data-layer/src/pod/record_view.rs\<close>, and the readers of a store's entries in
  \<^verbatim>\<open>crates/data-layer/src/pod.rs\<close> that feed both views.

  A store's query stream is the list of its results, the blob store a record of its two calls; both
  may fail, and the first failure is the result. \<open>BTreeMap<RecordRef, Vec<usize>>\<close> is an association
  list whose keys are listed in their order.
\<close>

type_synonym Hash = "256 word"

record RecordEntry =
  re_key :: bytes
  re_author :: AuthorId
  re_timestamp :: "64 word"
  re_hash :: Hash
  re_len :: "64 word"
  re_payload :: "Hash option"

record RecordView =
  rv_entries :: "RecordEntry list"
  rv_verdicts :: "Verdict list"
  rv_read :: "(RecordRef, nat list) hmap"

subsection \<open>The entries a store holds\<close>

record StoreEntry =
  sn_key :: bytes
  sn_author :: AuthorId
  sn_timestamp :: "64 word"
  sn_hash :: Hash
  sn_len :: "64 word"

record 'e blobs =
  blob_has :: "Hash \<Rightarrow> 'e + bool"
  blob_bytes :: "Hash \<Rightarrow> 'e + bytes"

datatype PodStore = MembershipStore | RecordStore

record UnknownEntry =
  un_store :: PodStore
  un_key :: bytes
  un_author :: AuthorId

text \<open>One step of a loop that reads a stream: what it pushes, or the failure it returns with.\<close>

primrec collect :: "('a \<Rightarrow> 'e + 'b list) \<Rightarrow> ('e + 'a) list \<Rightarrow> 'e + 'b list" where
  "collect f [] = Inr []"
| "collect f (x # xs) =
     (case x of
        Inl e \<Rightarrow> Inl e
      | Inr entry \<Rightarrow>
          (case f entry of
             Inl e \<Rightarrow> Inl e
           | Inr here \<Rightarrow> (case collect f xs of Inl e \<Rightarrow> Inl e | Inr rest \<Rightarrow> Inr (here @ rest))))"

definition held_payload :: "'e blobs \<Rightarrow> StoreEntry \<Rightarrow> 'e + HeldPayload" where
  "held_payload blobs entry =
     (case held_unread (sn_key entry) (unat (sn_len entry)) of
        Some unread \<Rightarrow> Inr unread
      | None \<Rightarrow>
          (case blob_has blobs (sn_hash entry) of
             Inl e \<Rightarrow> Inl e
           | Inr has \<Rightarrow>
               if has
               then (case blob_bytes blobs (sn_hash entry) of Inl e \<Rightarrow> Inl e | Inr bs \<Rightarrow> Inr (Read bs))
               else Inr Awaited))"

definition held_entries :: "'e blobs \<Rightarrow> ('e + StoreEntry) list \<Rightarrow> 'e + HeldEntry list" where
  "held_entries blobs stream =
     collect (\<lambda>entry. case held_payload blobs entry of
         Inl e \<Rightarrow> Inl e
       | Inr payload \<Rightarrow>
           Inr [\<lparr>he_key = sn_key entry, he_author = sn_author entry, he_payload = payload\<rparr>]) stream"

definition record_entries :: "'e blobs \<Rightarrow> ('e + StoreEntry) list \<Rightarrow> 'e + RecordEntry list" where
  "record_entries blobs stream =
     collect (\<lambda>entry. case blob_has blobs (sn_hash entry) of
         Inl e \<Rightarrow> Inl e
       | Inr has \<Rightarrow>
           Inr [\<lparr>re_key = sn_key entry, re_author = sn_author entry, re_timestamp = sn_timestamp entry,
                 re_hash = sn_hash entry, re_len = sn_len entry,
                 re_payload = (if has then Some (sn_hash entry) else None)\<rparr>]) stream"

definition fits_layout :: "PodStore \<Rightarrow> bytes \<Rightarrow> bool" where
  "fits_layout store key =
     (case store of
        MembershipStore \<Rightarrow> membership_parse key \<noteq> None
      | RecordStore \<Rightarrow> record_parse key \<noteq> None)"

definition unknown_entries :: "PodStore \<Rightarrow> ('e + StoreEntry) list \<Rightarrow> 'e + UnknownEntry list" where
  "unknown_entries store stream =
     collect (\<lambda>entry. Inr (if \<not> fits_layout store (sn_key entry)
         then [\<lparr>un_store = store, un_key = sn_key entry, un_author = sn_author entry\<rparr>] else [])) stream"

subsection \<open>What the entries read as\<close>

definition judge_record :: "MembershipView \<Rightarrow> RecordKey \<Rightarrow> RecordEntry \<Rightarrow> Verdict" where
  "judge_record membership key entry =
     (case (case key of
              RClaim member _ mseq \<Rightarrow> Inr (member, mseq)
            | RImmutableDocument member _ mseq \<Rightarrow> Inr (member, mseq)
            | ROperation _ _ op \<Rightarrow>
                if op_author op \<noteq> re_author entry then Inl (CountedForNothing AuthorNotNamed)
                else Inr (op_writer op, op_mseq op)) of
        Inl verdict \<Rightarrow> verdict
      | Inr (writer, mseq) \<Rightarrow>
          (case view_member membership writer of
             None \<Rightarrow> NotYet AwaitActorChain
           | Some member \<Rightarrow>
               (case state_at member (unat mseq) of
                  None \<Rightarrow> NotYet AwaitActorChain
                | Some state \<Rightarrow>
                    if \<not> (\<exists>device\<in>mb_devices member. md_author device = re_author entry)
                    then CountedForNothing AuthorNotActorDevice
                    else if \<not> ms_member state then CountedForNothing ActorLacksState
                    else if re_payload entry = None then NotYet AwaitPayload
                    else Counted)))"

definition record_step ::
    "MembershipView \<Rightarrow> nat \<times> RecordEntry \<Rightarrow> Verdict list \<times> (RecordRef, nat list) hmap \<Rightarrow>
      Verdict list \<times> (RecordRef, nat list) hmap" where
  "record_step membership = (\<lambda>(index, entry) (verdicts, read).
     case record_parse (re_key entry) of
       Some key \<Rightarrow>
         (let verdict = judge_record membership key entry
          in (verdicts @ [verdict],
              if verdict = Counted then hmodify (record_of key) [] (\<lambda>l. l @ [index]) read else read))
     | None \<Rightarrow> (verdicts @ [OutsideLayout], read))"

definition record_view :: "MembershipView \<Rightarrow> RecordEntry list \<Rightarrow> RecordView" where
  "record_view membership entries =
     (let (verdicts, read) = fold (record_step membership) (enumerate 0 entries) ([], [])
      in \<lparr>rv_entries = entries, rv_verdicts = verdicts, rv_read = read\<rparr>)"

definition records :: "RecordView \<Rightarrow> RecordRef list" where
  "records view = sort (map fst (rv_read view))"

definition read_entries :: "RecordView \<Rightarrow> RecordRef \<Rightarrow> RecordEntry list" where
  "read_entries view record =
     List.map_filter (\<lambda>index. if index < length (rv_entries view) then Some (rv_entries view ! index) else None)
       (hget_or [] (rv_read view) record)"

text \<open>\<open>Iterator::max_by\<close>: the last of the greatest.\<close>

primrec max_by :: "('a \<Rightarrow> 'b::linorder) \<Rightarrow> 'a list \<Rightarrow> 'a option" where
  "max_by k [] = None"
| "max_by k (x # xs) = Some (fold (\<lambda>y x. if k x > k y then x else y) xs x)"

definition entry_rank :: "RecordEntry \<Rightarrow> 64 word \<times> bytes \<times> AuthorId" where
  "entry_rank entry = (re_timestamp entry, re_key entry, re_author entry)"

definition placed :: "RecordView \<Rightarrow> RecordRef \<Rightarrow> RecordEntry option" where
  "placed view record =
     (if rr_kind record = MergeableDocument then None
      else max_by entry_rank (read_entries view record))"

definition operations :: "RecordView \<Rightarrow> RecordRef \<Rightarrow> (OpId \<times> RecordEntry) list" where
  "operations view record =
     sort_key fst (List.map_filter (\<lambda>entry.
         case record_parse (re_key entry) of
           Some (ROperation _ _ op) \<Rightarrow> Some (op, entry)
         | _ \<Rightarrow> None) (read_entries view record))"

definition held_op_seqs :: "RecordView \<Rightarrow> RecordRef \<Rightarrow> AuthorId \<Rightarrow> 64 word list" where
  "held_op_seqs view record author =
     List.map_filter (\<lambda>entry.
         case record_parse (re_key entry) of
           Some (ROperation member rid op) \<Rightarrow>
             if record_of (ROperation member rid op) = record then Some (op_op_seq op) else None
         | _ \<Rightarrow> None)
       (filter (\<lambda>entry. re_author entry = author) (rv_entries view))"

text \<open>\<open>u64::checked_add(1)\<close>.\<close>

definition checked_succ :: "64 word \<Rightarrow> 64 word option" where
  "checked_succ x = (if x = - 1 then None else Some (x + 1))"

definition next_op_seq :: "RecordView \<Rightarrow> RecordRef \<Rightarrow> AuthorId \<Rightarrow> 64 word option" where
  "next_op_seq view record author =
     checked_succ (case max_by (\<lambda>x. x) (held_op_seqs view record author) of None \<Rightarrow> 0 | Some x \<Rightarrow> x)"

definition view_verdicts :: "RecordView \<Rightarrow> (RecordEntry \<times> Verdict) list" where
  "view_verdicts view = zip (rv_entries view) (rv_verdicts view)"

subsection \<open>Lemmas\<close>

definition entry_verdict :: "MembershipView \<Rightarrow> RecordEntry \<Rightarrow> Verdict" where
  "entry_verdict membership entry =
     (case record_parse (re_key entry) of
        None \<Rightarrow> OutsideLayout
      | Some key \<Rightarrow> judge_record membership key entry)"

definition reads :: "MembershipView \<Rightarrow> RecordRef \<Rightarrow> RecordEntry \<Rightarrow> bool" where
  "reads membership record entry \<longleftrightarrow>
     map_option record_of (record_parse (re_key entry)) = Some record \<and> entry_verdict membership entry = Counted"

lemma fold_record_step:
  "fold (record_step membership) xs (vs, rd) = (vs', rd') \<Longrightarrow>
     vs' = vs @ map (\<lambda>x. entry_verdict membership (snd x)) xs \<and>
     hget_or [] rd' r = hget_or [] rd r @ map fst (filter (\<lambda>x. reads membership r (snd x)) xs) \<and>
     fst ` set rd' = fst ` set rd \<union> {r. \<exists>x\<in>set xs. reads membership r (snd x)} \<and>
     (distinct (map fst rd) \<longrightarrow> distinct (map fst rd'))"
proof (induction xs arbitrary: vs rd)
  case (Cons x xs)
  obtain i e where x: "x = (i, e)" by force
  obtain vs1 rd1 where 1: "record_step membership x (vs, rd) = (vs1, rd1)" by force
  have vs1: "vs1 = vs @ [entry_verdict membership e]"
    using 1 by (auto simp: x record_step_def entry_verdict_def Let_def split: option.splits)
  have rd1: "hget_or [] rd1 r = hget_or [] rd r @ (if reads membership r e then [i] else [])"
    using 1 by (auto simp: x record_step_def reads_def entry_verdict_def Let_def hmap_simps split: option.splits if_splits)
  have keys: "fst ` set rd1 = fst ` set rd \<union> {r. reads membership r e}"
  proof (cases "entry_verdict membership e = Counted")
    case True
    then obtain key where key: "record_parse (re_key e) = Some key" "judge_record membership key e = Counted"
      by (auto simp: entry_verdict_def split: option.splits)
    with 1 have "rd1 = hmodify (record_of key) [] (\<lambda>l. l @ [i]) rd" by (simp add: x record_step_def)
    then have "fst ` set rd1 = insert (record_of key) (fst ` set rd)" by (simp only: keys_hmodify)
    then show ?thesis using True key by (auto simp: reads_def)
  next
    case False
    with 1 have "rd1 = rd" by (auto simp: x record_step_def entry_verdict_def Let_def split: option.splits)
    with False show ?thesis by (auto simp: reads_def)
  qed
  have dist: "distinct (map fst rd) \<longrightarrow> distinct (map fst rd1)"
    using 1 by (auto simp: x record_step_def Let_def split: option.splits if_splits)
  have "fold (record_step membership) xs (vs1, rd1) = (vs', rd')" using Cons.prems 1 by simp
  from Cons.IH [OF this] show ?case using vs1 rd1 keys dist by (auto simp: x)
qed auto

lemma record_view_simps:
  "rv_entries (record_view membership entries) = entries"
  "rv_verdicts (record_view membership entries) = map (entry_verdict membership) entries"
  "hget_or [] (rv_read (record_view membership entries)) r =
     filter (\<lambda>i. reads membership r (entries ! i)) [0..<length entries]"
  "fst ` set (rv_read (record_view membership entries)) = {r. \<exists>e\<in>set entries. reads membership r e}"
  "distinct (map fst (rv_read (record_view membership entries)))"
proof -
  obtain vs rd where f: "fold (record_step membership) (enumerate 0 entries) ([], []) = (vs, rd)" by force
  have en: "enumerate 0 entries = map (\<lambda>i. (i, entries ! i)) [0..<length entries]"
    by (rule nth_equalityI) (simp_all add: nth_enumerate_eq)
  note F = fold_record_step [OF f]
  have v: "vs = map (\<lambda>x. entry_verdict membership (snd x)) (enumerate 0 entries)"
    and r: "hget_or [] rd r = map fst (filter (\<lambda>x. reads membership r (snd x)) (enumerate 0 entries))"
    and k: "fst ` set rd = {r. \<exists>x\<in>set (enumerate 0 entries). reads membership r (snd x)}"
    and d: "distinct (map fst rd)"
    using F by simp_all
  have eq: "record_view membership entries = \<lparr>rv_entries = entries, rv_verdicts = vs, rv_read = rd\<rparr>"
    by (simp add: record_view_def f)
  then show "rv_entries (record_view membership entries) = entries" by simp
  show "rv_verdicts (record_view membership entries) = map (entry_verdict membership) entries"
    by (rule nth_equalityI) (simp_all add: eq v nth_enumerate_eq)
  show "hget_or [] (rv_read (record_view membership entries)) r =
      filter (\<lambda>i. reads membership r (entries ! i)) [0..<length entries]"
    using r unfolding en by (simp add: eq filter_map o_def)
  show "fst ` set (rv_read (record_view membership entries)) = {r. \<exists>e\<in>set entries. reads membership r e}"
  proof -
    have "set entries = snd ` set (enumerate 0 entries)" by (metis list.set_map map_snd_enumerate)
    then show ?thesis using k by (auto simp: eq)
  qed
  show "distinct (map fst (rv_read (record_view membership entries)))" by (simp add: eq d)
qed

lemma read_entries_view:
  "read_entries (record_view membership entries) r = filter (reads membership r) entries"
proof -
  have "read_entries (record_view membership entries) r =
      map ((!) entries) (filter (\<lambda>i. reads membership r (entries ! i)) [0..<length entries])"
  proof -
    have "List.map_filter (\<lambda>i. if i < length entries then Some (entries ! i) else None) xs = map ((!) entries) xs"
      if "set xs \<subseteq> {..<length entries}" for xs
      using that by (induction xs) (auto simp: map_filter_simps)
    note filtered = this
    show ?thesis unfolding read_entries_def record_view_simps by (rule filtered) auto
  qed
  also have "\<dots> = filter (reads membership r) (map ((!) entries) [0..<length entries])"
    by (simp add: filter_map o_def)
  finally show ?thesis by (simp add: map_nth)
qed

text \<open>Who an entry's key says wrote it, and at which point of the writer's chain.\<close>

fun key_writer :: "RecordKey \<Rightarrow> AuthorId \<Rightarrow> (PdnId \<times> Seq) option" where
  "key_writer (RClaim member rid mseq) author = Some (member, mseq)"
| "key_writer (RImmutableDocument member rid mseq) author = Some (member, mseq)"
| "key_writer (ROperation member rid op) author =
     (if op_author op = author then Some (op_writer op, op_mseq op) else None)"

lemma judge_record_counted:
  "judge_record membership key entry = Counted \<longleftrightarrow>
     (\<exists>writer mseq member state. key_writer key (re_author entry) = Some (writer, mseq) \<and>
        view_member membership writer = Some member \<and> state_at member (unat mseq) = Some state \<and>
        ms_member state \<and> (\<exists>device\<in>mb_devices member. md_author device = re_author entry) \<and>
        re_payload entry \<noteq> None)"
  by (cases key) (auto simp: judge_record_def split: option.splits)

lemma max_by_Some: "max_by k xs = Some x \<Longrightarrow> x \<in> set xs \<and> (\<forall>y\<in>set xs. k y \<le> k x)"
proof -
  have "fold (\<lambda>y x. if k x > k y then x else y) ys x \<in> insert x (set ys) \<and>
      (\<forall>y\<in>insert x (set ys). k y \<le> k (fold (\<lambda>y x. if k x > k y then x else y) ys x))" for ys x
  proof (induction ys arbitrary: x)
    case (Cons y ys)
    show ?case using Cons [of y] Cons [of x] by (cases "k x > k y") (auto intro: order_trans less_imp_le)
  qed simp
  then show "max_by k xs = Some x \<Longrightarrow> x \<in> set xs \<and> (\<forall>y\<in>set xs. k y \<le> k x)" by (cases xs) auto
qed

lemma max_by_None: "max_by k xs = None \<longleftrightarrow> xs = []"
  by (cases xs) simp_all

lemma collect_Inr:
  assumes "collect (\<lambda>x. case f x of Inl e \<Rightarrow> Inl e | Inr y \<Rightarrow> Inr [y]) xs = Inr ys"
  shows "length ys = length xs \<and> (\<forall>i<length xs. \<exists>x. xs ! i = Inr x \<and> f x = Inr (ys ! i))"
  using assms
proof (induction xs arbitrary: ys)
  case (Cons a xs)
  then obtain x y rest where 1: "a = Inr x" "f x = Inr y" "ys = y # rest"
    and rest: "collect (\<lambda>x. case f x of Inl e \<Rightarrow> Inl e | Inr y \<Rightarrow> Inr [y]) xs = Inr rest"
    by (auto split: sum.splits)
  from Cons.IH [OF rest] 1 show ?case by (auto simp: nth_Cons split: nat.splits)
qed simp

end
