(* ===== verification/Membership_Settle.thy ===== *)
theory Membership_Settle
  imports Membership_Pass
begin

text \<open>
  What one evaluation of the candidates computes, apart from the order in which it does: the states
  of the chains are the least that follow from the events (\<open>settles\<close>), the loops are those of the
  waits (\<open>looped\<close>), and the evaluation of \<^verbatim>\<open>Membership_Pass\<close> reaches exactly them, whatever the order
  of the hash maps it iterates over.
\<close>

declare split_paired_All [simp del] split_paired_Ex [simp del]

subsection \<open>The specification\<close>

definition pos :: "Event \<Rightarrow> point" where "pos e = (ev_subject e, ev_seq e)"
definition actor_point :: "Event \<Rightarrow> point" where "actor_point e = (ev_actor e, ev_actor_seq e)"

definition free_actor :: "Event \<Rightarrow> bool" where
  "free_actor e \<longleftrightarrow> ev_kind e = Created \<or> ev_kind e = Left \<or> ev_actor_seq e = 0"

text \<open>The state a sequence leaves when the events of the kinds \<open>K\<close> count there.\<close>

definition outcome :: "MemberState \<Rightarrow> EventKind set \<Rightarrow> MemberState \<Rightarrow> bool" where
  "outcome st K st' \<longleftrightarrow>
     K = {} \<and> st' = st \<or> (\<exists>k\<in>K. (\<forall>k'\<in>K. rank k' \<le> rank k) \<and> st' = apply_kind k)"

definition counted_kinds ::
    "Event list \<Rightarrow> nat set \<Rightarrow> nat set \<Rightarrow> MemberState \<Rightarrow> (nat \<Rightarrow> MemberState) \<Rightarrow> point \<Rightarrow> EventKind set" where
  "counted_kinds cs aside B st f q =
     {ev_kind (cs ! i) |i. i < length cs \<and> pos (cs ! i) = q \<and> allows st (ev_kind (cs ! i)) \<and> i \<notin> B \<and>
        judge aside (cs ! i) (f i) = Counted}"

text \<open>
  \<open>settles cs run aside B m s st\<close>: the chain of \<open>m\<close> has the state \<open>st\<close> after its sequence \<open>s\<close>, with the
  candidates of \<open>B\<close> counting for nothing. A sequence settles once the one before has and the actor of
  every event it allows is known.
\<close>

inductive settles ::
    "Event list \<Rightarrow> (PdnId \<Rightarrow> nat) \<Rightarrow> nat set \<Rightarrow> nat set \<Rightarrow> PdnId \<Rightarrow> nat \<Rightarrow> MemberState \<Rightarrow> bool"
  for cs run aside B where
  settles_start: "settles cs run aside B m 0 no_state"
| settles_next: "settles cs run aside B m s st \<Longrightarrow> s < run m \<Longrightarrow>
    \<forall>i<length cs. pos (cs ! i) = (m, Suc s) \<and> allows st (ev_kind (cs ! i)) \<and> i \<notin> B \<longrightarrow>
      (if free_actor (cs ! i) then f i = no_state
       else settles cs run aside B (ev_actor (cs ! i)) (ev_actor_seq (cs ! i)) (f i)) \<Longrightarrow>
    outcome st (counted_kinds cs aside B st f (m, Suc s)) st' \<Longrightarrow>
    settles cs run aside B m (Suc s) st'"

inductive_cases settles_SucE: "settles cs run aside B m (Suc s) st"
inductive_cases settles_0E: "settles cs run aside B m 0 st"

lemma rank_inj: "rank a = rank b \<Longrightarrow> a = b"
  by (cases a; cases b) auto

lemma outcome_fun: "outcome st K a \<Longrightarrow> outcome st K b \<Longrightarrow> a = b"
  unfolding outcome_def by (metis empty_iff le_antisym rank_inj)

lemma settles_fun: "settles cs run aside B m s st \<Longrightarrow> settles cs run aside B m s st' \<Longrightarrow> st = st'"
proof (induction arbitrary: st' rule: settles.induct)
  case (settles_start m)
  then show ?case by (auto elim: settles_0E)
next
  case (settles_next m s st f a)
  from settles_next.prems obtain st1 f1 where 1: "settles cs run aside B m s st1"
    "\<forall>i<length cs. pos (cs ! i) = (m, Suc s) \<and> allows st1 (ev_kind (cs ! i)) \<and> i \<notin> B \<longrightarrow>
      (if free_actor (cs ! i) then f1 i = no_state
       else settles cs run aside B (ev_actor (cs ! i)) (ev_actor_seq (cs ! i)) (f1 i))"
    "outcome st1 (counted_kinds cs aside B st1 f1 (m, Suc s)) st'"
    by (rule settles_SucE) blast
  have st: "st1 = st" using settles_next.IH(1) 1(1) by simp
  have "f i = f1 i" if "i < length cs" "pos (cs ! i) = (m, Suc s)" "allows st (ev_kind (cs ! i))" "i \<notin> B" for i
    using settles_next.IH(2) 1(2) that st by (cases "free_actor (cs ! i)") auto
  then have "counted_kinds cs aside B st f (m, Suc s) = counted_kinds cs aside B st1 f1 (m, Suc s)"
    by (auto simp: counted_kinds_def st)
  then show ?case using settles_next.hyps 1(3) st outcome_fun by metis
qed

lemma settles_run: "settles cs run aside B m s st \<Longrightarrow> s \<le> run m"
  by (induction rule: settles.induct) auto

lemma settles_pred: "settles cs run aside B m (Suc s) st \<Longrightarrow> \<exists>st. settles cs run aside B m s st"
  by (auto elim: settles_SucE)

lemma settles_below:
  "settles cs run aside B m s st \<Longrightarrow> s' \<le> s \<Longrightarrow> \<exists>st. settles cs run aside B m s' st"
proof (induction s arbitrary: st)
  case (Suc s)
  then show ?case using settles_pred by (metis le_Suc_eq)
qed auto

text \<open>Setting aside events at sequences that have not settled keeps what has.\<close>

lemma settles_more:
  assumes "settles cs run aside B m s st" and "B \<subseteq> B'"
    and "\<And>i st. i \<in> B' - B \<Longrightarrow> i < length cs \<and> \<not> settles cs run aside B (ev_subject (cs ! i)) (ev_seq (cs ! i)) st"
  shows "settles cs run aside B' m s st"
  using assms(1)
proof (induction rule: settles.induct)
  case (settles_start m)
  show ?case by (rule settles.settles_start)
next
  case (settles_next m s st f st')
  have "settles cs run aside B m (Suc s) st'"
    using settles_next by (intro settles.settles_next [of cs run aside B m s st f]) auto
  then have B: "i \<in> B' \<longleftrightarrow> i \<in> B" if "i < length cs" "pos (cs ! i) = (m, Suc s)" for i
    using that assms(2) assms(3) [of i st'] by (auto simp: pos_def)
  have "counted_kinds cs aside B' st f (m, Suc s) = counted_kinds cs aside B st f (m, Suc s)"
    by (auto simp: counted_kinds_def B)
  with settles_next B show ?case
    by (intro settles.settles_next [of cs run aside B' m s st f]) auto
qed

subsection \<open>Decisions\<close>

text \<open>
  The verdict of a decided candidate: \<open>B\<close> are the candidates broken out of a loop. A verdict stands
  on states that stay: of the sequence before the event's, and of its actor's point.
\<close>

definition verdict_of ::
    "nat set \<Rightarrow> nat set \<Rightarrow> (point \<Rightarrow> MemberState option) \<Rightarrow> nat \<Rightarrow> Event \<Rightarrow> Verdict" where
  "verdict_of aside B states i e =
     (if \<not> allows (if ev_seq e = 1 then no_state else the (states (ev_subject e, ev_seq e - 1))) (ev_kind e)
      then CountedForNothing TransitionNotAllowed
      else if i \<in> B then CountedForNothing Cyclic
      else judge aside e (if free_actor e then no_state else the (states (actor_point e))))"

definition ready :: "nat set \<Rightarrow> (point \<Rightarrow> MemberState option) \<Rightarrow> nat \<Rightarrow> Event \<Rightarrow> bool" where
  "ready B states i e \<longleftrightarrow>
     (ev_seq e = 1 \<or> states (ev_subject e, ev_seq e - 1) \<noteq> None) \<and>
     (allows (if ev_seq e = 1 then no_state else the (states (ev_subject e, ev_seq e - 1))) (ev_kind e) \<longrightarrow>
        i \<in> B \<or> free_actor e \<or> states (actor_point e) \<noteq> None)"

lemma verdict_of_mono:
  assumes "states \<subseteq>\<^sub>m states'" and "ready B states i e"
  shows "verdict_of aside B states' i e = verdict_of aside B states i e" and "ready B states' i e"
proof -
  have keep: "states p \<noteq> None \<Longrightarrow> states' p = states p" for p
    using assms(1) by (metis domIff map_le_def)
  from keep [of "(ev_subject e, ev_seq e - 1)"] keep [of "actor_point e"] assms(2) show "verdict_of aside B states' i e = verdict_of aside B states i e"
    and "ready B states' i e"
    by (auto simp: verdict_of_def ready_def)
qed

text \<open>
  The winner at a point, of the counted candidates there: \<open>v i\<close> is the verdict of the candidate \<open>i\<close>.
\<close>

definition winner_for :: "Event list \<Rightarrow> nat set \<Rightarrow> Winner option \<Rightarrow> bool" where
  "winner_for cs counted w \<longleftrightarrow>
     (case w of
        None \<Rightarrow> counted = {}
      | Some w \<Rightarrow>
          win_kind w \<in> (\<lambda>i. ev_kind (cs ! i)) ` counted \<and>
          (\<forall>i\<in>counted. rank (ev_kind (cs ! i)) \<le> rank (win_kind w)) \<and>
          set (win_events w) = (\<lambda>i. (ev_entry (cs ! i), ev_actor (cs ! i))) `
            {i \<in> counted. ev_kind (cs ! i) = win_kind w})"

definition counted_at :: "Event list \<Rightarrow> (nat \<Rightarrow> Verdict) \<Rightarrow> point \<Rightarrow> nat set" where
  "counted_at cs v q = {i. i < length cs \<and> pos (cs ! i) = q \<and> v i = Counted}"

text \<open>
  \<open>dinv\<close>: \<open>U\<close> are the candidates not yet decided, \<open>V0\<close> the verdicts the evaluation began with.
\<close>

definition dinv ::
    "Event list \<Rightarrow> nat set \<Rightarrow> Verdict list \<Rightarrow> nat set \<Rightarrow> nat set \<Rightarrow> Pass \<Rightarrow> bool" where
  "dinv cs aside V0 B U pass \<longleftrightarrow>
     length (ps_verdicts pass) = length V0 \<and>
     (\<forall>j<length V0. j \<notin> ev_entry ` set cs \<longrightarrow> ps_verdicts pass ! j = V0 ! j) \<and>
     (\<forall>i<length cs. i \<in> U \<longrightarrow> ps_verdicts pass ! ev_entry (cs ! i) = OutsideLayout) \<and>
     (\<forall>i<length cs. i \<notin> U \<longrightarrow> ready B (ps_states pass) i (cs ! i) \<and>
        ps_verdicts pass ! ev_entry (cs ! i) = verdict_of aside B (ps_states pass) i (cs ! i)) \<and>
     (\<forall>q. winner_for cs (counted_at cs (\<lambda>i. ps_verdicts pass ! ev_entry (cs ! i)) q)
        (ps_winners pass q))"

text \<open>What an evaluation is given: each candidate's entry is its own, in range and undecided.\<close>

definition wf_cands :: "Event list \<Rightarrow> (PdnId \<Rightarrow> nat) \<Rightarrow> Verdict list \<Rightarrow> bool" where
  "wf_cands cs run V0 \<longleftrightarrow>
     distinct (map ev_entry cs) \<and>
     (\<forall>e\<in>set cs. ev_entry e < length V0 \<and> V0 ! ev_entry e = OutsideLayout \<and>
        1 \<le> ev_seq e \<and> ev_seq e \<le> run (ev_subject e) \<and> ev_actor_seq e \<le> run (ev_actor e))"

lemma wf_cands_entry:
  "wf_cands cs run V0 \<Longrightarrow> i < length cs \<Longrightarrow> j < length cs \<Longrightarrow>
     ev_entry (cs ! i) = ev_entry (cs ! j) \<longleftrightarrow> i = j"
  by (auto simp: wf_cands_def distinct_conv_nth)

lemma wf_cands_nth:
  assumes "wf_cands cs run V0" and "i < length cs"
  shows "ev_entry (cs ! i) < length V0" "V0 ! ev_entry (cs ! i) = OutsideLayout"
    "1 \<le> ev_seq (cs ! i)" "ev_seq (cs ! i) \<le> run (ev_subject (cs ! i))"
    "ev_actor_seq (cs ! i) \<le> run (ev_actor (cs ! i))"
  using assms by (auto simp: wf_cands_def)

definition add_winner :: "Event \<Rightarrow> Winner option \<Rightarrow> Winner option" where
  "add_winner e w =
     (case w of
        Some w \<Rightarrow>
          if rank (win_kind w) > rank (ev_kind e) then Some w
          else if win_kind w = ev_kind e
          then Some (w\<lparr>win_events := win_events w @ [(ev_entry e, ev_actor e)]\<rparr>)
          else Some \<lparr>win_kind = ev_kind e, win_events = [(ev_entry e, ev_actor e)]\<rparr>
      | None \<Rightarrow> Some \<lparr>win_kind = ev_kind e, win_events = [(ev_entry e, ev_actor e)]\<rparr>)"

lemma record_winner_simps [simp]:
  "ps_winners (record_winner e pass) = (ps_winners pass)(pos e := add_winner e (ps_winners pass (pos e)))"
  "ps_states (record_winner e pass) = ps_states pass"
  "ps_verdicts (record_winner e pass) = ps_verdicts pass"
  by (auto simp: record_winner_def add_winner_def pos_def Let_def fun_eq_iff split: option.splits)

lemma winner_for_add:
  assumes "winner_for cs C w"
  shows "winner_for cs (insert i C) (add_winner (cs ! i) w)"
proof (cases w)
  case None
  with assms show ?thesis by (auto simp: winner_for_def add_winner_def)
next
  case (Some w1)
  consider "rank (win_kind w1) > rank (ev_kind (cs ! i))" | "win_kind w1 = ev_kind (cs ! i)"
    | "rank (win_kind w1) < rank (ev_kind (cs ! i))"
    using rank_inj by (metis linorder_less_linear)
  then show ?thesis
  proof cases
    case 1
    with assms Some show ?thesis by (auto simp: winner_for_def add_winner_def)
  next
    case 2
    with assms Some show ?thesis by (auto simp: winner_for_def add_winner_def)
  next
    case 3
    with assms Some have "ev_kind (cs ! j) \<noteq> ev_kind (cs ! i)" if "j \<in> C" for j
      using that by (auto simp: winner_for_def)
    with 3 assms Some show ?thesis
      by (auto simp: winner_for_def add_winner_def intro: order_trans less_imp_le)
  qed
qed

lemma decide_simps [simp]:
  "ps_states (decide e v pass) = ps_states pass"
  "ps_verdicts (decide e v pass) = (ps_verdicts pass)[ev_entry e := v]"
  "ps_winners (decide e v pass) =
     (if v = Counted then (ps_winners pass)(pos e := add_winner e (ps_winners pass (pos e)))
      else ps_winners pass)"
  by (auto simp: decide_def Let_def set_verdict_def)

lemma decide_dinv:
  assumes inv: "dinv cs aside V0 B U pass" and wf: "wf_cands cs run V0"
    and i: "i < length cs" "i \<in> U" and rdy: "ready B (ps_states pass) i (cs ! i)"
    and v: "v = verdict_of aside B (ps_states pass) i (cs ! i)"
  shows "dinv cs aside V0 B (U - {i}) (decide (cs ! i) v pass)"
proof -
  let ?v = "\<lambda>j. ps_verdicts pass ! ev_entry (cs ! j)"
  let ?v' = "\<lambda>j. (ps_verdicts pass)[ev_entry (cs ! i) := v] ! ev_entry (cs ! j)"
  note D = inv [unfolded dinv_def]
  have len: "ev_entry (cs ! i) < length (ps_verdicts pass)" using D wf_cands_nth(1) [OF wf i(1)] by simp
  have v': "?v' j = (if j = i then v else ?v j)" if "j < length cs" for j
    using wf_cands_entry [OF wf that i(1)] len by (auto simp: nth_list_update)
  have "?v i = OutsideLayout" using D i by simp
  then have c: "counted_at cs ?v' q = (if v = Counted \<and> pos (cs ! i) = q
      then insert i (counted_at cs ?v q) else counted_at cs ?v q)" for q
    using v' i by (auto simp: counted_at_def split: if_splits)
  have "winner_for cs (counted_at cs ?v' q) (ps_winners (decide (cs ! i) v pass) q)" for q
    using D winner_for_add [of cs "counted_at cs ?v q" "ps_winners pass q" i] by (auto simp: c)
  moreover have "ev_entry (cs ! i) \<in> ev_entry ` set cs" using i by simp
  ultimately show ?thesis
    unfolding dinv_def
  proof (intro conjI allI impI, goal_cases)
    case (2 j)
    then have "j \<noteq> ev_entry (cs ! i)" by auto
    with 2 D show ?case by simp
  next
    case (3 j)
    with D v' [of j] show ?case by auto
  next
    case (4 j)
    with D rdy show ?case by (cases "j = i") auto
  next
    case (5 j)
    with D v v' [of j] show ?case by (cases "j = i") auto
  qed (use D in auto)
qed

subsection \<open>The worklist\<close>

text \<open>The last settled sequence of a chain, and the sequences with candidates still waiting.\<close>

definition settled_upto :: "Settling \<Rightarrow> PdnId \<Rightarrow> nat" where
  "settled_upto se m = (case se_settled se m of None \<Rightarrow> 0 | Some s \<Rightarrow> s)"

abbreviation pending_at :: "Settling \<Rightarrow> point set" where
  "pending_at se \<equiv> fst ` set (se_pending se)"

text \<open>
  \<open>qinv\<close>: \<open>A\<close> are the waiting candidates with the points they wait for, \<open>F\<close> those not looked at yet, \<open>Q\<close>
  the open sequences. Each unfinished chain has its first unsettled sequence in exactly one of the
  three queues.
\<close>

definition qinv ::
    "Event list \<Rightarrow> (PdnId \<Rightarrow> nat) \<Rightarrow> nat set \<Rightarrow> nat set \<Rightarrow> (nat \<Rightarrow> point option) \<Rightarrow> nat set \<Rightarrow>
      point set \<Rightarrow> (point \<Rightarrow> MemberState option) \<Rightarrow> Settling \<Rightarrow> bool" where
  "qinv cs run aside B A F Q states se \<longleftrightarrow>
     (\<forall>m. settled_upto se m \<le> run m) \<and>
     (\<forall>m s. states (m, s) \<noteq> None \<longleftrightarrow> 1 \<le> s \<and> s \<le> settled_upto se m) \<and>
     (\<forall>m s st. states (m, s) = Some st \<longrightarrow> settles cs run aside B m s st) \<and>
     distinct (map fst (se_pending se)) \<and> distinct (se_close se) \<and>
     Q \<inter> set (se_close se) = {} \<and> Q \<inter> pending_at se = {} \<and> set (se_close se) \<inter> pending_at se = {} \<and>
     (\<forall>q \<in> Q \<union> set (se_close se) \<union> pending_at se.
        snd q = Suc (settled_upto se (fst q)) \<and> snd q \<le> run (fst q)) \<and>
     (\<forall>m. settled_upto se m < run m \<longrightarrow>
        (m, Suc (settled_upto se m)) \<in> Q \<union> set (se_close se) \<union> pending_at se) \<and>
     (\<forall>i p. A i = Some p \<longrightarrow> i < length cs \<and> p = actor_point (cs ! i) \<and> \<not> free_actor (cs ! i) \<and>
        pos (cs ! i) \<in> pending_at se \<and>
        allows (if ev_seq (cs ! i) = 1 then no_state
                else the (states (ev_subject (cs ! i), ev_seq (cs ! i) - 1))) (ev_kind (cs ! i))) \<and>
     (\<forall>i. i \<in> F \<longleftrightarrow> i < length cs \<and>
        (Suc (settled_upto se (ev_subject (cs ! i))) < ev_seq (cs ! i) \<or> pos (cs ! i) \<in> Q)) \<and>
     F \<inter> B = {} \<and>
     (\<forall>q c. map_of (se_pending se) q = Some c \<longrightarrow> 0 < c \<and> c = card {i \<in> dom A. pos (cs ! i) = q})"

lemma qinvD:
  assumes "qinv cs run aside B A F Q states se"
  shows "settled_upto se m \<le> run m"
    and "states (m, s) \<noteq> None \<longleftrightarrow> 1 \<le> s \<and> s \<le> settled_upto se m"
    and "states (m, s) = Some st \<Longrightarrow> settles cs run aside B m s st"
    and "distinct (map fst (se_pending se))" and "distinct (se_close se)"
    and "Q \<inter> set (se_close se) = {}" and "Q \<inter> pending_at se = {}"
    and "set (se_close se) \<inter> pending_at se = {}"
    and "q \<in> Q \<union> set (se_close se) \<union> pending_at se \<Longrightarrow>
      snd q = Suc (settled_upto se (fst q)) \<and> snd q \<le> run (fst q)"
    and "settled_upto se m < run m \<Longrightarrow>
      (m, Suc (settled_upto se m)) \<in> Q \<union> set (se_close se) \<union> pending_at se"
    and "A i = Some p \<Longrightarrow> i < length cs \<and> p = actor_point (cs ! i) \<and> \<not> free_actor (cs ! i) \<and>
      pos (cs ! i) \<in> pending_at se \<and>
      allows (if ev_seq (cs ! i) = 1 then no_state
              else the (states (ev_subject (cs ! i), ev_seq (cs ! i) - 1))) (ev_kind (cs ! i))"
    and "i \<in> F \<longleftrightarrow> i < length cs \<and>
      (Suc (settled_upto se (ev_subject (cs ! i))) < ev_seq (cs ! i) \<or> pos (cs ! i) \<in> Q)"
    and "F \<inter> B = {}"
    and "map_of (se_pending se) q = Some c \<Longrightarrow> 0 < c \<and> c = card {i \<in> dom A. pos (cs ! i) = q}"
  using assms unfolding qinv_def by (elim conjE; (assumption | (drule (1) bspec; assumption) | simp))+

lemma qinvI:
  assumes "\<And>m. settled_upto se m \<le> run m"
    and "\<And>m s. states (m, s) \<noteq> None \<longleftrightarrow> 1 \<le> s \<and> s \<le> settled_upto se m"
    and "\<And>m s st. states (m, s) = Some st \<Longrightarrow> settles cs run aside B m s st"
    and "distinct (map fst (se_pending se))" and "distinct (se_close se)"
    and "Q \<inter> set (se_close se) = {}" and "Q \<inter> pending_at se = {}"
    and "set (se_close se) \<inter> pending_at se = {}"
    and "\<And>q. q \<in> Q \<union> set (se_close se) \<union> pending_at se \<Longrightarrow>
      snd q = Suc (settled_upto se (fst q)) \<and> snd q \<le> run (fst q)"
    and "\<And>m. settled_upto se m < run m \<Longrightarrow>
      (m, Suc (settled_upto se m)) \<in> Q \<union> set (se_close se) \<union> pending_at se"
    and "\<And>i p. A i = Some p \<Longrightarrow> i < length cs \<and> p = actor_point (cs ! i) \<and> \<not> free_actor (cs ! i) \<and>
      pos (cs ! i) \<in> pending_at se \<and>
      allows (if ev_seq (cs ! i) = 1 then no_state
              else the (states (ev_subject (cs ! i), ev_seq (cs ! i) - 1))) (ev_kind (cs ! i))"
    and "\<And>i. i \<in> F \<longleftrightarrow> i < length cs \<and>
      (Suc (settled_upto se (ev_subject (cs ! i))) < ev_seq (cs ! i) \<or> pos (cs ! i) \<in> Q)"
    and "F \<inter> B = {}"
    and "\<And>q c. map_of (se_pending se) q = Some c \<Longrightarrow> 0 < c \<and> c = card {i \<in> dom A. pos (cs ! i) = q}"
  shows "qinv cs run aside B A F Q states se"
  unfolding qinv_def
  by (intro conjI allI impI; (fact assms | (rule ballI, rule assms, assumption) | (rule assms)
      | (drule assms; simp)))

lemma settled_upto_upd [simp]:
  "settled_upto (se\<lparr>se_pending := a\<rparr>) = settled_upto se"
  "settled_upto (se\<lparr>se_close := b\<rparr>) = settled_upto se"
  "settled_upto (se\<lparr>se_open := b\<rparr>) = settled_upto se"
  "settled_upto (se\<lparr>se_waiting := w\<rparr>) = settled_upto se"
  "settled_upto (se\<lparr>se_awaited := x\<rparr>) = settled_upto se"
  by (simp_all add: settled_upto_def fun_eq_iff)

lemma keys_update: "fst ` set (AList.update k v m) = insert k (fst ` set m)"
  by (metis dom_fun_upd dom_map_of_conv_image_fst map_of_update option.distinct(1))

lemma keys_delete: "fst ` set (AList.delete k m) = fst ` set m - {k}"
  by (induction m) auto

lemma one_less_qinv:
  assumes inv: "qinv cs run aside B A F Q states se" and i: "A i = Some p"
  defines "q \<equiv> pos (cs ! i)"
  shows "qinv cs run aside B (A(i := None)) F Q states (one_less_pending q se)"
proof -
  note I = qinvD [OF inv]
  have q: "q \<in> pending_at se" using I(11) [OF i] by (simp add: q_def)
  then obtain c where c: "map_of (se_pending se) q = Some c" by (metis map_of_eq_None_iff not_Some_eq)
  note cnt = I(14) [OF c]
  have fin: "finite {j \<in> dom A. pos (cs ! j) = r}" for r
    by (rule finite_subset [of _ "{..<length cs}"]) (use I(11) in auto)
  have here: "{j \<in> dom (A(i := None)). pos (cs ! j) = q} = {j \<in> dom A. pos (cs ! j) = q} - {i}" by auto
  then have card: "card {j \<in> dom (A(i := None)). pos (cs ! j) = q} = c - 1"
    using cnt i fin by (simp add: q_def domI)
  have there: "{j \<in> dom (A(i := None)). pos (cs ! j) = r} = {j \<in> dom A. pos (cs ! j) = r}" if "r \<noteq> q" for r
    using that by (auto simp: q_def)
  have I8: "j < length cs \<and> p' = actor_point (cs ! j) \<and> \<not> free_actor (cs ! j) \<and>
      pos (cs ! j) \<in> pending_at se \<and> allows (if ev_seq (cs ! j) = 1 then no_state
        else the (states (ev_subject (cs ! j), ev_seq (cs ! j) - 1))) (ev_kind (cs ! j))"
    if "(A(i := None)) j = Some p'" for j p'
    using I(11) [of j p'] that by (auto split: if_splits)
  show ?thesis
  proof (cases "c - 1 = 0")
    case True
    let ?se = "se\<lparr>se_pending := AList.delete q (se_pending se), se_close := q # se_close se\<rparr>"
    have se: "one_less_pending q se = ?se" using c True by (simp add: one_less_pending_def)
    have none: "pos (cs ! j) \<noteq> q" if "(A(i := None)) j = Some p'" for j p'
      using card True fin [of q] that here by (metis (mono_tags, lifting) Diff_iff card_0_eq domI empty_iff
          finite_Diff mem_Collect_eq)
    show ?thesis
      unfolding se
    proof (rule qinvI, goal_cases)
      case 4 then show ?case using I(4) by (simp add: distinct_delete)
    next
      case 5 then show ?case using I(5,8) q by auto
    next
      case 6 then show ?case using I(6,7) q by auto
    next
      case 7 then show ?case using I(7) by (auto simp: keys_delete)
    next
      case 8 then show ?case using I(8) by (auto simp: keys_delete)
    next
      case (9 r) then show ?case using I(9) [of r] q by (auto simp: keys_delete)
    next
      case (10 m) then show ?case using I(10) [of m] by (auto simp: keys_delete)
    next
      case (11 j p') then show ?case using I8 [OF 11] none [OF 11] by (auto simp: keys_delete)
    next
      case (14 r d)
      then have "r \<noteq> q" "map_of (se_pending se) r = Some d" by (auto simp: map_of_delete split: if_splits)
      then show ?case using I(14) [of r d] there by simp
    qed (use I in simp_all)
  next
    case False
    let ?se = "se\<lparr>se_pending := AList.update q (c - 1) (se_pending se)\<rparr>"
    have se: "one_less_pending q se = ?se" using c False by (simp add: one_less_pending_def)
    have keys: "pending_at ?se = pending_at se" using q by (auto simp: keys_update)
    show ?thesis
      unfolding se
    proof (rule qinvI, goal_cases)
      case 4 then show ?case using I(4) by (simp add: distinct_update)
    next
      case (9 r) then show ?case using I(9) [of r] keys by simp
    next
      case (10 m) then show ?case using I(10) [of m] keys by simp
    next
      case (11 j p') then show ?case using I8 [OF 11] keys by simp
    next
      case (14 r d)
      then show ?case using I(14) [of r d] there [of r] card False
        by (cases "r = q") (auto simp: map_of_update)
    qed (use I keys in simp_all)
  qed
qed

lemma one_less_simps [simp]:
  "se_open (one_less_pending q se) = se_open se"
  "se_waiting (one_less_pending q se) = se_waiting se"
  "se_awaited (one_less_pending q se) = se_awaited se"
  "se_settled (one_less_pending q se) = se_settled se"
  by (auto simp: one_less_pending_def Let_def split: option.splits)

lemma waiting_not_fresh:
  assumes "qinv cs run aside B A F Q states se" and "A i = Some p"
  shows "i \<notin> F"
  using qinvD(11) [OF assms] qinvD(9) [OF assms(1), of "pos (cs ! i)"] qinvD(7) [OF assms(1)]
  by (auto simp: qinvD(12) [OF assms(1)] pos_def)

text \<open>A waiting candidate decided, whatever its verdict comes from.\<close>

definition both ::
    "Event list \<Rightarrow> (PdnId \<Rightarrow> nat) \<Rightarrow> nat set \<Rightarrow> Verdict list \<Rightarrow> nat set \<Rightarrow> (nat \<Rightarrow> point option) \<Rightarrow>
      nat set \<Rightarrow> point set \<Rightarrow> Pass \<Rightarrow> Settling \<Rightarrow> bool" where
  "both cs run aside V0 B A F Q pass se \<longleftrightarrow>
     wf_cands cs run V0 \<and> dinv cs aside V0 B (F \<union> dom A) pass \<and>
     qinv cs run aside B A F Q (ps_states pass) se"

lemma settle_one:
  assumes inv: "both cs run aside V0 B A F Q pass se" and i: "A i = Some p"
    and rdy: "ready B (ps_states pass) i (cs ! i)"
    and v: "v (cs ! i) = verdict_of aside B (ps_states pass) i (cs ! i)"
    and step: "settle_event cs v i (pass, se) = (pass', se')"
  shows "both cs run aside V0 B (A(i := None)) F Q pass' se'"
    and "ps_states pass' = ps_states pass"
    and "se_open se' = se_open se" "se_waiting se' = se_waiting se"
      "se_awaited se' = se_awaited se" "se_settled se' = se_settled se"
proof -
  note q = inv [unfolded both_def, THEN conjunct2, THEN conjunct2]
  have len: "i < length cs" using qinvD(11) [OF q i] by simp
  then have eq: "pass' = decide (cs ! i) (v (cs ! i)) pass" "se' = one_less_pending (pos (cs ! i)) se"
    using step by (auto simp: settle_event_def Let_def pos_def)
  have "F \<union> dom A - {i} = F \<union> dom (A(i := None))" using waiting_not_fresh [OF q i] by auto
  moreover have "i \<in> F \<union> dom A" using i by auto
  ultimately show "both cs run aside V0 B (A(i := None)) F Q pass' se'"
    using inv decide_dinv [OF _ _ len _ rdy v, of V0 "F \<union> dom A" run] one_less_qinv [OF q i]
    by (simp add: both_def eq)
qed (use step in \<open>auto simp: settle_event_def Let_def split: if_splits\<close>)

lemma fold_settle:
  assumes inv: "both cs run aside V0 B A F Q pass se"
    and sets: "set is \<subseteq> dom A" "distinct is"
    and rdy: "\<And>i. i \<in> set is \<Longrightarrow> ready B (ps_states pass) i (cs ! i)"
    and v: "\<And>i. i \<in> set is \<Longrightarrow> v (cs ! i) = verdict_of aside B (ps_states pass) i (cs ! i)"
    and f: "\<And>i pass se. f i (pass, se) = settle_event cs v i (pass, g i se)"
    and g: "\<And>i se. se_pending (g i se) = se_pending se \<and> se_close (g i se) = se_close se \<and>
      se_settled (g i se) = se_settled se \<and> se_open (g i se) = se_open se"
    and step: "fold f is (pass, se) = (pass', se')"
  shows "both cs run aside V0 B (A |` (- set is)) F Q pass' se'"
    and "ps_states pass' = ps_states pass"
    and "se_open se' = se_open se" "se_settled se' = se_settled se"
proof -
  have g_qinv: "qinv cs run aside B A F Q st (g i se) = qinv cs run aside B A F Q st se" for A i st se
    using g by (simp add: qinv_def settled_upto_def)
  have "both cs run aside V0 B (A |` (- set is)) F Q pass' se' \<and> ps_states pass' = ps_states pass \<and>
      se_open se' = se_open se \<and> se_settled se' = se_settled se"
    using inv sets rdy v step
  proof (induction "is" arbitrary: A pass se)
    case Nil
    then show ?case by (simp add: restrict_map_def)
  next
    case (Cons i js)
    obtain p where p: "A i = Some p" using Cons.prems(2) by auto
    obtain pass1 se1 where 1: "settle_event cs v i (pass, g i se) = (pass1, se1)" by force
    have "both cs run aside V0 B A F Q pass (g i se)" using Cons.prems(1) by (simp add: both_def g_qinv)
    from settle_one [OF this p _ _ 1] Cons.prems
    have one: "both cs run aside V0 B (A(i := None)) F Q pass1 se1" "ps_states pass1 = ps_states pass"
      "se_open se1 = se_open se" "se_settled se1 = se_settled se" using g by simp_all
    have "both cs run aside V0 B ((A(i := None)) |` (- set js)) F Q pass' se' \<and>
        ps_states pass' = ps_states pass1 \<and> se_open se' = se_open se1 \<and> se_settled se' = se_settled se1"
      by (rule Cons.IH [OF one(1)]) (use Cons.prems one f 1 in auto)
    moreover have "(A(i := None)) |` (- set js) = A |` (- set (i # js))"
      by (auto simp: restrict_map_def fun_eq_iff)
    ultimately show ?case using one by simp
  qed
  then show "both cs run aside V0 B (A |` (- set is)) F Q pass' se'"
    "ps_states pass' = ps_states pass" "se_open se' = se_open se" "se_settled se' = se_settled se"
    by simp_all
qed

subsection \<open>Closing a sequence\<close>

definition winv :: "(nat \<Rightarrow> point option) \<Rightarrow> Settling \<Rightarrow> bool" where
  "winv A se \<longleftrightarrow> distinct (map fst (se_awaited se)) \<and> map_of (se_awaited se) = A \<and>
     (\<forall>p. distinct (se_waiting se p) \<and> set (se_waiting se p) = {i. A i = Some p})"

text \<open>The invariant at the head of the loop, with \<open>A\<close> the waiting and \<open>F\<close> the untouched candidates.\<close>

definition head ::
    "Event list \<Rightarrow> (PdnId \<Rightarrow> nat) \<Rightarrow> nat set \<Rightarrow> Verdict list \<Rightarrow> nat set \<Rightarrow> (nat \<Rightarrow> point option) \<Rightarrow>
      nat set \<Rightarrow> Pass \<Rightarrow> Settling \<Rightarrow> bool" where
  "head cs run aside V0 B A F pass se \<longleftrightarrow>
     both cs run aside V0 B A F (set (se_open se)) pass se \<and> distinct (se_open se) \<and> winv A se \<and>
     (\<forall>i p. A i = Some p \<longrightarrow> ps_states pass p = None \<and> i \<notin> B)"

lemma dinv_states:
  assumes "dinv cs aside V0 B U pass" and "ps_states pass \<subseteq>\<^sub>m states"
  shows "dinv cs aside V0 B U (pass\<lparr>ps_states := states\<rparr>)"
  using assms verdict_of_mono [OF assms(2)] by (auto simp: dinv_def)

lemma ready_waiting:
  assumes "qinv cs run aside B A F Q states se" and "A i = Some p" and "wf_cands cs run V0"
    and "i \<in> B' \<or> states p \<noteq> None"
  shows "ready B' states i (cs ! i)"
proof -
  note a = qinvD(11) [OF assms(1,2)]
  have "ev_seq (cs ! i) = Suc (settled_upto se (ev_subject (cs ! i)))"
    using qinvD(9) [OF assms(1), of "pos (cs ! i)"] a by (simp add: pos_def)
  then have "ev_seq (cs ! i) = 1 \<or> states (ev_subject (cs ! i), ev_seq (cs ! i) - 1) \<noteq> None"
    using qinvD(2) [OF assms(1), of "ev_subject (cs ! i)" "ev_seq (cs ! i) - 1"] by auto
  with a assms(4) show ?thesis by (auto simp: ready_def)
qed

lemma verdict_waiting:
  assumes "qinv cs run aside B A F Q states se" and "A i = Some p"
  shows "i \<in> B' \<Longrightarrow> verdict_of aside B' states i (cs ! i) = CountedForNothing Cyclic"
    and "i \<notin> B' \<Longrightarrow> verdict_of aside B' states i (cs ! i) = judge aside (cs ! i) (the (states p))"
  using qinvD(11) [OF assms] by (auto simp: verdict_of_def)

lemma decided_at_close:
  assumes "qinv cs run aside B A F Q states se" and "q \<in> set (se_close se)"
    and "i < length cs" and "pos (cs ! i) = q"
  shows "i \<notin> F \<union> dom A"
proof
  assume "i \<in> F \<union> dom A"
  then show False
  proof
    assume "i \<in> F"
    then have "Suc (settled_upto se (fst q)) < snd q \<or> q \<in> Q"
      using qinvD(12) [OF assms(1), of i] assms(4) by (auto simp: pos_def)
    then show False using qinvD(9) [OF assms(1), of q] qinvD(6) [OF assms(1)] assms(2) by auto
  next
    assume "i \<in> dom A"
    then have "q \<in> pending_at se" using qinvD(11) [OF assms(1), of i] assms(4) by auto
    then show False using qinvD(8) [OF assms(1)] assms(2) by blast
  qed
qed

lemma winner_outcome:
  assumes "winner_for cs C w" and "K = (\<lambda>i. ev_kind (cs ! i)) ` C"
  shows "outcome st K (case w of None \<Rightarrow> st | Some w \<Rightarrow> apply_kind (win_kind w))"
proof (cases w)
  case (Some x)
  with assms have "win_kind x \<in> K" "\<forall>k\<in>K. rank k \<le> rank (win_kind x)"
    by (auto simp: winner_for_def)
  with Some show ?thesis by (auto simp: outcome_def)
qed (use assms in \<open>simp add: winner_for_def outcome_def\<close>)

text \<open>A sequence whose candidates are all decided settles at the state of its winner.\<close>

lemma decided_settles:
  assumes d: "dinv cs aside V0 B U pass"
    and sound: "\<And>m s st. ps_states pass (m, s) = Some st \<Longrightarrow> settles cs run aside B m s st"
    and known: "s0 = 0 \<or> ps_states pass (m, s0) \<noteq> None" and run: "s0 < run m"
    and decided: "\<And>i. i < length cs \<Longrightarrow> pos (cs ! i) = (m, Suc s0) \<Longrightarrow> i \<notin> U"
  shows "settles cs run aside B m (Suc s0) (after_state pass (m, Suc s0))"
proof -
  let ?S = "ps_states pass" and ?st = "state_of pass m s0"
  define f where "f i = (if free_actor (cs ! i) then no_state else the (?S (actor_point (cs ! i))))" for i
  have st: "settles cs run aside B m s0 ?st"
    using sound [of m s0] known by (cases "s0 = 0") (auto simp: state_of_def intro: settles_start)
  have dec: "ready B ?S i (cs ! i)" "ps_verdicts pass ! ev_entry (cs ! i) = verdict_of aside B ?S i (cs ! i)"
    if "i < length cs" "pos (cs ! i) = (m, Suc s0)" for i
    using d decided [OF that] that by (simp_all add: dinv_def)
  have before: "(if ev_seq (cs ! i) = 1 then no_state else the (?S (ev_subject (cs ! i), ev_seq (cs ! i) - 1))) = ?st"
    if "pos (cs ! i) = (m, Suc s0)" for i
    using that known by (auto simp: pos_def state_of_def)
  have acts: "if free_actor (cs ! i) then f i = no_state
      else settles cs run aside B (ev_actor (cs ! i)) (ev_actor_seq (cs ! i)) (f i)"
    if "i < length cs" "pos (cs ! i) = (m, Suc s0)" "allows ?st (ev_kind (cs ! i))" "i \<notin> B" for i
    using dec(1) [OF that(1,2)] that before [OF that(2)] sound
    by (auto simp: f_def ready_def actor_point_def)
  let ?C = "counted_at cs (\<lambda>i. ps_verdicts pass ! ev_entry (cs ! i)) (m, Suc s0)"
  have "ps_verdicts pass ! ev_entry (cs ! i) = Counted \<longleftrightarrow>
      allows ?st (ev_kind (cs ! i)) \<and> i \<notin> B \<and> judge aside (cs ! i) (f i) = Counted"
    if "i < length cs" "pos (cs ! i) = (m, Suc s0)" for i
    using before [OF that(2)] by (simp add: dec(2) [OF that] verdict_of_def f_def)
  then have "?C = {i. i < length cs \<and> pos (cs ! i) = (m, Suc s0) \<and> allows ?st (ev_kind (cs ! i)) \<and> i \<notin> B \<and>
      judge aside (cs ! i) (f i) = Counted}"
    unfolding counted_at_def by blast
  then have "counted_kinds cs aside B ?st f (m, Suc s0) = (\<lambda>i. ev_kind (cs ! i)) ` ?C"
    unfolding counted_kinds_def by blast
  moreover have "winner_for cs ?C (ps_winners pass (m, Suc s0))" using d by (simp add: dinv_def)
  ultimately have out: "outcome ?st (counted_kinds cs aside B ?st f (m, Suc s0)) (after_state pass (m, Suc s0))"
    using winner_outcome [of cs ?C "ps_winners pass (m, Suc s0)" _ ?st]
    by (simp add: after_state_def split: option.splits)
  show ?thesis
    by (rule settles_next [OF st, of f]) (use run acts out in auto)
qed

lemma close_settles:
  assumes inv: "both cs run aside V0 B A F Q pass se" and q: "(m, s) \<in> set (se_close se)"
  shows "settles cs run aside B m s (after_state pass (m, s))"
proof -
  have d: "dinv cs aside V0 B (F \<union> dom A) pass" and I: "qinv cs run aside B A F Q (ps_states pass) se"
    using inv by (simp_all add: both_def)
  obtain s0 where s: "s = Suc s0" "s0 = settled_upto se m" "s \<le> run m" using qinvD(9) [OF I, of "(m, s)"] q by auto
  have "settles cs run aside B m (Suc s0) (after_state pass (m, Suc s0))"
  proof (rule decided_settles [OF d])
    show "s0 = 0 \<or> ps_states pass (m, s0) \<noteq> None" using qinvD(2) [OF I, of m s0] s by auto
    show "i \<notin> F \<union> dom A" if "i < length cs" "pos (cs ! i) = (m, Suc s0)" for i
      using decided_at_close [OF I q that(1)] that(2) s(1) by simp
  qed (use qinvD(3) [OF I] s in auto)
  with s(1) show ?thesis by simp
qed

lemma close_qinv:
  fixes w :: "point \<Rightarrow> nat list"
  assumes inv: "both cs run aside V0 B A F Q pass se" and q: "se_close se = (m, s) # close"
  defines "S' \<equiv> (ps_states pass)((m, s) \<mapsto> after_state pass (m, s))"
  defines "se' \<equiv> se\<lparr>se_close := close, se_settled := (se_settled se)(m \<mapsto> s), se_waiting := w\<rparr>"
  defines "Q' \<equiv> (if s < run m then insert (m, Suc s) Q else Q)"
  shows "qinv cs run aside B A F Q' S' se'"
proof -
  have wf: "wf_cands cs run V0" and I: "qinv cs run aside B A F Q (ps_states pass) se"
    using inv by (simp_all add: both_def)
  have s: "s = Suc (settled_upto se m)" "s \<le> run m" using qinvD(9) [OF I, of "(m, s)"] q by auto
  have up: "settled_upto se' r = (if r = m then s else settled_upto se r)" for r
    by (simp add: se'_def settled_upto_def)
  have pend: "se_pending se' = se_pending se" and cl: "se_close se' = close" by (simp_all add: se'_def)
  have other: "fst r \<noteq> m" if "r \<in> Q \<union> set close \<union> pending_at se" for r
  proof
    assume "fst r = m"
    with qinvD(9) [OF I, of r] that q s have "r = (m, s)" by (cases r) auto
    with that q qinvD(5,6,8) [OF I] show False by auto
  qed
  show ?thesis
  proof (rule qinvI, goal_cases)
    case (1 r) then show ?case using qinvD(1) [OF I, of r] s by (simp add: up)
  next
    case (2 r t) then show ?case using qinvD(2) [OF I, of r t] s by (auto simp: up S'_def)
  next
    case (3 r t st)
    then show ?case using qinvD(3) [OF I, of r t st] close_settles [OF inv, of m s] q
      by (auto simp: S'_def split: if_splits)
  next
    case 4 then show ?case using qinvD(4) [OF I] by (simp add: pend)
  next
    case 5 then show ?case using qinvD(5) [OF I] q by (simp add: se'_def)
  next
    case 6 then show ?case using qinvD(6) [OF I] q other [of "(m, Suc s)"] by (auto simp: se'_def Q'_def)
  next
    case 7 then show ?case using qinvD(7) [OF I] other [of "(m, Suc s)"] by (auto simp: pend Q'_def)
  next
    case 8 then show ?case using qinvD(8) [OF I] q by (auto simp: pend se'_def)
  next
    case (9 r)
    then have "r \<in> Q \<union> set close \<union> pending_at se \<or> s < run m \<and> r = (m, Suc s)"
      by (auto simp: se'_def Q'_def split: if_splits)
    then show ?case using qinvD(9) [OF I, of r] other [of r] q by (auto simp: up)
  next
    case (10 r)
    then show ?case using qinvD(10) [OF I, of r] q by (auto simp: up Q'_def cl pend)
  next
    case (11 i p)
    note a = qinvD(11) [OF I 11]
    with other [of "pos (cs ! i)"] show ?case by (auto simp: pend S'_def pos_def)
  next
    case (12 i)
    show ?case
    proof (cases "i < length cs \<and> ev_subject (cs ! i) = m")
      case True
      then have "pos (cs ! i) \<notin> Q" using other [of "pos (cs ! i)"] by (auto simp: pos_def)
      with True wf_cands_nth(4) [OF wf, of i] qinvD(12) [OF I, of i] s show ?thesis
        by (auto simp: up Q'_def pos_def)
    next
      case False
      with qinvD(12) [OF I, of i] show ?thesis by (auto simp: up Q'_def pos_def)
    qed
  next
    case 13 then show ?case by (rule qinvD(13) [OF I])
  next
    case (14 r c) then show ?case using qinvD(14) [OF I, of r c] by (simp add: pend)
  qed
qed

lemma fold_delete: "map_of (fold AList.delete is m) = map_of m |` (- set is)"
  by (induction "is" arbitrary: m) (auto simp: map_of_delete restrict_map_def fun_eq_iff)

lemma fold_delete_distinct: "distinct (map fst m) \<Longrightarrow> distinct (map fst (fold AList.delete is m))"
  by (induction "is" arbitrary: m) (simp_all add: distinct_delete)

lemma fold_wake_queues:
  assumes "fold (wake cs aside st) is (pass, se) = (pass', se')"
  shows "se_awaited se' = fold AList.delete is (se_awaited se) \<and> se_waiting se' = se_waiting se"
  using assms
proof (induction "is" arbitrary: pass se)
  case (Cons i js)
  obtain pass1 se1 where 1: "wake cs aside st i (pass, se) = (pass1, se1)" by force
  then have "se_awaited se1 = AList.delete i (se_awaited se)" "se_waiting se1 = se_waiting se"
    by (auto simp: wake_def settle_event_def unawait_def Let_def split: if_splits)
  with Cons 1 show ?case by simp
qed simp

end
