(* ===== verification/Membership_Evaluate.thy ===== *)
theory Membership_Evaluate
  imports Membership_Settle
begin

text \<open>
  The loop of \<^verbatim>\<open>Membership_Pass\<close> keeps the invariant of \<^verbatim>\<open>Membership_Settle\<close>, and what it ends with.
\<close>

declare split_paired_All [simp del] split_paired_Ex [simp del]

lemma both_queues [simp]:
  "both cs run aside V0 B A F Q pass (se\<lparr>se_open := x\<rparr>) = both cs run aside V0 B A F Q pass se"
  "both cs run aside V0 B A F Q pass (se\<lparr>se_waiting := w\<rparr>) = both cs run aside V0 B A F Q pass se"
  "both cs run aside V0 B A F Q pass (se\<lparr>se_awaited := a\<rparr>) = both cs run aside V0 B A F Q pass se"
  by (simp_all add: both_def qinv_def)

lemma close_head:
  assumes hd: "head cs run aside V0 B A F pass se" and q: "se_close se = (m, s) # close"
    and step: "close_sequence cs aside run (m, s) (pass, se\<lparr>se_close := close\<rparr>) = (pass', se')"
  shows "\<exists>A'. head cs run aside V0 B A' F pass' se'"
proof -
  let ?Q = "set (se_open se)" and ?after = "after_state pass (m, s)"
  let ?S = "(ps_states pass)((m, s) \<mapsto> ?after)"
  let ?Q' = "if s < run m then insert (m, Suc s) ?Q else ?Q"
  let ?se = "se\<lparr>se_close := close, se_settled := (se_settled se)(m \<mapsto> s),
    se_waiting := (se_waiting se)((m, s) := [])\<rparr>"
  let ?ws = "se_waiting se (m, s)"
  have inv: "both cs run aside V0 B A F ?Q pass se" and w: "winv A se" and dist: "distinct (se_open se)"
    and idle: "\<And>i p. A i = Some p \<Longrightarrow> ps_states pass p = None \<and> i \<notin> B"
    using hd by (auto simp: head_def)
  have wf: "wf_cands cs run V0" and d: "dinv cs aside V0 B (F \<union> dom A) pass"
    and I: "qinv cs run aside B A F ?Q (ps_states pass) se"
    using inv by (simp_all add: both_def)
  have I': "qinv cs run aside B A F ?Q' ?S ?se" by (rule close_qinv [OF inv q])
  have new: "ps_states pass (m, s) = None" "(m, Suc s) \<notin> ?Q"
    using qinvD(9) [OF I, of "(m, s)"] qinvD(9) [OF I, of "(m, Suc s)"] qinvD(2) [OF I, of m s] q by auto
  have "ps_states pass \<subseteq>\<^sub>m ?S" using new by (auto simp: map_le_def)
  then have b: "both cs run aside V0 B A F ?Q' (pass\<lparr>ps_states := ?S\<rparr>) ?se"
    using wf d I' dinv_states by (simp add: both_def)
  obtain se2 where fold: "fold (wake cs aside ?after) ?ws (pass\<lparr>ps_states := ?S\<rparr>, ?se) = (pass', se2)"
    and se': "se' = (if s < run m then se2\<lparr>se_open := (m, Suc s) # se_open se2\<rparr> else se2)"
    using step by (auto simp: close_sequence_def Let_def split: prod.splits)
  have ws: "set ?ws = {i. A i = Some (m, s)}" "distinct ?ws" using w by (auto simp: winv_def)
  have "ready B ?S i (cs ! i)" if "i \<in> set ?ws" for i
    using ready_waiting [OF I' _ wf, of i "(m, s)" B] that ws by simp
  moreover have "judge aside (cs ! i) ?after = verdict_of aside B ?S i (cs ! i)" if "i \<in> set ?ws" for i
    using verdict_waiting(2) [OF I', of i "(m, s)" B] idle [of i "(m, s)"] that ws by simp
  moreover have "set ?ws \<subseteq> dom A" using ws by auto
  ultimately have two: "both cs run aside V0 B (A |` (- set ?ws)) F ?Q' pass' se2"
    "ps_states pass' = ?S" "se_open se2 = se_open se"
    using fold_settle [OF b _ ws(2) _ _ _ _ fold, of "\<lambda>e. judge aside e ?after" unawait]
    by (simp_all add: wake_def unawait_def)
  let ?A = "A |` (- set ?ws)"
  have A: "?A i = Some p \<longleftrightarrow> A i = Some p \<and> p \<noteq> (m, s)" for i p
    using ws by (auto simp: restrict_map_def)
  have "se_awaited se2 = fold AList.delete ?ws (se_awaited se)"
    "se_waiting se2 = (se_waiting se)((m, s) := [])"
    using fold_wake_queues [OF fold] by simp_all
  moreover have "map_of (se_awaited se) = A" "distinct (map fst (se_awaited se))"
    "\<And>p. distinct (se_waiting se p)" "\<And>p. set (se_waiting se p) = {i. A i = Some p}"
    using w by (simp_all add: winv_def)
  ultimately have "winv ?A se2"
    unfolding winv_def using A by (simp add: fold_delete fold_delete_distinct)
  moreover have "both cs run aside V0 B ?A F (set (se_open se')) pass' se'"
  proof (cases "s < run m")
    case True
    then show ?thesis using two(1,3) by (simp add: se')
  next
    case False
    then show ?thesis using two(1,3) by (simp add: se')
  qed
  moreover have "distinct (se_open se')" using two(3) new(2) dist by (simp add: se')
  moreover have "winv ?A se' \<longleftrightarrow> winv ?A se2" by (simp add: se' winv_def)
  moreover have "ps_states pass' p = None \<and> i \<notin> B" if "?A i = Some p" for i p
    using idle [of i p] A that two(2) by simp
  ultimately show ?thesis unfolding head_def by blast
qed

subsection \<open>Opening a sequence\<close>

lemma winv_add:
  assumes "winv A se" and "A i = None"
  shows "winv (A(i \<mapsto> p)) (se\<lparr>se_waiting := (se_waiting se)(p := se_waiting se p @ [i]),
    se_awaited := AList.update i p (se_awaited se)\<rparr>)"
proof -
  have w: "map_of (se_awaited se) = A" "distinct (map fst (se_awaited se))"
    "\<And>p. distinct (se_waiting se p)" "\<And>p. set (se_waiting se p) = {i. A i = Some p}"
    using assms(1) by (simp_all add: winv_def)
  with assms(2) show ?thesis
    unfolding winv_def by (auto simp: distinct_update map_of_update)
qed

text \<open>One candidate of an opened sequence: decided at once, or waiting for its actor's point.\<close>

lemma open_event_cases:
  assumes d: "dinv cs aside V0 B (F \<union> dom A) pass" and wf: "wf_cands cs run V0" and w: "winv A se"
    and i: "i < length cs" "i \<in> F" "i \<notin> dom A" "i \<notin> B"
    and known: "ev_seq (cs ! i) = 1 \<or> ps_states pass (ev_subject (cs ! i), ev_seq (cs ! i) - 1) \<noteq> None"
    and before: "before = (if ev_seq (cs ! i) = 1 then no_state
      else the (ps_states pass (ev_subject (cs ! i), ev_seq (cs ! i) - 1)))"
    and step: "open_event cs aside before i (pass, se, k) = (pass', se', k')"
  obtains "dinv cs aside V0 B (F - {i} \<union> dom A) pass'" "ps_states pass' = ps_states pass"
      "se' = se" "k' = k"
  | p where "p = actor_point (cs ! i)" "\<not> free_actor (cs ! i)" "allows before (ev_kind (cs ! i))"
      "ps_states pass p = None" "pass' = pass" "k' = k + 1" "winv (A(i \<mapsto> p)) se'"
      "se_open se' = se_open se" "se_close se' = se_close se" "se_pending se' = se_pending se"
      "se_settled se' = se_settled se"
proof -
  let ?e = "cs ! i" and ?S = "ps_states pass"
  have U: "F \<union> dom A - {i} = F - {i} \<union> dom A" using i(3) by auto
  show thesis
  proof (cases "allows before (ev_kind ?e) \<and> \<not> free_actor ?e \<and> ?S (actor_point ?e) = None")
    case True
    then have "actor_state pass ?e = None" by (auto simp: actor_state_def free_actor_def actor_point_def)
    with True step i have "pass' = pass" "k' = k + 1" and se': "se' =
        se\<lparr>se_waiting := (se_waiting se)(actor_point ?e := se_waiting se (actor_point ?e) @ [i]),
          se_awaited := AList.update i (actor_point ?e) (se_awaited se)\<rparr>"
      by (auto simp: open_event_def Let_def actor_point_def)
    moreover have "winv (A(i \<mapsto> actor_point ?e)) se'"
      unfolding se' using w i(3) by (intro winv_add) auto
    ultimately show thesis using that(2) True by simp
  next
    case False
    then have rdy: "ready B ?S i ?e" using known before by (auto simp: ready_def)
    let ?v = "verdict_of aside B ?S i ?e"
    have "open_event cs aside before i (pass, se, k) = (decide ?e ?v pass, se, k)"
    proof (cases "allows before (ev_kind ?e)")
      case allow: True
      then have "?v = judge aside ?e (if free_actor ?e then no_state else the (?S (actor_point ?e)))"
        using i(4) before by (simp add: verdict_of_def)
      moreover have "actor_state pass ?e = Some (if free_actor ?e then no_state else the (?S (actor_point ?e)))"
        using False allow by (auto simp: actor_state_def free_actor_def actor_point_def)
      ultimately show ?thesis using allow i(1) by (simp add: open_event_def Let_def)
    next
      case False
      with before have "?v = CountedForNothing TransitionNotAllowed" by (simp add: verdict_of_def)
      with False i(1) show ?thesis by (simp add: open_event_def Let_def)
    qed
    with step have eq: "pass' = decide ?e ?v pass" "se' = se" "k' = k" by simp_all
    have "dinv cs aside V0 B (F - {i} \<union> dom A) pass'"
      unfolding eq U [symmetric] using d wf i rdy by (intro decide_dinv) auto
    then show thesis using that(1) eq by simp
  qed
qed

text \<open>The candidates \<open>J\<close> of an opened sequence are handled; those of \<open>N\<close> among them wait.\<close>

definition opened ::
    "Event list \<Rightarrow> nat set \<Rightarrow> Verdict list \<Rightarrow> nat set \<Rightarrow> MemberState \<Rightarrow> nat set \<Rightarrow> (nat \<Rightarrow> point option) \<Rightarrow>
      (point \<Rightarrow> MemberState option) \<Rightarrow> Settling \<Rightarrow> nat set \<Rightarrow> (nat \<Rightarrow> point option) \<Rightarrow> Pass \<times> Settling \<times> nat \<Rightarrow> bool" where
  "opened cs aside V0 B before F A S se0 J N = (\<lambda>(pass, se, k).
     dom N \<subseteq> J \<and> dinv cs aside V0 B (F - J \<union> dom (A ++ N)) pass \<and> winv (A ++ N) se \<and>
     ps_states pass = S \<and> k = card (dom N) \<and>
     se_open se = se_open se0 \<and> se_close se = se_close se0 \<and> se_pending se = se_pending se0 \<and>
     se_settled se = se_settled se0 \<and>
     (\<forall>i p. N i = Some p \<longrightarrow> p = actor_point (cs ! i) \<and> \<not> free_actor (cs ! i) \<and>
        allows before (ev_kind (cs ! i)) \<and> S p = None))"

lemma open_event_opened:
  assumes op: "opened cs aside V0 B before F A S se0 J N (pass, se, k)" and wf: "wf_cands cs run V0"
    and i: "i < length cs" "i \<in> F" "i \<notin> J" "F \<inter> dom A = {}" "F \<inter> B = {}" "J \<subseteq> F"
    and pos: "ev_subject (cs ! i) = m" "ev_seq (cs ! i) = s"
    and known: "s = 1 \<or> S (m, s - 1) \<noteq> None"
    and before: "before = (if s = 1 then no_state else the (S (m, s - 1)))"
    and step: "open_event cs aside before i (pass, se, k) = (pass', se', k')"
  shows "\<exists>N'. opened cs aside V0 B before F A S se0 (insert i J) N' (pass', se', k')"
proof -
  have N: "dom N \<subseteq> J" "dinv cs aside V0 B ((F - J) \<union> dom (A ++ N)) pass" "winv (A ++ N) se"
    "ps_states pass = S" "k = card (dom N)"
    "se_open se = se_open se0" "se_close se = se_close se0" "se_pending se = se_pending se0"
    "se_settled se = se_settled se0"
    "\<And>i p. N i = Some p \<Longrightarrow> p = actor_point (cs ! i) \<and> \<not> free_actor (cs ! i) \<and>
        allows before (ev_kind (cs ! i)) \<and> S p = None"
    using op by (simp_all add: opened_def)
  have fresh: "i \<in> F - J" "i \<notin> dom (A ++ N)" "i \<notin> B" "i \<notin> dom N" using i N(1) by auto
  have minus: "F - J - {i} = F - insert i J" by auto
  have kn: "ev_seq (cs ! i) = 1 \<or> ps_states pass (ev_subject (cs ! i), ev_seq (cs ! i) - 1) \<noteq> None"
    "before = (if ev_seq (cs ! i) = 1 then no_state
      else the (ps_states pass (ev_subject (cs ! i), ev_seq (cs ! i) - 1)))"
    using known before by (simp_all add: pos N(4))
  show ?thesis
  proof (rule open_event_cases [OF N(2) wf N(3) i(1) fresh(1-3) kn step], goal_cases)
    case 1
    show ?case
      unfolding opened_def prod.case minus [symmetric]
      by (intro exI [of _ N] conjI allI impI) (use N(1,4-9) N(3) N(10) 1 in \<open>simp_all add: subset_insertI2\<close>)
  next
    case (2 p)
    have U: "(F - insert i J) \<union> dom ((A ++ N)(i \<mapsto> p)) = (F - J) \<union> dom (A ++ N)"
      using fresh by auto
    have "finite (dom (A ++ N))" using N(3) by (metis winv_def finite_dom_map_of)
    then have card: "card (dom (N(i \<mapsto> p))) = card (dom N) + 1" using fresh(4) by simp
    have new: "(N(i \<mapsto> p)) j = Some r \<Longrightarrow> r = actor_point (cs ! j) \<and> \<not> free_actor (cs ! j) \<and>
        allows before (ev_kind (cs ! j)) \<and> S r = None" for j r
      using 2(1-4) N(4) N(10) by (auto split: if_splits)
    have sub: "dom (N(i \<mapsto> p)) \<subseteq> insert i J" using N(1) by auto
    show ?case unfolding opened_def prod.case
      by (intro exI [of _ "N(i \<mapsto> p)"] conjI allI impI, rule sub)
        (use N(2,4-9) card U 2(5-) new in \<open>simp_all del: dom_fun_upd\<close>)
  qed
qed

lemma open_fold:
  assumes "opened cs aside V0 B before F A S se0 J N x" and wf: "wf_cands cs run V0"
    and F: "F \<inter> dom A = {}" "F \<inter> B = {}"
    and known: "s = 1 \<or> S (m, s - 1) \<noteq> None"
    and before: "before = (if s = 1 then no_state else the (S (m, s - 1)))"
    and "set is \<subseteq> F - J" "distinct is" "J \<subseteq> F" "\<forall>i\<in>set is. i < length cs \<and> pos (cs ! i) = (m, s)"
  shows "\<exists>N'. opened cs aside V0 B before F A S se0 (J \<union> set is) N' (fold (open_event cs aside before) is x)"
  using assms(1,7-)
proof (induction "is" arbitrary: J N x)
  case Nil
  then show ?case by auto
next
  case (Cons i js)
  obtain pass se k pass' se' k' where x: "x = (pass, se, k)"
    "open_event cs aside before i (pass, se, k) = (pass', se', k')"
    by (metis prod_cases3)
  have "\<exists>N'. opened cs aside V0 B before F A S se0 (insert i J) N' (pass', se', k')"
    by (rule open_event_opened [OF Cons.prems(1) [unfolded x(1)] wf _ _ _ F _ _ _ known before x(2)])
      (use Cons.prems(2-) in \<open>auto simp: pos_def\<close>)
  then obtain N' where N': "opened cs aside V0 B before F A S se0 (insert i J) N' (pass', se', k')" ..
  have "\<exists>N''. opened cs aside V0 B before F A S se0 (insert i J \<union> set js) N''
      (fold (open_event cs aside before) js (pass', se', k'))"
    by (rule Cons.IH [OF N']) (use Cons.prems(2-) in auto)
  then show ?case using x by simp
qed

lemma open_qinv:
  assumes I: "qinv cs run aside B A F Q states se" and q: "(m, s) \<in> Q"
    and N: "dom N \<subseteq> here" and fin: "finite (dom N)"
    and here: "here = {i. i < length cs \<and> pos (cs ! i) = (m, s)}"
    and new: "\<And>i p. N i = Some p \<Longrightarrow> p = actor_point (cs ! i) \<and> \<not> free_actor (cs ! i) \<and>
       allows (if s = 1 then no_state else the (states (m, s - 1))) (ev_kind (cs ! i)) \<and> states p = None"
    and se': "se' = (if card (dom N) = 0 then se\<lparr>se_close := (m, s) # se_close se\<rparr>
      else se\<lparr>se_pending := AList.update (m, s) (card (dom N)) (se_pending se)\<rparr>)"
  shows "qinv cs run aside B (A ++ N) (F - here) (Q - {(m, s)}) states se'"
proof -
  note D = qinvD [OF I]
  have upto: "settled_upto se' = settled_upto se" by (simp add: se')
  have qs: "s = Suc (settled_upto se m)" "s \<le> run m" using D(9) [of "(m, s)"] q by auto
  have out: "(m, s) \<notin> set (se_close se)" "(m, s) \<notin> pending_at se" using D(6,7) q by auto
  have queues: "set (se_close se') \<union> pending_at se' = insert (m, s) (set (se_close se) \<union> pending_at se)"
    using fin by (auto simp: se' keys_update)
  have all: "Q - {(m, s)} \<union> set (se_close se') \<union> pending_at se' = Q \<union> set (se_close se) \<union> pending_at se"
    unfolding Un_assoc queues using q by blast
  have old: "pos (cs ! i) \<noteq> (m, s)" if "i \<in> dom A" for i
    using D(11) [of i] that out by auto
  have none: "N = Map.empty" if "card (dom N) = 0" using fin that by simp
  have sub: "pending_at se \<subseteq> pending_at se'" by (auto simp: se' keys_update)
  have at_q: "pos (cs ! i) = (m, s) \<and> i < length cs" if "N i = Some p" for i p
    using N here that by auto
  have dis: "dom A \<inter> dom N = {}" using old at_q by auto
  show ?thesis
  proof (rule qinvI, goal_cases)
    case 1 then show ?case using D(1) by (simp add: upto)
  next
    case 2 then show ?case using D(2) by (simp add: upto)
  next
    case 3 then show ?case using D(3) by simp
  next
    case 4 then show ?case using D(4) by (simp add: se' distinct_update)
  next
    case 5 then show ?case using D(5) out by (simp add: se')
  next
    case 6 then show ?case using D(6) by (auto simp: se')
  next
    case 7 then show ?case using D(7) by (auto simp: se' keys_update)
  next
    case 8 then show ?case using D(8) out by (auto simp: se' keys_update)
  next
    case (9 r) then show ?case unfolding upto all by (rule D(9))
  next
    case (10 k) then show ?case unfolding upto all by (rule D(10))
  next
    case (11 i p)
    then consider "N i = Some p" | "A i = Some p" by auto
    then show ?case
    proof cases
      case 1
      then have "card (dom N) \<noteq> 0" using fin by auto
      then have "(m, s) \<in> pending_at se'" by (simp add: se' keys_update)
      with new [OF 1] at_q [OF 1] show ?thesis by (auto simp: pos_def)
    next
      case 2 then show ?thesis using D(11) [OF 2] sub by blast
    qed
  next
    case (12 i)
    have "i \<in> here \<Longrightarrow> \<not> Suc (settled_upto se (ev_subject (cs ! i))) < ev_seq (cs ! i)"
      using qs by (auto simp: here pos_def)
    then show ?case unfolding upto using D(12) [of i] by (auto simp: here)
  next
    case 13 then show ?case using D(13) by auto
  next
    case (14 r c)
    show ?case
    proof (cases "r = (m, s)")
      case True
      have "{i \<in> dom (A ++ N). pos (cs ! i) = r} = dom N" using old at_q by (auto simp: True)
      moreover have "map_of (se_pending se) (m, s) = None" using out(2) by (simp add: map_of_eq_None_iff)
      then have "c = card (dom N) \<and> card (dom N) \<noteq> 0"
        using 14 by (simp add: se' map_of_update True split: if_splits)
      ultimately show ?thesis by simp
    next
      case False
      then have "map_of (se_pending se) r = Some c" using 14 by (simp add: se' map_of_update split: if_splits)
      moreover have "{i \<in> dom (A ++ N). pos (cs ! i) = r} = {i \<in> dom A. pos (cs ! i) = r}"
        using at_q False by auto
      ultimately show ?thesis using D(14) [of r c] by simp
    qed
  qed
qed

lemma open_head:
  assumes hd: "head cs run aside V0 B A F pass se" and q: "se_open se = (m, s) # rest"
    and step: "open_sequence cs aside (m, s) (pass, se\<lparr>se_open := rest\<rparr>) = (pass', se')"
  shows "\<exists>A' F'. head cs run aside V0 B A' F' pass' se'"
proof -
  let ?Q = "set (se_open se)" and ?S = "ps_states pass" and ?se = "se\<lparr>se_open := rest\<rparr>"
  let ?here = "{i. i < length cs \<and> pos (cs ! i) = (m, s)}"
  let ?before = "if s = 1 then no_state else the (?S (m, s - 1))"
  have inv: "both cs run aside V0 B A F ?Q pass se" and w: "winv A se" and dist: "distinct (se_open se)"
    and idle: "\<And>i p. A i = Some p \<Longrightarrow> ?S p = None \<and> i \<notin> B"
    using hd by (auto simp: head_def)
  have wf: "wf_cands cs run V0" and d: "dinv cs aside V0 B (F \<union> dom A) pass"
    and I: "qinv cs run aside B A F ?Q ?S se"
    using inv by (simp_all add: both_def)
  have qin: "(m, s) \<in> ?Q" using q by simp
  have qs: "s = Suc (settled_upto se m)" using qinvD(9) [OF I, of "(m, s)"] q by auto
  then have known: "s = 1 \<or> ?S (m, s - 1) \<noteq> None" using qinvD(2) [OF I, of m "s - 1"] by auto
  then have before: "state_of pass m (s - 1) = ?before" using qs by (auto simp: state_of_def)
  have ixs: "set (hget_or [] (at_map cs) (m, s)) = ?here" "distinct (hget_or [] (at_map cs) (m, s))"
    by (auto simp: hget_at_map pos_def)
  have F: "?here \<subseteq> F" using qin by (simp add: subset_iff qinvD(12) [OF I])
  have disj: "F \<inter> dom A = {}" "F \<inter> B = {}"
    using waiting_not_fresh [OF I] qinvD(13) [OF I] by auto
  have "opened cs aside V0 B ?before F A ?S ?se {} Map.empty (pass, ?se, 0)"
    using d w by (simp add: opened_def winv_def)
  then have "\<exists>N. opened cs aside V0 B ?before F A ?S ?se ({} \<union> set (hget_or [] (at_map cs) (m, s))) N
      (fold (open_event cs aside ?before) (hget_or [] (at_map cs) (m, s)) (pass, ?se, 0))"
    proof (rule open_fold [OF _ wf disj, where s = s and m = m], goal_cases)
    case 1 show ?case by (fact known)
  next
    case 3 show ?case unfolding ixs(1) using F by simp
  next
    case 4 show ?case by (fact ixs(2))
  next
    case 6 show ?case unfolding ixs(1) by simp
  qed simp_all
  moreover obtain pass1 se1 k where fold:
      "fold (open_event cs aside ?before) (hget_or [] (at_map cs) (m, s)) (pass, ?se, 0) = (pass1, se1, k)"
    by (metis prod_cases3)
  ultimately obtain N where op: "opened cs aside V0 B ?before F A ?S ?se ?here N (pass1, se1, k)"
    unfolding ixs(1) fold Un_empty_left by (elim exE)
  have N: "dom N \<subseteq> ?here" "dinv cs aside V0 B ((F - ?here) \<union> dom (A ++ N)) pass1" "winv (A ++ N) se1"
    "ps_states pass1 = ?S" "k = card (dom N)"
    "se_open se1 = rest" "se_close se1 = se_close se" "se_pending se1 = se_pending se"
    "se_settled se1 = se_settled se"
    "\<And>i p. N i = Some p \<Longrightarrow> p = actor_point (cs ! i) \<and> \<not> free_actor (cs ! i) \<and>
        allows ?before (ev_kind (cs ! i)) \<and> ?S p = None"
    using op by (simp_all add: opened_def)
  have pass': "pass' = pass1" and se': "se' = (if card (dom N) = 0 then se1\<lparr>se_close := (m, s) # se_close se1\<rparr>
      else se1\<lparr>se_pending := AList.update (m, s) (card (dom N)) (se_pending se1)\<rparr>)"
    using step N(5) unfolding open_sequence_def prod.case fst_conv snd_conv Let_def before fold
    by (auto split: if_splits)
  have "qinv cs run aside B A F ?Q ?S se1" 
    using I unfolding qinv_def settled_upto_def N(7-9) .
  then have "qinv cs run aside B (A ++ N) (F - ?here) (?Q - {(m, s)}) ?S se'"
    by (rule open_qinv [OF _ qin N(1) _ refl N(10) se'])
      (use finite_subset [OF N(1)] in simp)
  moreover have "se_open se' = rest" "?Q - {(m, s)} = set rest" "winv (A ++ N) se'"
    using N(3,6) q dist by (auto simp: se' winv_def)
  moreover have "?S p = None \<and> i \<notin> B" if "(A ++ N) i = Some p" for i p
  proof (cases "N i")
    case None
    with that idle [of i p] show ?thesis by (simp add: map_add_def)
  next
    case (Some r)
    then have "i \<in> F" using N(1) F by blast
    with that Some N(10) [of i r] disj(2) show ?thesis by auto
  qed
  ultimately have "head cs run aside V0 B (A ++ N) (F - ?here) pass' se'"
    using wf N(2,4) q dist by (simp add: head_def both_def pass')
  then show ?thesis by blast
qed

end
