(* ===== verification/Membership_Rounds.thy ===== *)
theory Membership_Rounds
  imports Membership_Evaluate Components
begin

text \<open>
  What the loop of \<^verbatim>\<open>Membership_Pass\<close> decides when nothing is left to open or close: the events that wait
  are those of \<open>awaiting\<close>, and a round counts for nothing those on a cycle of waits. The rounds are a
  relation on the sets of broken events alone, so the order a map is walked in does not show.
\<close>

subsection \<open>The waits, by what has settled\<close>

definition settled_at ::
    "Event list \<Rightarrow> (PdnId \<Rightarrow> nat) \<Rightarrow> nat set \<Rightarrow> nat set \<Rightarrow> PdnId \<Rightarrow> nat \<Rightarrow> bool" where
  "settled_at cs run aside B m s \<longleftrightarrow> (\<exists>st. settles cs run aside B m s st)"

definition awaiting :: "Event list \<Rightarrow> (PdnId \<Rightarrow> nat) \<Rightarrow> nat set \<Rightarrow> nat set \<Rightarrow> nat set" where
  "awaiting cs run aside B = {i. i < length cs \<and> i \<notin> B \<and> \<not> free_actor (cs ! i) \<and>
     (\<exists>st. settles cs run aside B (ev_subject (cs ! i)) (ev_seq (cs ! i) - 1) st \<and> allows st (ev_kind (cs ! i))) \<and>
     \<not> settled_at cs run aside B (ev_subject (cs ! i)) (ev_seq (cs ! i)) \<and>
     \<not> settled_at cs run aside B (ev_actor (cs ! i)) (ev_actor_seq (cs ! i))}"

definition waits :: "Event list \<Rightarrow> nat set \<Rightarrow> (nat \<times> nat) set" where
  "waits cs W = {(i, j). i \<in> W \<and> j \<in> W \<and> ev_subject (cs ! j) = ev_actor (cs ! i)}"

definition on_cycle :: "Event list \<Rightarrow> nat set \<Rightarrow> nat set" where
  "on_cycle cs W = {i. (i, i) \<in> (waits cs W)\<^sup>+}"

inductive rounds_to ::
    "Event list \<Rightarrow> (PdnId \<Rightarrow> nat) \<Rightarrow> nat set \<Rightarrow> nat \<Rightarrow> nat set \<Rightarrow> nat set \<Rightarrow> bool"
  for cs run aside where
  rounds_end: "awaiting cs run aside B = {} \<Longrightarrow> rounds_to cs run aside r B B"
| rounds_break: "awaiting cs run aside B \<noteq> {} \<Longrightarrow> r < LOOP_ROUNDS \<Longrightarrow>
    rounds_to cs run aside (r + 1) (B \<union> on_cycle cs (awaiting cs run aside B)) B' \<Longrightarrow>
    rounds_to cs run aside r B B'"
| rounds_give_up: "awaiting cs run aside B \<noteq> {} \<Longrightarrow> \<not> r < LOOP_ROUNDS \<Longrightarrow>
    rounds_to cs run aside r (B \<union> awaiting cs run aside B) B' \<Longrightarrow>
    rounds_to cs run aside r B B'"

inductive_cases rounds_toE: "rounds_to cs run aside r B B'"

lemma rounds_to_fun: "rounds_to cs run aside r B C \<Longrightarrow> rounds_to cs run aside r B C' \<Longrightarrow> C = C'"
proof (induction arbitrary: C' rule: rounds_to.induct)
  case (rounds_end B r)
  from rounds_end.prems show ?case by (rule rounds_toE) (use rounds_end.hyps in simp_all)
next
  case (rounds_break B r C)
  from rounds_break.prems show ?case by (rule rounds_toE) (use rounds_break.hyps in simp, rule rounds_break.IH, simp, use rounds_break.hyps in simp)
next
  case (rounds_give_up B r C)
  from rounds_give_up.prems show ?case by (rule rounds_toE) (use rounds_give_up.hyps in simp, use rounds_give_up.hyps in simp, rule rounds_give_up.IH, simp)
qed

lemma on_cycle_subset: "on_cycle cs W \<subseteq> W"
  by (auto simp: on_cycle_def waits_def dest: tranclD)

subsection \<open>Nothing left to open or close\<close>

lemma barrier_settled:
  assumes hd: "head cs run aside V0 B A F pass se" and queues: "se_open se = []" "se_close se = []"
    and "settles cs run aside B m s st"
  shows "s = 0 \<or> ps_states pass (m, s) = Some st"
proof -
  let ?S = "ps_states pass"
  have I: "qinv cs run aside B A F {} ?S se" and idle: "\<And>i p. A i = Some p \<Longrightarrow> ?S p = None \<and> i \<notin> B"
    using hd queues by (auto simp: head_def both_def)
  from assms(4) show ?thesis
  proof (induction rule: settles.induct)
    case (settles_next m s st f st')
    have "?S (m, Suc s) \<noteq> None"
    proof
      assume none: "?S (m, Suc s) = None"
      have "s = 0 \<or> ?S (m, s) \<noteq> None" using settles_next.IH(1) by auto
      then have upto: "settled_upto se m = s"
        using qinvD(2) [OF I, of m s] qinvD(2) [OF I, of m "Suc s"] none by auto
      then have "(m, Suc s) \<in> pending_at se"
        using qinvD(10) [OF I, of m] settles_next.hyps(2) queues by simp
      then obtain c where "map_of (se_pending se) (m, Suc s) = Some c"
        by (metis map_of_eq_None_iff not_Some_eq)
      from qinvD(14) [OF I this] have "{i \<in> dom A. pos (cs ! i) = (m, Suc s)} \<noteq> {}"
        by (metis card.empty less_irrefl)
      then obtain i p where i: "A i = Some p" "pos (cs ! i) = (m, Suc s)" by auto
      have "s = 0 \<Longrightarrow> st = no_state" using settles_next.hyps(1) settles_0E by blast
      then have a: "allows st (ev_kind (cs ! i))" "i < length cs" "\<not> free_actor (cs ! i)" "p = actor_point (cs ! i)"
        using qinvD(11) [OF I i(1)] settles_next.IH(1) i(2) by (auto simp: pos_def split: if_splits)
      then have "pos (cs ! i) = (m, Suc s) \<and> allows st (ev_kind (cs ! i)) \<and> i \<notin> B" using i(2) idle [OF i(1)] by simp
      from settles_next.IH(2) [rule_format, OF a(2) this] a(3)
      have "ev_actor_seq (cs ! i) = 0 \<or> ?S (actor_point (cs ! i)) = Some (f i)" by (simp add: actor_point_def)
      with a idle [OF i(1)] show False by (simp add: free_actor_def)
    qed
    then obtain st1 where st1: "?S (m, Suc s) = Some st1" by auto
    have "settles cs run aside B m (Suc s) st'"
    proof (rule settles.settles_next [where f = f])
      show "\<forall>i<length cs. pos (cs ! i) = (m, Suc s) \<and> allows st (ev_kind (cs ! i)) \<and> i \<notin> B \<longrightarrow>
          (if free_actor (cs ! i) then f i = no_state
           else settles cs run aside B (ev_actor (cs ! i)) (ev_actor_seq (cs ! i)) (f i))"
      proof (intro allI impI)
        fix i assume "i < length cs" "pos (cs ! i) = (m, Suc s) \<and> allows st (ev_kind (cs ! i)) \<and> i \<notin> B"
        from settles_next.IH(2) [rule_format, OF this]
        show "if free_actor (cs ! i) then f i = no_state
          else settles cs run aside B (ev_actor (cs ! i)) (ev_actor_seq (cs ! i)) (f i)"
          by (simp split: if_splits)
      qed
    qed (use settles_next.hyps in simp_all)
    from settles_fun [OF this qinvD(3) [OF I st1]] st1 show ?case by simp
  qed simp
qed

lemma barrier_settled_at:
  assumes hd: "head cs run aside V0 B A F pass se" and queues: "se_open se = []" "se_close se = []"
  shows "settled_at cs run aside B m s \<longleftrightarrow> s \<le> settled_upto se m"
proof -
  have I: "qinv cs run aside B A F {} (ps_states pass) se" using hd queues by (auto simp: head_def both_def)
  show ?thesis
  proof (cases "s = 0")
    case True
    then show ?thesis by (auto simp: settled_at_def intro: settles_start)
  next
    case False
    then have "settled_at cs run aside B m s \<longleftrightarrow> ps_states pass (m, s) \<noteq> None"
      unfolding settled_at_def using barrier_settled [OF assms, of m s] qinvD(3) [OF I, of m s]
      by (metis not_None_eq)
    with False show ?thesis using qinvD(2) [OF I, of m s] by auto
  qed
qed

lemma barrier_awaiting:
  assumes hd: "head cs run aside V0 B A F pass se" and queues: "se_open se = []" "se_close se = []"
  shows "dom A = awaiting cs run aside B"
    and "i \<in> dom A \<Longrightarrow> ev_seq (cs ! i) = Suc (settled_upto se (ev_subject (cs ! i)))"
    and "i \<in> dom A \<Longrightarrow> \<not> settles cs run aside B (ev_subject (cs ! i)) (ev_seq (cs ! i)) st"
proof -
  let ?S = "ps_states pass"
  have I: "qinv cs run aside B A F {} ?S se" and idle: "\<And>i p. A i = Some p \<Longrightarrow> ?S p = None \<and> i \<notin> B"
    and d: "dinv cs aside V0 B (F \<union> dom A) pass" and wf: "wf_cands cs run V0"
    using hd queues by (auto simp: head_def both_def)
  note at = barrier_settled_at [OF assms]
  have before: "settles cs run aside B m (s - 1) (if s = 1 then no_state else the (?S (m, s - 1)))"
    if "1 \<le> s" "s - 1 \<le> settled_upto se m" for m s
    using that qinvD(2,3) [OF I, of m "s - 1"] by (auto intro: settles_start)
  have here: "ev_seq (cs ! i) = Suc (settled_upto se (ev_subject (cs ! i)))" if "i \<in> dom A" for i
    using qinvD(11) [OF I] qinvD(9) [OF I, of "pos (cs ! i)"] that by (auto simp: pos_def)
  then show "i \<in> dom A \<Longrightarrow> ev_seq (cs ! i) = Suc (settled_upto se (ev_subject (cs ! i)))" .
  from here show "i \<in> dom A \<Longrightarrow> \<not> settles cs run aside B (ev_subject (cs ! i)) (ev_seq (cs ! i)) st"
    using at [of "ev_subject (cs ! i)" "ev_seq (cs ! i)"] by (auto simp: settled_at_def)
  have "i \<in> awaiting cs run aside B" if "A i = Some p" for i p
  proof -
    note a = qinvD(11) [OF I that] and s = here [OF domI, OF that]
    have "ev_actor_seq (cs ! i) \<noteq> 0" using a by (simp add: free_actor_def)
    then have "\<not> settled_at cs run aside B (ev_actor (cs ! i)) (ev_actor_seq (cs ! i))"
      using a idle [OF that] qinvD(2) [OF I, of "ev_actor (cs ! i)" "ev_actor_seq (cs ! i)"]
      by (simp add: at actor_point_def)
    moreover have "\<not> settled_at cs run aside B (ev_subject (cs ! i)) (ev_seq (cs ! i))" using s by (simp add: at)
    ultimately show ?thesis
      using a idle [OF that] before [of "ev_seq (cs ! i)" "ev_subject (cs ! i)"] s
      unfolding awaiting_def by auto
  qed
  moreover have "i \<in> dom A" if i: "i \<in> awaiting cs run aside B" for i
  proof (rule ccontr)
    assume out: "i \<notin> dom A"
    obtain st where st: "settles cs run aside B (ev_subject (cs ! i)) (ev_seq (cs ! i) - 1) st"
      "allows st (ev_kind (cs ! i))" and n: "i < length cs" "i \<notin> B" "\<not> free_actor (cs ! i)"
      "\<not> settled_upto se (ev_subject (cs ! i)) \<ge> ev_seq (cs ! i)"
      "\<not> settled_upto se (ev_actor (cs ! i)) \<ge> ev_actor_seq (cs ! i)"
      using i by (auto simp: awaiting_def at)
    have "settled_at cs run aside B (ev_subject (cs ! i)) (ev_seq (cs ! i) - 1)"
      using st(1) by (auto simp: settled_at_def)
    then have s: "ev_seq (cs ! i) = Suc (settled_upto se (ev_subject (cs ! i)))" using n(4) by (simp add: at)
    then have "i \<notin> F" by (simp add: qinvD(12) [OF I])
    with d n(1) out have "ready B ?S i (cs ! i)" by (simp add: dinv_def)
    moreover have "st = (if ev_seq (cs ! i) = 1 then no_state else the (?S (ev_subject (cs ! i), ev_seq (cs ! i) - 1)))"
      using settles_fun [OF st(1) before] s by simp
    ultimately have "?S (actor_point (cs ! i)) \<noteq> None" using st(2) n(2,3) by (simp add: ready_def)
    then show False using n(5) qinvD(2) [OF I, of "ev_actor (cs ! i)" "ev_actor_seq (cs ! i)"]
      by (auto simp: actor_point_def)
  qed
  ultimately show "dom A = awaiting cs run aside B" by blast
qed

subsection \<open>Counting waiting events for nothing\<close>

lemma more_both:
  assumes hd: "head cs run aside V0 B A F pass se" and queues: "se_open se = []" "se_close se = []"
    and W: "W \<subseteq> dom A"
  shows "both cs run aside V0 (B \<union> W) A F {} pass se"
proof -
  let ?S = "ps_states pass"
  have I: "qinv cs run aside B A F {} ?S se" and d: "dinv cs aside V0 B (F \<union> dom A) pass"
    and wf: "wf_cands cs run V0"
    using hd queues by (auto simp: head_def both_def)
  have more: "settles cs run aside (B \<union> W) m s st" if "settles cs run aside B m s st" for m s st
    using that
  proof (rule settles_more)
    fix i st assume "i \<in> B \<union> W - B"
    then have i: "i \<in> dom A" using W by auto
    then show "i < length cs \<and> \<not> settles cs run aside B (ev_subject (cs ! i)) (ev_seq (cs ! i)) st"
      using barrier_awaiting(3) [OF hd queues i] qinvD(11) [OF I] by auto
  qed simp
  have F: "F \<inter> (B \<union> W) = {}" using qinvD(13) [OF I] waiting_not_fresh [OF I] W by auto
  have "qinv cs run aside (B \<union> W) A F {} ?S se"
  proof (rule qinvI, goal_cases)
    case 1 show ?case by (rule qinvD(1) [OF I])
  next case 2 show ?case by (rule qinvD(2) [OF I])
  next case 3 then show ?case by (intro more qinvD(3) [OF I])
  next case 4 show ?case by (rule qinvD(4) [OF I])
  next case 5 show ?case by (rule qinvD(5) [OF I])
  next case 6 show ?case by (rule qinvD(6) [OF I])
  next case 7 show ?case by (rule qinvD(7) [OF I])
  next case 8 show ?case by (rule qinvD(8) [OF I])
  next case 9 then show ?case by (rule qinvD(9) [OF I])
  next case 10 then show ?case by (rule qinvD(10) [OF I])
  next case 11 then show ?case by (rule qinvD(11) [OF I])
  next case 12 show ?case by (rule qinvD(12) [OF I])
  next case 13 show ?case by (rule F)
  next case 14 then show ?case by (rule qinvD(14) [OF I])
  qed
  moreover have "dinv cs aside V0 (B \<union> W) (F \<union> dom A) pass"
  proof -
    have "ready (B \<union> W) ?S i (cs ! i) = ready B ?S i (cs ! i)"
      "verdict_of aside (B \<union> W) ?S i (cs ! i) = verdict_of aside B ?S i (cs ! i)" if "i \<notin> F \<union> dom A" for i
      using that W by (auto simp: ready_def verdict_of_def)
    with d show ?thesis by (simp add: dinv_def)
  qed
  ultimately show ?thesis using wf by (simp add: both_def)
qed

lemma fold_cyclic:
  assumes hd: "head cs run aside V0 B A F pass se" and queues: "se_open se = []" "se_close se = []"
    and W: "set is \<subseteq> dom A" "distinct is"
    and f: "\<And>i pass se. f i (pass, se) = settle_event cs (\<lambda>_. CountedForNothing Cyclic) i (pass, g i se)"
    and g: "\<And>i se. se_pending (g i se) = se_pending se \<and> se_close (g i se) = se_close se \<and>
      se_settled (g i se) = se_settled se \<and> se_open (g i se) = se_open se"
    and step: "fold f is (pass, se\<lparr>se_waiting := wt, se_awaited := aw\<rparr>) = (pass', se')"
    and w: "winv (A |` (- set is)) se'"
  shows "head cs run aside V0 (B \<union> set is) (A |` (- set is)) F pass' se'"
proof -
  let ?S = "ps_states pass" and ?B = "B \<union> set is"
  have b: "both cs run aside V0 ?B A F {} pass (se\<lparr>se_waiting := wt, se_awaited := aw\<rparr>)"
    using more_both [OF hd queues W(1)] by simp
  then have I: "qinv cs run aside ?B A F {} ?S se" "wf_cands cs run V0"
    using more_both [OF hd queues W(1)] by (simp_all add: both_def)
  have idle: "\<And>i p. A i = Some p \<Longrightarrow> ?S p = None \<and> i \<notin> B" using hd by (auto simp: head_def)
  have rdy: "ready ?B ?S i (cs ! i)" and v: "CountedForNothing Cyclic = verdict_of aside ?B ?S i (cs ! i)"
    if i: "i \<in> set is" for i
  proof -
    obtain p where p: "A i = Some p" using i W by auto
    show "ready ?B ?S i (cs ! i)" using ready_waiting [OF I(1) p I(2)] i by simp
    show "CountedForNothing Cyclic = verdict_of aside ?B ?S i (cs ! i)"
      using verdict_waiting(1) [OF I(1) p, of ?B] i by simp
  qed
  note fs = fold_settle [OF b W rdy v f g step]
  have op: "se_open se' = []" using fs(3) queues by simp
  have "?S p = None \<and> i \<notin> ?B" if "(A |` (- set is)) i = Some p" for i p
    using that idle [of i p] by (simp add: restrict_map_def split: if_splits)
  then have "\<forall>i p. (A |` (- set is)) i = Some p \<longrightarrow> ps_states pass' p = None \<and> i \<notin> ?B"
    using fs(2) by (metis (no_types))
  moreover have "both cs run aside V0 ?B (A |` (- set is)) F (set []) pass' se'" using fs(1) by simp
  ultimately show ?thesis unfolding head_def op using w
    by (intro conjI) (assumption | rule distinct.simps(1) [THEN iffD2, OF TrueI])+
qed

lemma fold_settle_queues:
  assumes "fold (settle_event cs v) is (pass, se) = (pass', se')"
  shows "se_awaited se' = se_awaited se \<and> se_waiting se' = se_waiting se"
  using assms
proof (induction "is" arbitrary: pass se)
  case (Cons i js)
  obtain pass1 se1 where "settle_event cs v i (pass, se) = (pass1, se1)" by force
  moreover from this have "se_awaited se1 = se_awaited se \<and> se_waiting se1 = se_waiting se"
    by (auto simp: settle_event_def Let_def one_less_pending_def split: if_splits option.splits)
  ultimately show ?case using Cons by simp
qed simp

lemma awaited_order:
  assumes "valid_orders ord" and "winv A se"
  shows "set (map fst (or_awaited ord (se_awaited se))) = dom A" "distinct (map fst (or_awaited ord (se_awaited se)))"
proof -
  have w: "map_of (se_awaited se) = A" "distinct (map fst (se_awaited se))"
    using assms(2) by (simp_all add: winv_def)
  have o: "distinct (or_awaited ord (se_awaited se))" "set (or_awaited ord (se_awaited se)) = set (se_awaited se)"
    using assms(1) w(2) by (simp_all add: valid_orders_def)
  show "set (map fst (or_awaited ord (se_awaited se))) = dom A"
    using o(2) w(1) by (metis dom_map_of_conv_image_fst list.set_map)
  show "distinct (map fst (or_awaited ord (se_awaited se)))" using o w(2) by (metis distinct_map)
qed

lemma give_up_head:
  assumes hd: "head cs run aside V0 B A F pass se" and queues: "se_open se = []" "se_close se = []"
    and ord: "valid_orders ord" and step: "give_up ord cs (pass, se) = (pass', se')"
  shows "head cs run aside V0 (B \<union> dom A) Map.empty F pass' se'"
proof -
  let ?is = "map fst (or_awaited ord (se_awaited se))"
  have "winv A se" using hd by (simp add: head_def)
  from awaited_order [OF ord this] have "set ?is = dom A" "distinct ?is" .
  moreover have "fold (settle_event cs (\<lambda>_. CountedForNothing Cyclic)) ?is
      (pass, se\<lparr>se_waiting := \<lambda>_. [], se_awaited := []\<rparr>) = (pass', se')"
    using step by (simp add: give_up_def Let_def)
  moreover from this have "se_waiting se' = (\<lambda>_. []) \<and> se_awaited se' = []"
    using fold_settle_queues by fastforce
  moreover have "A |` (- dom A) = Map.empty" by (auto simp: restrict_map_def fun_eq_iff)
  ultimately show ?thesis
    using fold_cyclic [OF hd queues, of ?is "settle_event cs (\<lambda>_. CountedForNothing Cyclic)" "\<lambda>_ se. se"]
    by (simp add: winv_def)
qed

subsection \<open>Breaking the cycles\<close>

lemma hget_waits_on:
  "hget_or [] (waits_on cs w) q =
     filter (\<lambda>k. w ! k < length cs \<and> pos (cs ! (w ! k)) = q) [0..<length w]"
proof -
  have *: "hget_or [] (fold (\<lambda>(n, index) m. if length cs \<le> index then m
        else hmodify (ev_subject (cs ! index), ev_seq (cs ! index)) [] (\<lambda>l. l @ [n]) m) xs m) q =
      hget_or [] m q @ map fst (filter (\<lambda>(n, i). i < length cs \<and> pos (cs ! i) = q) xs)" for xs m
    proof (induction xs arbitrary: m)
    case (Cons x xs)
    then show ?case by (cases x; cases "length cs \<le> snd x") (simp_all add: hmap_simps pos_def)
  qed simp
  have "hget_or [] (waits_on cs w) q =
      map fst (filter (\<lambda>(n, i). i < length cs \<and> pos (cs ! i) = q) (enumerate 0 w))"
    unfolding waits_on_def * by simp
  also have "enumerate 0 w = map (\<lambda>i. (i, w ! i)) [0..<length w]"
    by (rule nth_equalityI) (simp_all add: nth_enumerate_eq)
  finally show ?thesis by (simp add: filter_map o_def)
qed

lemma trancl_indexed:
  assumes E: "\<And>a b. (a, b) \<in> E \<longleftrightarrow> a < length w \<and> b < length w \<and> (w ! a, w ! b) \<in> R"
    and R: "R \<subseteq> set w \<times> set w"
  shows "(a, b) \<in> E\<^sup>+ \<longleftrightarrow> a < length w \<and> b < length w \<and> (w ! a, w ! b) \<in> R\<^sup>+"
proof
  assume "(a, b) \<in> E\<^sup>+"
  then show "a < length w \<and> b < length w \<and> (w ! a, w ! b) \<in> R\<^sup>+"
    by (induction rule: trancl_induct) (auto simp: E intro: trancl_into_trancl)
next
  have "\<forall>a b. a < length w \<and> b < length w \<and> w ! a = x \<and> w ! b = y \<longrightarrow> (a, b) \<in> E\<^sup>+"
    if "(x, y) \<in> R\<^sup>+" for x y
    using that
  proof (induction rule: trancl_induct)
    case (base y)
    then show ?case by (auto simp: E)
  next
    case (step y z)
    then have "y \<in> set w" using R by blast
    then obtain c where "c < length w" "w ! c = y" by (auto simp: in_set_conv_nth)
    then show ?case using step E by (metis trancl_into_trancl)
  qed
  then show "a < length w \<and> b < length w \<and> (w ! a, w ! b) \<in> R\<^sup>+ \<Longrightarrow> (a, b) \<in> E\<^sup>+" by blast
qed

lemma adjacency_edges:
  assumes hd: "head cs run aside V0 B A F pass se" and queues: "se_open se = []" "se_close se = []"
    and w: "set w = dom A"
  defines "adj \<equiv> adjacency cs se w"
  shows "wf_adj adj" and "(a, b) \<in> (edges adj)\<^sup>+ \<longleftrightarrow>
    a < length w \<and> b < length w \<and> (w ! a, w ! b) \<in> (waits cs (dom A))\<^sup>+"
proof -
  have I: "qinv cs run aside B A F {} (ps_states pass) se" and aw: "map_of (se_awaited se) = A"
    using hd queues by (auto simp: head_def both_def winv_def)
  have len: "length adj = length w" by (simp add: adj_def adjacency_def)
  have nth: "set (adj ! a) = {k. k < length w \<and> ev_subject (cs ! (w ! k)) = ev_actor (cs ! (w ! a))}"
    if a: "a < length w" for a
  proof -
    have "w ! a \<in> dom A" using a w nth_mem by blast
    then obtain p where p: "A (w ! a) = Some p" by blast
    let ?act = "ev_actor (cs ! (w ! a))"
    have "p = (?act, ev_actor_seq (cs ! (w ! a)))" using qinvD(11) [OF I p] by (simp add: actor_point_def)
    with p a have eq: "adj ! a = hget_or [] (waits_on cs w) (?act, settled_upto se ?act + 1)"
      by (simp add: adj_def adjacency_def aw settled_upto_def)
    have k: "w ! k < length cs \<and> ev_seq (cs ! (w ! k)) = Suc (settled_upto se (ev_subject (cs ! (w ! k))))"
      if "k < length w" for k
    proof -
      have "w ! k \<in> dom A" using that w nth_mem by blast
      then show ?thesis using barrier_awaiting(2) [OF hd queues] qinvD(11) [OF I] by blast
    qed
    show ?thesis unfolding eq hget_waits_on using k by (auto simp: pos_def)
  qed
  have "x < length adj" if "a < length w" "x \<in> set (adj ! a)" for a x
    using nth [OF that(1)] that(2) by (simp add: len)
  then show "wf_adj adj" unfolding wf_adj_def using len by (metis in_set_conv_nth)
  have "(a, b) \<in> edges adj \<longleftrightarrow> a < length w \<and> b < length w \<and> (w ! a, w ! b) \<in> waits cs (dom A)" for a b
    using nth [of a] w nth_mem [of _ w] by (auto simp: edges_def len waits_def simp del: dom_def)
  moreover have "waits cs (dom A) \<subseteq> set w \<times> set w" using w by (auto simp: waits_def)
  ultimately show "(a, b) \<in> (edges adj)\<^sup>+ \<longleftrightarrow>
      a < length w \<and> b < length w \<and> (w ! a, w ! b) \<in> (waits cs (dom A))\<^sup>+"
    by (rule trancl_indexed)
qed

definition off_queues :: "nat \<Rightarrow> Settling \<Rightarrow> Settling" where
  "off_queues index se = (case map_of (se_awaited se) index of
     None \<Rightarrow> se
   | Some point \<Rightarrow> (unawait index se)\<lparr>se_waiting :=
       (se_waiting se)(point := filter (\<lambda>other. other \<noteq> index) (se_waiting se point))\<rparr>)"

definition break_one :: "Event list \<Rightarrow> nat \<Rightarrow> Pass \<times> Settling \<Rightarrow> Pass \<times> Settling" where
  "break_one cs i = (\<lambda>(pass, se). settle_event cs (\<lambda>_. CountedForNothing Cyclic) i (pass, off_queues i se))"

lemma break_event_one:
  assumes "n < length w" and "w ! n < length cs"
  shows "break_event cs w n = break_one cs (w ! n)"
  using assms by (auto simp: break_event_def break_one_def off_queues_def Let_def fun_eq_iff)

lemma off_queues_winv:
  assumes "winv A se"
  shows "winv (A(i := None)) (off_queues i se)"
proof (cases "A i")
  case None
  then have "A(i := None) = A" by auto
  with None assms show ?thesis by (simp add: off_queues_def winv_def)
next
  case (Some p)
  have w: "map_of (se_awaited se) = A" "distinct (map fst (se_awaited se))"
    "\<And>p. distinct (se_waiting se p)" "\<And>p. set (se_waiting se p) = {i. A i = Some p}"
    using assms by (simp_all add: winv_def)
  with Some show ?thesis unfolding winv_def off_queues_def unawait_def
    by (auto simp: map_of_delete distinct_delete restrict_map_def fun_eq_iff)
qed

lemma fold_break_winv:
  assumes "winv A se" and "fold (break_one cs) is (pass, se) = (pass', se')"
  shows "winv (A |` (- set is)) se'"
  using assms
proof (induction "is" arbitrary: A pass se)
  case Nil
  then show ?case by (simp add: restrict_map_def)
next
  case (Cons i js)
  obtain pass1 se1 where 1: "break_one cs i (pass, se) = (pass1, se1)" by force
  then have "se_awaited se1 = se_awaited (off_queues i se) \<and> se_waiting se1 = se_waiting (off_queues i se)"
    by (auto simp: break_one_def settle_event_def Let_def one_less_pending_def split: if_splits option.splits)
  then have "winv (A(i := None)) se1" using off_queues_winv [OF Cons.prems(1), of i] by (simp add: winv_def)
  moreover have "fold (break_one cs) js (pass1, se1) = (pass', se')" using Cons.prems(2) 1 by simp
  ultimately have "winv ((A(i := None)) |` (- set js)) se'" by (rule Cons.IH)
  moreover have "(A(i := None)) |` (- set js) = A |` (- set (i # js))"
    by (auto simp: restrict_map_def fun_eq_iff)
  ultimately show ?case by simp
qed

lemma distinct_concat_filter: "distinct (concat xss) \<Longrightarrow> distinct (concat (filter P xss))"
  by (induction xss) auto

lemma break_head:
  assumes hd: "head cs run aside V0 B A F pass se" and queues: "se_open se = []" "se_close se = []"
    and ord: "valid_orders ord"
  obtains pass' se' where "break_loops ord cs (pass, se) = Some (pass', se')"
    "head cs run aside V0 (B \<union> on_cycle cs (dom A)) (A |` (- on_cycle cs (dom A))) F pass' se'"
proof -
  define w where "w = map fst (or_awaited ord (se_awaited se))"
  define adj where "adj = adjacency cs se w"
  have I: "qinv cs run aside B A F {} (ps_states pass) se" and win: "winv A se"
    using hd queues by (auto simp: head_def both_def)
  have w: "set w = dom A" "distinct w" using awaited_order [OF ord win] by (simp_all add: w_def)
  note E = adjacency_edges [OF hd queues w(1), folded adj_def]
  obtain comps where comps: "components adj = Some comps" using tarjan_finder.finds [OF E(1)] by blast
  define nodes where "nodes = concat (filter (is_looped adj) comps)"
  have "n \<in> set nodes \<longleftrightarrow> (n, n) \<in> (edges adj)\<^sup>+" for n
    using tarjan_finder.looped_on_cycle [OF E(1) comps] tarjan_finder.cycle_looped [OF E(1) comps]
    unfolding nodes_def set_concat set_filter by blast
  then have nodes: "n \<in> set nodes \<longleftrightarrow> n < length w \<and> w ! n \<in> on_cycle cs (dom A)" for n
    by (auto simp: E(2) on_cycle_def)
  have "distinct nodes"
    unfolding nodes_def by (rule distinct_concat_filter [OF tarjan_finder.disjoint [OF E(1) comps]])
  moreover have "inj_on (nth w) (set nodes)" using nodes by (intro inj_on_nth [OF w(2)]) blast
  ultimately have dist: "distinct (map (nth w) nodes)" by (simp add: distinct_map)
  have cyc: "set (map (nth w) nodes) = on_cycle cs (dom A)"
  proof -
    have "i \<in> nth w ` set nodes" if "i \<in> on_cycle cs (dom A)" for i
      using that nodes on_cycle_subset [of cs "dom A"] w(1) by (metis image_eqI in_set_conv_nth subsetD)
    then show ?thesis using nodes by auto
  qed
  have sub: "set (map (nth w) nodes) \<subseteq> dom A" unfolding cyc by (rule on_cycle_subset)
  have "w ! n < length cs" if "n \<in> set nodes" for n
    using sub that qinvD(11) [OF I] by auto
  then have "fold (break_event cs w) nodes = fold (break_one cs) (map (nth w) nodes)"
    using nodes by (auto simp: fold_map break_event_one intro!: fold_cong)
  moreover obtain pass' se' where step: "fold (break_one cs) (map (nth w) nodes) (pass, se) = (pass', se')" by force
  ultimately have "break_loops ord cs (pass, se) = Some (pass', se')"
    using comps by (simp add: break_loops_def Let_def w_def [symmetric] adj_def [symmetric] nodes_def [symmetric])
  moreover have "head cs run aside V0 (B \<union> set (map (nth w) nodes)) (A |` (- set (map (nth w) nodes))) F pass' se'"
  proof (rule fold_cyclic [OF hd queues sub dist, where f = "break_one cs" and g = off_queues
        and wt = "se_waiting se" and aw = "se_awaited se"])
    show "winv (A |` (- set (map (nth w) nodes))) se'" by (rule fold_break_winv [OF win step])
  qed (use step in \<open>auto simp: break_one_def off_queues_def unawait_def split: option.splits\<close>)
  ultimately show thesis unfolding cyc by (rule that)
qed

subsection \<open>The loop\<close>

text \<open>
  What an evaluation ends with: every sequence of every chain has settled, and every candidate's
  verdict is the one its actor's state gives.
\<close>

definition evaluated ::
    "Event list \<Rightarrow> (PdnId \<Rightarrow> nat) \<Rightarrow> nat set \<Rightarrow> Verdict list \<Rightarrow> nat set \<Rightarrow> Pass \<Rightarrow> bool" where
  "evaluated cs run aside V0 B pass \<longleftrightarrow>
     dinv cs aside V0 B {} pass \<and>
     (\<forall>m s st. ps_states pass (m, s) = Some st \<longleftrightarrow> 1 \<le> s \<and> settles cs run aside B m s st) \<and>
     (\<forall>m s. s \<le> run m \<longrightarrow> settled_at cs run aside B m s)"

lemma end_evaluated:
  assumes hd: "head cs run aside V0 B A F pass se" and queues: "se_open se = []" "se_close se = []"
    and "se_awaited se = []"
  shows "evaluated cs run aside V0 B pass"
proof -
  let ?S = "ps_states pass"
  have I: "qinv cs run aside B A F {} ?S se" and d: "dinv cs aside V0 B (F \<union> dom A) pass"
    and wf: "wf_cands cs run V0" and A: "A = Map.empty"
    using hd queues assms(4) by (auto simp: head_def both_def winv_def)
  have "q \<notin> pending_at se" for q
  proof
    assume "q \<in> pending_at se"
    then obtain c where "map_of (se_pending se) q = Some c" by (metis map_of_eq_None_iff not_Some_eq)
    then show False using qinvD(14) [OF I] A by fastforce
  qed
  then have upto: "settled_upto se m = run m" for m
    using qinvD(1,10) [OF I, of m] queues by fastforce
  have "i \<notin> F" for i
  proof
    assume "i \<in> F"
    then have "i < length cs" "Suc (run (ev_subject (cs ! i))) < ev_seq (cs ! i)"
      by (simp_all add: qinvD(12) [OF I] upto)
    then show False using wf nth_mem [of i cs] unfolding wf_cands_def by fastforce
  qed
  then have "F = {}" by blast
  moreover have "?S (m, s) = Some st \<longleftrightarrow> 1 \<le> s \<and> settles cs run aside B m s st" for m s st
    using barrier_settled [OF hd queues, of m s st] qinvD(3) [OF I, of m s st] qinvD(2) [OF I, of m s]
    by (metis not_one_le_zero option.distinct(1))
  ultimately show ?thesis
    using d A upto barrier_settled_at [OF hd queues] unfolding evaluated_def by simp
qed

lemma head_rounds:
  assumes "head cs run aside V0 B A F pass se" and "valid_orders ord"
  shows "\<exists>pass' B'. evaluate_loop ord cs aside run r pass se = Some pass' \<and>
    rounds_to cs run aside r B B' \<and> evaluated cs run aside V0 B' pass'"
  using assms
proof (induction ord cs aside run r pass se arbitrary: B A F rule: evaluate_loop.induct)
  case (1 ord cs aside run r pass se)
  note hd = 1(5) and ord = 1(6)
  show ?case
  proof (cases "se_close se")
    case (Cons q close)
    obtain m s where q: "q = (m, s)" by force
    obtain pass' se' where step: "close_sequence cs aside run q (pass, se\<lparr>se_close := close\<rparr>) = (pass', se')"
      by force
    obtain A' where "head cs run aside V0 B A' F pass' se'"
      using close_head [OF hd Cons [unfolded q] step [unfolded q]] by blast
    from 1(4) [OF Cons step [symmetric] refl this ord] show ?thesis
      by (subst evaluate_loop.simps) (simp add: Cons step)
  next
    case close: Nil
    show ?thesis
    proof (cases "se_open se")
      case (Cons q rest)
      obtain m s where q: "q = (m, s)" by force
      obtain pass' se' where step: "open_sequence cs aside q (pass, se\<lparr>se_open := rest\<rparr>) = (pass', se')"
        by force
      obtain A' F' where "head cs run aside V0 B A' F' pass' se'"
        using open_head [OF hd Cons [unfolded q] step [unfolded q]] by blast
      from 1(3) [OF close Cons step [symmetric] refl this ord] show ?thesis
        by (subst evaluate_loop.simps) (simp add: close Cons step)
    next
      case opn: Nil
      note W = barrier_awaiting(1) [OF hd opn close]
      have w: "se_awaited se = [] \<longleftrightarrow> dom A = {}" using hd by (auto simp: head_def winv_def)
      show ?thesis
      proof (cases "se_awaited se = []")
        case True
        then have "rounds_to cs run aside r B B" using w W by (intro rounds_end) simp
        with True show ?thesis using end_evaluated [OF hd opn close True]
          by (subst evaluate_loop.simps) (auto simp: close opn)
      next
        case False
        then have ne: "awaiting cs run aside B \<noteq> {}" using w W by simp
        show ?thesis
        proof (cases "r < LOOP_ROUNDS")
          case True
          obtain pass' se' where step: "break_loops ord cs (pass, se) = Some (pass', se')"
            and hd': "head cs run aside V0 (B \<union> on_cycle cs (dom A)) (A |` (- on_cycle cs (dom A))) F pass' se'"
            by (rule break_head [OF hd opn close ord])
          from 1(1) [OF close opn False True step refl hd' ord] show ?thesis
            using rounds_break [OF ne True] unfolding W
            by (subst evaluate_loop.simps) (auto simp: close opn False True step)
        next
          case late: False
          obtain pass' se' where step: "give_up ord cs (pass, se) = (pass', se')" by force
          note hd' = give_up_head [OF hd opn close ord step]
          from 1(2) [OF close opn False late step [symmetric] refl hd' ord] show ?thesis
            using rounds_give_up [OF ne late] unfolding W
            by (subst evaluate_loop.simps) (auto simp: close opn False late step)
        qed
      qed
    qed
  qed
qed

end
