(* ===== verification/Membership_Correct.thy ===== *)
theory Membership_Correct
  imports Membership_Rounds Membership_View
begin

text \<open>
  What a membership view says, from the evaluation's result in \<^verbatim>\<open>Membership_Rounds\<close>: it is always
  returned, no order a map is walked in shows in it, and every counted event is backed by its author
  and its actor's state.
\<close>

declare split_paired_All [simp del] split_paired_Ex [simp del]

subsection \<open>The start of an evaluation\<close>

lemma distinct_runs: "distinct (map fst (pa_runs (parsed_of entries)))"
proof -
  have "distinct (map fst (pa_present (fold parse_entry xs p)))" if "distinct (map fst (pa_present p))" for xs p
    using that
  proof (induction xs arbitrary: p)
    case (Cons x xs)
    show ?case using Cons.prems
      by (simp, intro Cons.IH) (auto simp: parse_entry_present hmodify_def distinct_update split: option.splits)
  qed simp
  then show ?thesis by (simp add: parsed_of_def Let_def split_def o_def)
qed

lemma set_start_open:
  "set (fold (\<lambda>(m, run) opened. if 1 \<le> run then (m, 1) # opened else opened) xs os) =
     set os \<union> {(m, 1) |m run. (m, run) \<in> set xs \<and> 1 \<le> run}"
proof (induction xs arbitrary: os)
  case (Cons x xs)
  then show ?case by (cases x; cases "1 \<le> snd x") auto
qed simp

lemma distinct_start_open:
  assumes "distinct (map fst xs)" and "distinct os" and "fst ` set os \<inter> fst ` set xs = {}"
  shows "distinct (fold (\<lambda>(m, run) opened. if 1 \<le> run then (m, 1) # opened else opened) xs os)"
  using assms
proof (induction xs arbitrary: os)
  case (Cons x xs)
  obtain m run where x: "x = (m, run)" by force
  with Cons.prems have "(m, 1) \<notin> set os" by force
  then show ?case using Cons.prems by (simp add: x, intro conjI impI Cons.IH) auto
qed simp

lemma start_head:
  assumes ord: "valid_orders ord" and runs: "distinct (map fst (pa_runs parsed))"
    and wf: "wf_cands cs (run_of parsed) V0"
  shows "head cs (run_of parsed) aside V0 {} Map.empty {..<length cs}
    \<lparr>ps_verdicts = V0, ps_winners = (\<lambda>_. None), ps_states = (\<lambda>_. None)\<rparr> (settling_start ord parsed)"
proof -
  let ?se = "settling_start ord parsed"
  have o: "distinct (or_runs ord (pa_runs parsed))" "set (or_runs ord (pa_runs parsed)) = set (pa_runs parsed)"
    using ord runs by (simp_all add: valid_orders_def)
  then have "distinct (map fst (or_runs ord (pa_runs parsed)))" using runs by (metis distinct_map)
  then have dist: "distinct (se_open ?se)"
    unfolding settling_start_def by (simp del: One_nat_def add: distinct_start_open)
  have opn: "(m, s) \<in> set (se_open ?se) \<longleftrightarrow> s = 1 \<and> 1 \<le> run_of parsed m" for m s
  proof -
    have "(m, n) \<in> set (pa_runs parsed) \<longleftrightarrow> map_of (pa_runs parsed) m = Some n" for n
      using runs by simp
    then show ?thesis using o(2) unfolding settling_start_def
      by (auto simp del: One_nat_def simp: set_start_open run_of_def hget_or_def split: option.splits)
  qed
  have upto: "settled_upto ?se m = 0" for m by (simp add: settled_upto_def settling_start_def)
  have start: "se_close ?se = []" "se_pending ?se = []" by (simp_all add: settling_start_def)
  have cand: "1 \<le> ev_seq (cs ! i) \<and> ev_seq (cs ! i) \<le> run_of parsed (ev_subject (cs ! i)) \<and>
      ev_entry (cs ! i) < length V0 \<and> V0 ! ev_entry (cs ! i) = OutsideLayout" if "i < length cs" for i
    using wf that by (auto simp: wf_cands_def)
  have "qinv cs (run_of parsed) aside {} Map.empty {..<length cs} (set (se_open ?se)) (\<lambda>_. None) ?se"
  proof (rule qinvI, goal_cases)
    case (9 q) then show ?case using opn [of "fst q" "snd q"] by (simp add: start upto)
  next
    case (10 m) then show ?case using opn [of m 1] by (simp add: upto)
  next
    case (12 i) then show ?case using cand [of i] opn [of "ev_subject (cs ! i)" "ev_seq (cs ! i)"]
      by (auto simp: upto pos_def)
  qed (simp_all add: upto start)
  moreover have "dinv cs aside V0 {} {..<length cs} \<lparr>ps_verdicts = V0, ps_winners = (\<lambda>_. None), ps_states = (\<lambda>_. None)\<rparr>"
    using cand by (auto simp: dinv_def winner_for_def counted_at_def)
  ultimately show ?thesis
    using wf dist by (simp add: head_def both_def winv_def) (simp add: settling_start_def)
qed

lemma alone_wf_cands:
  fixes c pod store entries
  defines "p \<equiv> parsed_of entries"
  defines "a \<equiv> alone_of c pod store entries p"
  shows "wf_cands (al_candidates a) (run_of p) (al_verdicts a)"
proof -
  have sub: "e \<in> set (al_candidates a) \<Longrightarrow> e \<in> set (pa_events p) \<and>
      check_event c pod store entries p (al_authors a) e = Inr ()" for e
    unfolding a_def alone_of_simps(5) by simp
  have ok: "1 \<le> ev_seq e \<and> holds p (ev_actor e) (ev_actor_seq e) \<and> holds p (ev_subject e) (ev_seq e - 1)"
    if "check_event c pod store entries p (al_authors a) e = Inr ()" for e
    using that by (auto simp: check_event_def split: if_splits sum.splits)
  have "distinct (map ev_entry (al_candidates a))"
    unfolding a_def alone_of_simps(5) by (simp add: p_def distinct_map_filter distinct_event_entries)
  moreover have "ev_entry e < length (al_verdicts a) \<and> al_verdicts a ! ev_entry e = OutsideLayout \<and>
      1 \<le> ev_seq e \<and> ev_seq e \<le> run_of p (ev_subject e) \<and> ev_actor_seq e \<le> run_of p (ev_actor e)"
    if "e \<in> set (al_candidates a)" for e
    using sub [OF that] ok [of e] run_of_event [of e entries]
      alone_verdict_event [of e entries c pod store] length_alone_verdicts [of c pod store entries p]
    by (auto simp: p_def a_def in_events_iff holds_def)
  ultimately show ?thesis by (simp add: wf_cands_def)
qed

text \<open>One pass over the candidates returns, whatever the set-aside events.\<close>

lemma pass_run_evaluated:
  fixes c pod store entries
  defines "p \<equiv> parsed_of entries"
  defines "a \<equiv> alone_of c pod store entries p"
  assumes "valid_orders ord"
  obtains pass B where "pass_run ord a p aside = Some pass"
    "rounds_to (al_candidates a) (run_of p) aside 0 {} B"
    "evaluated (al_candidates a) (run_of p) aside (al_verdicts a) B pass"
proof -
  have "head (al_candidates a) (run_of p) aside (al_verdicts a) {} Map.empty {..<length (al_candidates a)}
      \<lparr>ps_verdicts = al_verdicts a, ps_winners = (\<lambda>_. None), ps_states = (\<lambda>_. None)\<rparr> (settling_start ord p)"
    unfolding a_def p_def by (intro start_head assms distinct_runs alone_wf_cands)
  from head_rounds [OF this assms(3), of 0] show thesis
    using that by (auto simp: pass_run_def evaluate_def)
qed

subsection \<open>Passes that say the same\<close>

definition same_winner :: "Winner \<Rightarrow> Winner \<Rightarrow> bool" where
  "same_winner w w' \<longleftrightarrow> win_kind w = win_kind w' \<and> set (win_events w) = set (win_events w')"

definition same_pass :: "Pass \<Rightarrow> Pass \<Rightarrow> bool" where
  "same_pass p p' \<longleftrightarrow> ps_states p = ps_states p' \<and> ps_verdicts p = ps_verdicts p' \<and>
     (\<forall>q. rel_option same_winner (ps_winners p q) (ps_winners p' q))"

lemma winner_for_same:
  assumes "winner_for cs C w" and "winner_for cs C w'"
  shows "rel_option same_winner w w'"
proof (cases w)
  case None
  with assms show ?thesis by (cases w') (auto simp: winner_for_def)
next
  case (Some x)
  with assms(1) have "C \<noteq> {}" by (auto simp: winner_for_def)
  with assms(2) obtain y where y: "w' = Some y" by (cases w') (auto simp: winner_for_def)
  obtain i j where i: "i \<in> C" "win_kind x = ev_kind (cs ! i)" and j: "j \<in> C" "win_kind y = ev_kind (cs ! j)"
    using assms by (auto simp: winner_for_def Some y)
  have "rank (win_kind x) \<le> rank (win_kind y)" "rank (win_kind y) \<le> rank (win_kind x)"
    using assms i j by (auto simp: winner_for_def Some y)
  then have "win_kind x = win_kind y" by (intro rank_inj) simp
  with assms show ?thesis by (auto simp: winner_for_def same_winner_def Some y)
qed

lemma evaluated_same:
  assumes "evaluated cs run aside V0 B p" and "evaluated cs run aside V0 B p'"
  shows "same_pass p p'"
proof -
  have d: "dinv cs aside V0 B {} p" "dinv cs aside V0 B {} p'" using assms by (simp_all add: evaluated_def)
  have "ps_states p (m, s) = Some st \<longleftrightarrow> ps_states p' (m, s) = Some st" for m s st
    using assms by (simp add: evaluated_def)
  then have S: "ps_states p = ps_states p'" by (metis ext option.exhaust surj_pair)
  have V: "ps_verdicts p = ps_verdicts p'"
  proof (rule nth_equalityI)
    fix j assume j: "j < length (ps_verdicts p)"
    show "ps_verdicts p ! j = ps_verdicts p' ! j"
    proof (cases "j \<in> ev_entry ` set cs")
      case True
      then obtain i where "i < length cs" "j = ev_entry (cs ! i)" by (auto simp: in_set_conv_nth)
      then show ?thesis using d S by (simp add: dinv_def)
    next
      case False
      then show ?thesis using d j by (simp add: dinv_def)
    qed
  qed (use d in \<open>simp add: dinv_def\<close>)
  have "winner_for cs (counted_at cs (\<lambda>i. ps_verdicts p ! ev_entry (cs ! i)) q) (ps_winners p q)"
    "winner_for cs (counted_at cs (\<lambda>i. ps_verdicts p ! ev_entry (cs ! i)) q) (ps_winners p' q)" for q
    using d V by (simp_all add: dinv_def)
  then show ?thesis unfolding same_pass_def using S V winner_for_same by blast
qed

lemma fold_min: "fold min xs x = Min (set (x # xs))"
  by (rule Min.set_eq_fold [symmetric])

definition ending_set :: "PdnId \<times> nat list \<Rightarrow> PdnId \<times> nat set" where
  "ending_set = (\<lambda>(actor, entries). (actor, set entries))"

lemma ending_loop_same:
  assumes same: "\<And>q. rel_option same_winner (ps_winners p q) (ps_winners p' q)"
    and "map_option ending_set e = map_option ending_set e'"
  shows "map_option ending_set (ending_loop p m ss e) = map_option ending_set (ending_loop p' m ss e')"
  using assms(2)
proof (induction ss arbitrary: e e')
  case step: (Cons s ss)
  show ?case
  proof (cases "ps_winners p (m, s)")
    case None
    then have "ps_winners p' (m, s) = None" using same [of "(m, s)"] by simp
    with None step show ?thesis by simp
  next
    case (Some w)
    then obtain w' where w': "ps_winners p' (m, s) = Some w'" and sw: "same_winner w w'"
      using same [of "(m, s)"] by (auto simp: option_rel_Some1)
    have k: "win_kind w = win_kind w'" and ev: "set (win_events w) = set (win_events w')"
      using sw by (simp_all add: same_winner_def)
    have snds: "set (map snd (win_events w)) = set (map snd (win_events w'))"
      and fsts: "set (map fst (win_events w)) = set (map fst (win_events w'))" using ev by simp_all
    show ?thesis
    proof (cases "win_kind w = Demoted")
      case True
      show ?thesis
      proof (cases "map snd (win_events w)")
        case Nil
        then have "map snd (win_events w') = []" using snds by simp
        with Nil True k Some w' show ?thesis by simp
      next
        case (Cons a as)
        then obtain b bs where b: "map snd (win_events w') = b # bs" using snds by (cases "map snd (win_events w')") auto
        have "fold min as a = fold min bs b" using snds by (simp only: fold_min Cons b)
        then have "map_option ending_set (Some (fold min as a, map fst (win_events w))) =
            map_option ending_set (Some (fold min bs b, map fst (win_events w')))"
          using fsts by (simp add: ending_set_def)
        from step.IH [OF this] show ?thesis using Cons b True k Some w' by simp
      qed
    next
      case False
      with k Some w' step.IH [of None None] show ?thesis by simp
    qed
  qed
qed simp

lemma map_insort_key: "map f (insort_key (\<lambda>x. g (f x)) x xs) = insort_key g (f x) (map f xs)"
  by (induction xs) auto

lemma map_sort_key: "map f (sort_key (\<lambda>x. g (f x)) xs) = sort_key g (map f xs)"
  by (induction xs) (simp_all add: map_insort_key)

definition ended_set :: "PdnId \<times> PdnId \<times> nat list \<Rightarrow> PdnId \<times> PdnId \<times> nat set" where
  "ended_set = (\<lambda>(actor, subject, entries). (actor, subject, set entries))"

lemma guard_loop_same: "map ended_set xs = map ended_set ys \<Longrightarrow> guard_loop xs R A = guard_loop ys R A"
proof (induction xs arbitrary: ys R A)
  case (Cons x xs)
  then obtain y ys' where ys: "ys = y # ys'" "ended_set x = ended_set y" "map ended_set xs = map ended_set ys'"
    by (cases ys) auto
  obtain a s es a' s' es' where "x = (a, s, es)" "y = (a', s', es')" by (metis prod_cases3)
  with ys Cons.IH [OF ys(3)] show ?case by (simp add: ended_set_def)
qed simp

lemma map_map_filter: "map g (List.map_filter f xs) = List.map_filter (\<lambda>x. map_option g (f x)) xs"
  by (induction xs) (auto simp: map_filter_simps split: option.splits)

lemma map_filter_cong: "(\<And>x. x \<in> set xs \<Longrightarrow> f x = g x) \<Longrightarrow> List.map_filter f xs = List.map_filter g xs"
  by (induction xs) (auto simp: map_filter_simps split: option.splits)

lemma ended_owners_same:
  assumes "same_pass p p'"
  shows "map ended_set (ended_owners p parsed) = map ended_set (ended_owners p' parsed)"
proof -
  have st: "state_of p = state_of p'" using assms by (auto simp: same_pass_def state_of_def fun_eq_iff)
  have d: "map_option ending_set (ending_demotion p parsed m) = map_option ending_set (ending_demotion p' parsed m)" for m
    unfolding ending_demotion_def using assms by (intro ending_loop_same) (auto simp: same_pass_def)
  have e: "map_option (\<lambda>(a, es). (a, m, set es)) (ending_demotion p parsed m) =
      map_option (\<lambda>(a, es). (a, m, set es)) (ending_demotion p' parsed m)" for m
    using d [of m] by (cases "ending_demotion p parsed m"; cases "ending_demotion p' parsed m") (auto simp: ending_set_def)
  have "map_option ended_set (map_option (\<lambda>(a, es). (a, m, es)) x) = map_option (\<lambda>(a, es). (a, m, set es)) x"
    for m and x :: "(PdnId \<times> nat list) option"
    by (cases x) (auto simp: ended_set_def)
  then show ?thesis unfolding ended_owners_def map_map_filter st
    by (intro map_filter_cong) (simp add: e)
qed

lemma demotions_same:
  assumes "same_pass p p'"
  shows "demotions_to_set_aside p parsed = demotions_to_set_aside p' parsed"
proof -
  let ?k = "\<lambda>(a, s, _). (a, s)"
  have st: "state_of p = state_of p'" using assms by (auto simp: same_pass_def state_of_def fun_eq_iff)
  have k: "(\<lambda>(a, s, es). (a, s)) = (\<lambda>x. ?k (ended_set x))" by (auto simp: ended_set_def)
  have e: "map ended_set (sort_key (\<lambda>(a, s, es). (a, s)) (ended_owners p parsed)) =
      map ended_set (sort_key (\<lambda>(a, s, es). (a, s)) (ended_owners p' parsed))"
    unfolding k map_sort_key using ended_owners_same [OF assms] by simp
  have "map (\<lambda>(_, s, _). s) xs = map (\<lambda>(_, s, _). s) (map ended_set xs)" for xs
    by (auto simp: ended_set_def)
  then have "map (\<lambda>(_, s, _). s) (sort_key (\<lambda>(a, s, es). (a, s)) (ended_owners p parsed)) =
      map (\<lambda>(_, s, _). s) (sort_key (\<lambda>(a, s, es). (a, s)) (ended_owners p' parsed))"
    using e by metis
  then show ?thesis unfolding demotions_to_set_aside_def Let_def st
    using guard_loop_same [OF e] by simp
qed

lemma into_view_same: "same_pass p p' \<Longrightarrow> into_view p alone parsed = into_view p' alone parsed"
  by (auto simp: into_view_def member_of_def same_pass_def state_of_def fun_eq_iff)

end
