(* ===== verification/Membership_Result.thy ===== *)
theory Membership_Result
  imports Membership_Correct
begin

text \<open>
  The pass a membership view is read off: what the guard's loop returns, which entries count in it,
  the states along its chains, the demotions its guard asks to set aside, and what backs a device.
\<close>

declare split_paired_All [simp del] split_paired_Ex [simp del]

subsection \<open>The pass behind a view\<close>

text \<open>Whether the guard ends on a pass that asks for nothing more, not on the bound of its passes.\<close>

function guard_settles ::
    "(nat \<Rightarrow> orders) \<Rightarrow> Alone \<Rightarrow> Parsed \<Rightarrow> nat \<Rightarrow> nat set \<Rightarrow> bool" where
  "guard_settles ords alone parsed passes set_aside =
     (case pass_run (ords passes) alone parsed set_aside of
        None \<Rightarrow> False
      | Some pass \<Rightarrow>
          (let more = demotions_to_set_aside pass parsed
           in if more \<subseteq> set_aside then True
              else if GUARD_PASSES \<le> passes + 1 then False
              else guard_settles ords alone parsed (passes + 1) (set_aside \<union> more)))"
  by auto
termination guard_settles
  by (relation "measure (\<lambda>(ords, alone, parsed, passes, set_aside). GUARD_PASSES - passes)") auto

declare guard_settles.simps [simp del]

definition view_pass ::
    "crypto \<Rightarrow> PodId \<Rightarrow> NamespaceId \<Rightarrow> HeldEntry list \<Rightarrow> nat set \<Rightarrow> nat set \<Rightarrow> Pass \<Rightarrow> bool" where
  "view_pass c pod store entries aside B pass \<longleftrightarrow>
     (let p = parsed_of entries; a = alone_of c pod store entries p
      in evaluated (al_candidates a) (run_of p) aside (al_verdicts a) B pass)"

lemma guard_passes_result:
  fixes c pod store entries
  defines "p \<equiv> parsed_of entries"
  defines "a \<equiv> alone_of c pod store entries p"
  assumes "\<And>n. valid_orders (ords n)"
  shows "\<exists>aside B pass. guard_passes ords a p n aside0 = Some (into_view pass a p) \<and>
    view_pass c pod store entries aside B pass \<and>
    (guard_settles ords a p n aside0 \<longrightarrow> demotions_to_set_aside pass p \<subseteq> aside)"
proof (induction "GUARD_PASSES - n" arbitrary: n aside0 rule: less_induct)
  case less
  obtain pass B where run: "pass_run (ords n) a p aside0 = Some pass"
    and ev: "view_pass c pod store entries aside0 B pass"
    using pass_run_evaluated [OF assms(3), where entries = entries and c = c and pod = pod and store = store and aside = aside0]
    unfolding view_pass_def a_def p_def Let_def by metis
  let ?more = "demotions_to_set_aside pass p"
  show ?case
  proof (cases "?more \<subseteq> aside0 \<or> GUARD_PASSES \<le> n + 1")
    case True
    then have "guard_passes ords a p n aside0 = Some (into_view pass a p)"
      by (subst guard_passes.simps) (simp add: run Let_def)
    moreover have "guard_settles ords a p n aside0 \<longleftrightarrow> ?more \<subseteq> aside0"
      using True by (subst guard_settles.simps) (auto simp: run Let_def)
    ultimately show ?thesis using ev by blast
  next
    case False
    then have "guard_passes ords a p n aside0 = guard_passes ords a p (n + 1) (aside0 \<union> ?more)"
      "guard_settles ords a p n aside0 = guard_settles ords a p (n + 1) (aside0 \<union> ?more)"
      by (subst guard_passes.simps guard_settles.simps, simp add: run Let_def)+
    moreover have "GUARD_PASSES - (n + 1) < GUARD_PASSES - n" using False by auto
    ultimately show ?thesis using less [of "n + 1" "aside0 \<union> ?more"] by simp
  qed
qed

lemma guard_passes_order_free:
  fixes c pod store entries
  defines "p \<equiv> parsed_of entries"
  defines "a \<equiv> alone_of c pod store entries p"
  assumes "\<And>n. valid_orders (ords n)" and "\<And>n. valid_orders (ords' n)"
  shows "guard_passes ords a p n aside = guard_passes ords' a p n aside"
proof (induction "GUARD_PASSES - n" arbitrary: n aside rule: less_induct)
  case less
  obtain pass B where run: "pass_run (ords n) a p aside = Some pass"
    "rounds_to (al_candidates a) (run_of p) aside 0 {} B"
    "evaluated (al_candidates a) (run_of p) aside (al_verdicts a) B pass"
    using pass_run_evaluated [OF assms(3), where entries = entries and c = c and pod = pod and store = store and aside = aside] unfolding a_def p_def by metis
  obtain pass' B' where run': "pass_run (ords' n) a p aside = Some pass'"
    "rounds_to (al_candidates a) (run_of p) aside 0 {} B'"
    "evaluated (al_candidates a) (run_of p) aside (al_verdicts a) B' pass'"
    using pass_run_evaluated [OF assms(4), where entries = entries and c = c and pod = pod and store = store and aside = aside] unfolding a_def p_def by metis
  have "B = B'" by (rule rounds_to_fun [OF run(2) run'(2)])
  with run run' have same: "same_pass pass pass'" using evaluated_same by blast
  note eqs = demotions_same [OF same, of p] into_view_same [OF same, of a p]
  have "guard_passes ords a p (n + 1) aside' = guard_passes ords' a p (n + 1) aside'"
    if "\<not> GUARD_PASSES \<le> n + 1" for aside'
    using that by (intro less) auto
  then show ?case by (subst (1 2) guard_passes.simps) (simp add: run(1) run'(1) eqs Let_def)
qed

lemma membership_view_pass:
  assumes "\<forall>n. valid_orders (ords n)" and "membership_view c ords pod store entries = Some view"
  obtains aside B pass where "view_pass c pod store entries aside B pass"
    "view = into_view pass (alone_of c pod store entries (parsed_of entries)) (parsed_of entries)"
    "guard_settles ords (alone_of c pod store entries (parsed_of entries)) (parsed_of entries) 0 {} \<longrightarrow>
       demotions_to_set_aside pass (parsed_of entries) \<subseteq> aside"
  using guard_passes_result [of ords c pod store entries 0 "{}"] assms
  unfolding membership_view_def Let_def by fastforce

lemma view_pass_state:
  assumes "view_pass c pod store entries aside B pass" and "1 \<le> s" and "s \<le> run_of (parsed_of entries) m"
  shows "ps_states pass (m, s) = Some (after_state pass (m, s))"
proof -
  let ?cs = "al_candidates (alone_of c pod store entries (parsed_of entries))" and ?run = "run_of (parsed_of entries)"
  have d: "dinv ?cs aside (al_verdicts (alone_of c pod store entries (parsed_of entries))) B {} pass"
    and S: "\<And>m s st. ps_states pass (m, s) = Some st \<longleftrightarrow> 1 \<le> s \<and> settles ?cs ?run aside B m s st"
    and all: "\<And>m s. s \<le> ?run m \<Longrightarrow> settled_at ?cs ?run aside B m s"
    using assms(1) by (simp_all add: view_pass_def evaluated_def Let_def)
  obtain s0 where s0: "s = Suc s0" using assms(2) by (cases s) auto
  have "s0 = 0 \<or> ps_states pass (m, s0) \<noteq> None"
    using all [of s0 m] S [of m s0] assms(3) s0 by (cases "s0 = 0") (auto simp: settled_at_def)
  then have "settles ?cs ?run aside B m (Suc s0) (after_state pass (m, Suc s0))"
    using assms(3) s0 S by (intro decided_settles [OF d]) auto
  then show ?thesis using S s0 by simp
qed

lemma view_pass_state_of:
  assumes "view_pass c pod store entries aside B pass" and "s \<le> run_of (parsed_of entries) m"
  shows "s = 0 \<or> ps_states pass (m, s) = Some (state_of pass m s)"
  using view_pass_state [OF assms(1) _ assms(2)] by (cases "s = 0") (auto simp: state_of_def)

lemma check_event_never_counts: "check_event c pod store entries p authors e \<noteq> Inl Counted"
  by (auto simp: check_event_def kind_alone_def creation_alone_def joining_alone_def payload_at_def
      split: if_splits sum.splits EventKind.splits option.splits HeldPayload.splits)

lemma view_pass_counted:
  assumes vp: "view_pass c pod store entries aside B pass"
    and j: "j < length entries" "event_of (j, entries ! j) = Some e"
  defines "a \<equiv> alone_of c pod store entries (parsed_of entries)"
  shows "ps_verdicts pass ! j = Counted \<longleftrightarrow>
    (\<exists>i<length (al_candidates a). al_candidates a ! i = e \<and>
       verdict_of aside B (ps_states pass) i e = Counted)"
proof -
  have d: "dinv (al_candidates a) aside (al_verdicts a) B {} pass"
    using vp by (simp add: view_pass_def evaluated_def Let_def a_def)
  have entry: "ev_entry e = j" using event_of_entry [OF j(2)] by simp
  then have ev: "e \<in> set (pa_events (parsed_of entries))" using j by (simp add: in_events_iff)
  show ?thesis
  proof (cases "e \<in> set (al_candidates a)")
    case True
    then obtain i where i: "i < length (al_candidates a)" "al_candidates a ! i = e" by (auto simp: in_set_conv_nth)
    have "ps_verdicts pass ! ev_entry (al_candidates a ! i) =
        verdict_of aside B (ps_states pass) i (al_candidates a ! i)" if "i < length (al_candidates a)" for i
      using d that by (simp add: dinv_def)
    with i entry show ?thesis by metis
  next
    case False
    then have chk: "check_event c pod store entries (parsed_of entries) (al_authors a) e \<noteq> Inr ()"
      using ev unfolding a_def alone_of_simps(5) by simp
    have "j \<notin> ev_entry ` set (al_candidates a)"
    proof
      assume "j \<in> ev_entry ` set (al_candidates a)"
      then obtain e' where "e' \<in> set (al_candidates a)" "ev_entry e' = j" by auto
      then have "e' \<in> set (pa_events (parsed_of entries))" unfolding a_def alone_of_simps(5) by simp
      with \<open>ev_entry e' = j\<close> j(2) have "e' = e" by (simp add: in_events_iff)
      with False \<open>e' \<in> set (al_candidates a)\<close> show False by simp
    qed
    then have "ps_verdicts pass ! j = al_verdicts a ! j"
      using d j(1) by (simp add: dinv_def a_def length_alone_verdicts)
    also have "\<dots> \<noteq> Counted"
      using alone_verdict_event [OF ev, of c pod store] chk check_event_never_counts
      unfolding a_def entry by (auto split: sum.splits)
    finally show ?thesis using False by auto
  qed
qed

lemma view_member_into:
  "view_member (into_view pass a p) who =
     (if who \<in> set (identities p) then Some (member_of pass a p who) else None)"
proof -
  have "map_of (map (\<lambda>k. (k, f k)) xs) who = (if who \<in> set xs then Some (f who) else None)"
    for f :: "PdnId \<Rightarrow> Member" and xs
    by (induction xs) auto
  then show ?thesis by (simp add: view_member_def into_view_def)
qed

lemma member_of_run [simp]: "member_run (member_of pass a p who) = run_of p who"
  by (simp add: member_run_def member_of_def)

lemma state_at_member_of:
  "state_at (member_of pass a p who) s = (if s \<le> run_of p who then Some (state_of pass who s) else None)"
proof -
  have "map f [1..<n + 1] ! (s - 1) = f s" if "s \<noteq> 0" "s \<le> n" for f :: "nat \<Rightarrow> MemberState" and n
    using that by (simp del: upt_Suc)
  then show ?thesis by (auto simp: state_at_def member_of_def state_of_def simp del: upt_Suc)
qed

lemma event_subject_identity:
  "e \<in> set (pa_events (parsed_of entries)) \<Longrightarrow> ev_subject e \<in> set (identities (parsed_of entries))"
proof -
  assume "e \<in> set (pa_events (parsed_of entries))"
  then have "ev_seq e \<in> set (hget_or [] (pa_present (parsed_of entries)) (ev_subject e))"
    by (auto simp: parsed_present)
  then have "map_of (pa_present (parsed_of entries)) (ev_subject e) \<noteq> None"
    by (cases "map_of (pa_present (parsed_of entries)) (ev_subject e)") (simp_all add: hget_or_def)
  then show ?thesis by (auto simp: identities_def map_of_eq_None_iff)
qed

lemma run_identity: "0 < run_of (parsed_of entries) who \<Longrightarrow> who \<in> set (identities (parsed_of entries))"
  using run_of_held [of 1 entries who] event_subject_identity by (metis One_nat_def Suc_leI zero_less_one)

text \<open>The kinds of the events of a view that count at a point of a chain.\<close>

definition counts_at :: "HeldEntry list \<Rightarrow> Verdict list \<Rightarrow> PdnId \<Rightarrow> nat \<Rightarrow> EventKind set" where
  "counts_at entries verdicts who s =
     {ev_kind e |j e. j < length entries \<and> event_of (j, entries ! j) = Some e \<and> verdicts ! j = Counted \<and>
        ev_subject e = who \<and> ev_seq e = s}"

lemma view_pass_outcome:
  assumes vp: "view_pass c pod store entries aside B pass"
    and "1 \<le> s" and "s \<le> run_of (parsed_of entries) who"
  shows "outcome (state_of pass who (s - 1)) (counts_at entries (ps_verdicts pass) who s) (state_of pass who s)"
proof -
  let ?a = "alone_of c pod store entries (parsed_of entries)"
  let ?cs = "al_candidates ?a"
  let ?C = "counted_at ?cs (\<lambda>i. ps_verdicts pass ! ev_entry (?cs ! i)) (who, s)"
  have d: "dinv ?cs aside (al_verdicts ?a) B {} pass"
    using vp by (simp add: view_pass_def evaluated_def Let_def)
  have ev: "e \<in> set (pa_events (parsed_of entries))" if "e \<in> set ?cs" for e
    using that unfolding alone_of_simps(5) by simp
  have "counts_at entries (ps_verdicts pass) who s = (\<lambda>i. ev_kind (?cs ! i)) ` ?C"
  proof (intro set_eqI iffI)
    fix k assume "k \<in> counts_at entries (ps_verdicts pass) who s"
    then obtain j e where j: "j < length entries" "event_of (j, entries ! j) = Some e"
      "ps_verdicts pass ! j = Counted" "ev_subject e = who" "ev_seq e = s" "k = ev_kind e"
      by (auto simp: counts_at_def)
    then obtain i where "i < length ?cs" "?cs ! i = e" using view_pass_counted [OF vp j(1,2)] by blast
    with j event_of_entry [OF j(2)] show "k \<in> (\<lambda>i. ev_kind (?cs ! i)) ` ?C"
      by (auto simp: counted_at_def pos_def)
  next
    fix k assume "k \<in> (\<lambda>i. ev_kind (?cs ! i)) ` ?C"
    then obtain i where i: "i < length ?cs" "pos (?cs ! i) = (who, s)"
      "ps_verdicts pass ! ev_entry (?cs ! i) = Counted" "k = ev_kind (?cs ! i)" by (auto simp: counted_at_def)
    with ev [of "?cs ! i"] show "k \<in> counts_at entries (ps_verdicts pass) who s"
      unfolding counts_at_def in_events_iff pos_def by force
  qed
  moreover have "winner_for ?cs ?C (ps_winners pass (who, s))" using d by (simp add: dinv_def)
  ultimately have "outcome (state_of pass who (s - 1)) (counts_at entries (ps_verdicts pass) who s)
      (after_state pass (who, s))"
    unfolding after_state_def fst_conv snd_conv by (intro winner_outcome)
  moreover have "after_state pass (who, s) = state_of pass who s"
    using view_pass_state [OF assms] assms(2) by (simp add: state_of_def)
  ultimately show ?thesis by simp
qed

lemma authors_of_devices:
  "hget_or {} (al_authors (alone_of c pod store entries p)) m =
     md_author ` hget_or {} (al_devices (alone_of c pod store entries p)) m"
proof -
  define ok where "ok b \<longleftrightarrow> (\<forall>m. hget_or {} (al_authors b) m = md_author ` hget_or {} (al_devices b) m)" for b :: Alone
  have st: "ok (count_statement c pod entries s b)" if "ok b" for s b
    using that by (auto simp: ok_def count_statement_def Let_def hmap_simps image_Un split: option.splits sum.splits)
  have jd: "ok (count_joining_device c pod entries e b)" if "ok b" for e b
    using that by (auto simp: ok_def count_joining_device_def hmap_simps split: option.splits)
  have "ok (fold f xs b)" if "ok b" "\<And>x b. ok b \<Longrightarrow> ok (f x b)" for f :: "'x \<Rightarrow> Alone \<Rightarrow> Alone" and xs b
    using that(1) by (induction xs arbitrary: b) (simp_all add: that(2))
  note folds = this
  have "ok (alone_before c pod store entries p)"
    unfolding alone_before_def count_joining_devices_def count_statements_def find_keys_def
    by (intro folds st jd) (simp_all add: ok_def)
  then show ?thesis by (simp add: ok_def alone_of_simps)
qed

text \<open>A candidate that counts, by its actor's state and its place in the chain.\<close>

lemma verdict_counted:
  assumes vp: "view_pass c pod store entries aside B pass"
    and i: "i < length (al_candidates (alone_of c pod store entries (parsed_of entries)))"
    and e: "e = al_candidates (alone_of c pod store entries (parsed_of entries)) ! i"
    and v: "verdict_of aside B (ps_states pass) i e = Counted"
  shows "check_event c pod store entries (parsed_of entries)
      (al_authors (alone_of c pod store entries (parsed_of entries))) e = Inr ()"
    and "allows (state_of pass (ev_subject e) (ev_seq e - 1)) (ev_kind e)"
    and "needed (ev_kind e) (state_of pass (ev_actor e) (ev_actor_seq e))"
    and "ev_seq e \<le> run_of (parsed_of entries) (ev_subject e)" "1 \<le> ev_seq e"
    and "ev_actor_seq e \<le> run_of (parsed_of entries) (ev_actor e)"
    and "ev_entry e \<notin> aside"
proof -
  let ?p = "parsed_of entries"
  let ?a = "alone_of c pod store entries ?p"
  have in_cs: "e \<in> set (al_candidates ?a)" using i e by simp
  then show "check_event c pod store entries ?p (al_authors ?a) e = Inr ()" unfolding alone_of_simps(5) by simp
  have r: "1 \<le> ev_seq e" "ev_seq e \<le> run_of ?p (ev_subject e)" "ev_actor_seq e \<le> run_of ?p (ev_actor e)"
    using alone_wf_cands [of c pod store entries] in_cs by (auto simp: wf_cands_def)
  then show "ev_seq e \<le> run_of ?p (ev_subject e)" "1 \<le> ev_seq e" "ev_actor_seq e \<le> run_of ?p (ev_actor e)" by auto
  have "(if ev_seq e = 1 then no_state else the (ps_states pass (ev_subject e, ev_seq e - 1))) =
      state_of pass (ev_subject e) (ev_seq e - 1)"
  proof (cases "ev_seq e = 1")
    case False
    then have "ev_seq e - 1 \<le> run_of ?p (ev_subject e)" "ev_seq e - 1 \<noteq> 0" using r by auto
    then show ?thesis using view_pass_state_of [OF vp] False by fastforce
  qed (simp add: state_of_def)
  moreover have "(if free_actor e then no_state else the (ps_states pass (actor_point e))) =
      state_of pass (ev_actor e) (ev_actor_seq e) \<or> ev_kind e = Created \<or> ev_kind e = Left"
  proof (cases "ev_actor_seq e = 0")
    case False
    then show ?thesis using view_pass_state_of [OF vp r(3)] by (auto simp: free_actor_def actor_point_def)
  qed (auto simp: free_actor_def state_of_def)
  moreover have "allows (if ev_seq e = 1 then no_state else the (ps_states pass (ev_subject e, ev_seq e - 1))) (ev_kind e) \<and>
      needed (ev_kind e) (if free_actor e then no_state else the (ps_states pass (actor_point e))) \<and>
      ev_entry e \<notin> aside"
    using v unfolding verdict_of_def judge_def by (meson Verdict.distinct)
  moreover have "needed Created st" "needed Left st" for st by (simp_all add: needed_def)
  ultimately show "allows (state_of pass (ev_subject e) (ev_seq e - 1)) (ev_kind e)"
    "needed (ev_kind e) (state_of pass (ev_actor e) (ev_actor_seq e))" "ev_entry e \<notin> aside"
    by metis+
qed

text \<open>The verdict of an entry whose key is a membership key is never \<open>OutsideLayout\<close>.\<close>

lemma statement_verdict_inside: "statement_verdict c pod entries keys st \<noteq> OutsideLayout"
  by (auto simp: statement_verdict_def payload_at_def split: sum.splits option.splits HeldPayload.splits if_splits)

lemma check_event_inside: "check_event c pod store entries p authors e \<noteq> Inl OutsideLayout"
  by (auto simp: check_event_def kind_alone_def creation_alone_def joining_alone_def payload_at_def
      split: if_splits sum.splits EventKind.splits option.splits HeldPayload.splits)

lemma view_pass_no_event:
  assumes vp: "view_pass c pod store entries aside B pass" and j: "j < length entries"
    and none: "event_of (j, entries ! j) = None"
  shows "ps_verdicts pass ! j = al_verdicts (alone_of c pod store entries (parsed_of entries)) ! j"
proof -
  let ?a = "alone_of c pod store entries (parsed_of entries)"
  have "j \<notin> ev_entry ` set (al_candidates ?a)"
    using none unfolding alone_of_simps(5) by (auto simp: in_events_iff)
  then show ?thesis
    using vp j by (simp add: view_pass_def evaluated_def dinv_def Let_def length_alone_verdicts)
qed

lemma view_pass_event_inside:
  assumes vp: "view_pass c pod store entries aside B pass" and j: "j < length entries"
    and e: "event_of (j, entries ! j) = Some e"
  shows "ps_verdicts pass ! j \<noteq> OutsideLayout"
proof -
  let ?a = "alone_of c pod store entries (parsed_of entries)"
  have d: "dinv (al_candidates ?a) aside (al_verdicts ?a) B {} pass"
    using vp by (simp add: view_pass_def evaluated_def Let_def)
  have entry: "ev_entry e = j" using event_of_entry [OF e] by simp
  then have ev: "e \<in> set (pa_events (parsed_of entries))" using j e by (simp add: in_events_iff)
  show ?thesis
  proof (cases "j \<in> ev_entry ` set (al_candidates ?a)")
    case True
    then obtain i where "i < length (al_candidates ?a)" "j = ev_entry (al_candidates ?a ! i)"
      by (auto simp: in_set_conv_nth)
    with d have "ps_verdicts pass ! j = verdict_of aside B (ps_states pass) i (al_candidates ?a ! i)"
      by (simp add: dinv_def)
    then show ?thesis by (simp add: verdict_of_def judge_def)
  next
    case False
    then have "e \<notin> set (al_candidates ?a)" using entry by auto
    then have "check_event c pod store entries (parsed_of entries) (al_authors ?a) e \<noteq> Inr ()"
      using ev unfolding alone_of_simps(5) by simp
    moreover have "ps_verdicts pass ! j = al_verdicts ?a ! j"
      using d j False by (simp add: dinv_def length_alone_verdicts)
    ultimately show ?thesis
      using alone_verdict_event [OF ev, of c pod store] check_event_inside
      unfolding entry by (auto split: sum.splits)
  qed
qed

subsection \<open>The guard over the last owner\<close>

lemma ending_loop_append:
  assumes "\<And>q w. ps_winners pass q = Some w \<Longrightarrow> win_events w \<noteq> []"
  shows "ending_loop pass m (xs @ ys) e = ending_loop pass m ys (ending_loop pass m xs e)"
proof (induction xs arbitrary: e)
  case (Cons s xs)
  show ?case
  proof (cases "ps_winners pass (m, s)")
    case (Some w)
    with assms have "map snd (win_events w) \<noteq> []" by blast
    with Some Cons show ?thesis by (auto split: list.splits)
  qed (simp add: Cons)
qed simp

lemma ending_loop_idle:
  "(\<And>s. s \<in> set ss \<Longrightarrow> ps_winners pass (m, s) = None) \<Longrightarrow> ending_loop pass m ss e = e"
  by (induction ss) simp_all

lemma ending_loop_entries:
  assumes "ending_loop pass m ss e = Some (a, es)"
    and "e = None \<or> (\<exists>s w b. ps_winners pass (m, s) = Some w \<and> e = Some (b, map fst (win_events w)))"
  shows "\<exists>s w. ps_winners pass (m, s) = Some w \<and> es = map fst (win_events w)"
  using assms
proof (induction ss arbitrary: e)
  case (Cons s ss)
  show ?case
  proof (cases "ps_winners pass (m, s)")
    case None
    with Cons show ?thesis by simp
  next
    case (Some w)
    show ?thesis
    proof (cases "win_kind w = Demoted")
      case True
      then obtain x xs where "map snd (win_events w) = x # xs"
        using Cons.prems(1) Some by (auto split: list.splits)
      then show ?thesis using Cons.IH [of "Some (fold min xs x, map fst (win_events w))"] Cons.prems(1) Some True by auto
    next
      case False
      with Cons.IH [of None] Cons.prems(1) Some show ?thesis by simp
    qed
  qed
qed auto

lemma guard_loop_mono: "A \<subseteq> guard_loop ended R A"
proof (induction ended arbitrary: R A)
  case (Cons e ended)
  obtain a s es where e: "e = (a, s, es)" by (metis prod_cases3)
  from Cons [of "A \<union> set es" R] Cons [of A "R - {s}"] show ?case by (auto simp: e)
qed simp

lemma ended_subject: "(\<lambda>(_, s, _). s) = (\<lambda>e :: 'a \<times> 'b \<times> 'c. fst (snd e))"
  by auto

lemma guard_loop_last:
  assumes "ended \<noteq> []" and "distinct (map (\<lambda>e. fst (snd e)) ended)"
    and "R = set (map (\<lambda>e. fst (snd e)) ended)"
  shows "\<exists>a s es. (a, s, es) \<in> set ended \<and> set es \<subseteq> guard_loop ended R A"
  using assms
proof (induction ended arbitrary: R)
  case (Cons e ended)
  obtain a s es where e: "e = (a, s, es)" by (metis prod_cases3)
  show ?case
  proof (cases "ended = []")
    case True
    with Cons.prems e show ?thesis by auto
  next
    case False
    then obtain y where y: "y \<in> set (map (\<lambda>e. fst (snd e)) ended)" by (cases ended) auto
    with Cons.prems e have "s \<in> R" "y \<in> R" "y \<noteq> s" by auto
    then have "card R \<noteq> 1" by (auto simp: card_1_singleton_iff)
    then have "guard_loop (e # ended) R A = guard_loop ended (R - {s}) A" by (simp add: e)
    moreover have "R - {s} = set (map (\<lambda>e. fst (snd e)) ended)" using Cons.prems e by auto
    ultimately show ?thesis using Cons.IH [OF False, of "R - {s}"] Cons.prems(2) by auto
  qed
qed simp

lemma distinct_ended_subjects: "distinct (map (\<lambda>e. fst (snd e)) (ended_owners pass p))"
proof -
  have "distinct (map (\<lambda>e. fst (snd e)) (List.map_filter f ids))"
    if "distinct ids" "\<And>k e. f k = Some e \<Longrightarrow> fst (snd e) = k"
    for f :: "PdnId \<Rightarrow> (PdnId \<times> PdnId \<times> nat list) option" and ids
    using that(1)
  proof (induction ids)
    case (Cons k ids)
    have "k \<notin> (\<lambda>e. fst (snd e)) ` set (List.map_filter f ids)"
      using Cons.prems that(2) by (fastforce simp: set_map_filter)
    with Cons that(2) [of k] show ?case by (cases "f k") (simp_all add: map_filter_simps)
  qed (simp add: map_filter_simps)
  note filtered = this
  show ?thesis unfolding ended_owners_def
    by (intro filtered) (auto simp: identities_def split: if_splits)
qed

lemma guard_asks_more:
  assumes vp: "view_pass c pod store entries aside B pass"
    and none: "\<And>m. m \<in> set (identities (parsed_of entries)) \<Longrightarrow>
      \<not> ms_owner (state_of pass m (run_of (parsed_of entries) m))"
    and ended: "ended_owners pass (parsed_of entries) \<noteq> []"
  shows "\<not> demotions_to_set_aside pass (parsed_of entries) \<subseteq> aside"
proof -
  let ?p = "parsed_of entries"
  let ?a = "alone_of c pod store entries ?p"
  let ?cs = "al_candidates ?a"
  define ends where "ends = sort_key (\<lambda>(actor, subject, _). (actor, subject)) (ended_owners pass ?p)"
  have ends: "set ends = set (ended_owners pass ?p)" and "distinct (ended_owners pass ?p) \<Longrightarrow> distinct ends"
    by (simp_all add: ends_def)
  then have "distinct (map (\<lambda>e. fst (snd e)) ends)" (is "distinct ?subjects")
    using distinct_ended_subjects [of pass ?p] by (simp only: distinct_map)
  moreover have "ends \<noteq> []" using ended ends by (metis set_empty)
  ultimately have "\<exists>a s es. (a, s, es) \<in> set ends \<and> set es \<subseteq> guard_loop ends (set ?subjects) {}"
    by (intro guard_loop_last) simp_all
  then obtain a s es where es: "(a, s, es) \<in> set ends" and "set es \<subseteq> guard_loop ends (set ?subjects) {}"
    by blast
  then have sub: "set es \<subseteq> demotions_to_set_aside pass ?p"
    using none unfolding demotions_to_set_aside_def Let_def list_ex_iff ended_subject ends_def [symmetric] by simp
  from es have "ending_demotion pass ?p s = Some (a, es)"
    unfolding ends by (auto simp: ended_owners_def set_map_filter split: if_splits)
  then obtain k w where w: "ps_winners pass (s, k) = Some w" and esw: "es = map fst (win_events w)"
    unfolding ending_demotion_def using ending_loop_entries by blast
  have d: "dinv ?cs aside (al_verdicts ?a) B {} pass"
    using vp by (simp add: view_pass_def evaluated_def Let_def)
  let ?C = "counted_at ?cs (\<lambda>i. ps_verdicts pass ! ev_entry (?cs ! i)) (s, k)"
  have "winner_for ?cs ?C (Some w)" using d w by (metis dinv_def)
  then obtain i where i: "i \<in> ?C" "(ev_entry (?cs ! i), ev_actor (?cs ! i)) \<in> set (win_events w)"
    unfolding winner_for_def by auto
  then have "ev_entry (?cs ! i) \<in> set es" using esw by force
  moreover have "ev_entry (?cs ! i) \<notin> aside"
  proof (rule verdict_counted(7) [OF vp _ refl])
    show "i < length ?cs" using i(1) by (simp add: counted_at_def)
    then show "verdict_of aside B (ps_states pass) i (?cs ! i) = Counted"
      using i(1) d by (simp add: counted_at_def dinv_def)
  qed
  ultimately show ?thesis using sub by blast
qed

text \<open>An owner demoted and since then a member that is no owner has its demotion as its chain's last winner.\<close>

lemma demoted_ended:
  assumes vp: "view_pass c pod store entries aside B pass"
    and k: "k < run_of (parsed_of entries) m" "state_of pass m k = MemberState True True"
    and after: "\<And>s. k < s \<Longrightarrow> s \<le> run_of (parsed_of entries) m \<Longrightarrow> state_of pass m s = MemberState True False"
  shows "ending_demotion pass (parsed_of entries) m \<noteq> None"
proof -
  let ?p = "parsed_of entries" and ?cs = "al_candidates (alone_of c pod store entries (parsed_of entries))"
  have d: "dinv ?cs aside (al_verdicts (alone_of c pod store entries ?p)) B {} pass"
    using vp by (simp add: view_pass_def evaluated_def Let_def)
  have win: "allows (state_of pass r (s - 1)) (win_kind w) \<and> win_events w \<noteq> []"
    if "ps_winners pass (r, s) = Some w" for r s w
  proof -
    let ?C = "counted_at ?cs (\<lambda>i. ps_verdicts pass ! ev_entry (?cs ! i)) (r, s)"
    have "winner_for ?cs ?C (Some w)" using d that by (metis dinv_def)
    then obtain i where i: "i \<in> ?C" "win_kind w = ev_kind (?cs ! i)"
      "(ev_entry (?cs ! i), ev_actor (?cs ! i)) \<in> set (win_events w)"
      unfolding winner_for_def by auto
    then have n: "i < length ?cs" "verdict_of aside B (ps_states pass) i (?cs ! i) = Counted"
      using d by (auto simp: counted_at_def dinv_def)
    show ?thesis using verdict_counted(2) [OF vp n(1) refl n(2)] i by (auto simp: counted_at_def pos_def)
  qed
  have st: "state_of pass m s = (case ps_winners pass (m, s) of
      None \<Rightarrow> state_of pass m (s - 1) | Some w \<Rightarrow> apply_kind (win_kind w))"
    if "1 \<le> s" "s \<le> run_of ?p m" for s
  proof -
    have "state_of pass m s = after_state pass (m, s)"
      using view_pass_state [OF vp that] that(1) by (simp add: state_of_def)
    then show ?thesis unfolding after_state_def fst_conv snd_conv .
  qed
  obtain w where w: "ps_winners pass (m, Suc k) = Some w" "win_kind w = Demoted" "win_events w \<noteq> []"
    using st [of "Suc k"] k after [of "Suc k"] win [of m "Suc k"]
    by (cases "ps_winners pass (m, Suc k)"; cases "win_kind (the (ps_winners pass (m, Suc k)))")
      (auto simp: allows_def no_state_def)
  have idle: "ps_winners pass (m, s) = None" if "Suc k < s" "s \<le> run_of ?p m" for s
    using st [of s] after [of s] after [of "s - 1"] win [of m s] that
    by (cases "ps_winners pass (m, s)"; cases "win_kind (the (ps_winners pass (m, s)))")
      (auto simp: allows_def no_state_def)
  have "[1..<Suc k + (run_of ?p m - k)] = [1..<Suc k] @ [Suc k..<Suc k + (run_of ?p m - k)]"
    by (rule upt_add_eq_append) simp
  moreover have "[Suc k..<run_of ?p m + 1] = Suc k # [Suc (Suc k)..<run_of ?p m + 1]"
    using k(1) by (simp add: upt_conv_Cons)
  ultimately have split: "[1..<run_of ?p m + 1] = [1..<Suc k] @ [Suc k] @ [Suc (Suc k)..<run_of ?p m + 1]"
    using k(1) by simp
  have "ending_demotion pass ?p m = ending_loop pass m ([Suc k] @ [Suc (Suc k)..<run_of ?p m + 1])
      (ending_loop pass m [1..<Suc k] None)"
    unfolding ending_demotion_def split using win by (intro ending_loop_append) (metis surj_pair)
  moreover have "ending_loop pass m [Suc (Suc k)..<Suc (run_of ?p m)] e = e" for e
    using idle by (intro ending_loop_idle) auto
  ultimately show ?thesis
    using w by (cases "map snd (win_events w)") (auto simp del: upt_Suc)
qed

subsection \<open>Devices and the times of membership\<close>

text \<open>What backs a device of an identity: a statement its key signed, or its join statement.\<close>

definition device_backed :: "crypto \<Rightarrow> PodId \<Rightarrow> HeldEntry list \<Rightarrow> PdnId \<Rightarrow> MemberDevice \<Rightarrow> bool" where
  "device_backed c pod entries who d \<longleftrightarrow>
     (\<exists>held version key payload. held \<in> set entries \<and>
        membership_parse (he_key held) = Some (MDevices who version) \<and>
        he_payload held = Read (devices_encode payload) \<and> pdn_id_of c key = who \<and>
        devices_verify c key pod who version payload \<and> d \<in> set (dp_devices payload)) \<or>
     (\<exists>held seq actor actor_seq payload. held \<in> set entries \<and>
        membership_parse (he_key held) = Some (MEvent who seq Joined actor actor_seq) \<and>
        he_payload held = Read (joined_encode payload) \<and> pdn_id_of c (jp_identity_key payload) = who \<and>
        join_verifies c who pod seq payload \<and> d = jp_device payload)"

lemma alone_keys_own: "map_of (alone_keys c entries p) who = Some key \<Longrightarrow> pdn_id_of c key = who"
proof -
  have "\<forall>who key. map_of (fold (find_key c entries) es m) who = Some key \<longrightarrow> pdn_id_of c key = who"
    if "\<forall>who key. map_of m who = Some key \<longrightarrow> pdn_id_of c key = who" for es m
    using that
  proof (induction es arbitrary: m)
    case (Cons e es)
    show ?case unfolding fold_simps
      by (rule Cons.IH) (use Cons.prems in \<open>auto simp: find_key_def map_of_update split: option.splits if_splits\<close>)
  qed simp
  then show "map_of (alone_keys c entries p) who = Some key \<Longrightarrow> pdn_id_of c key = who"
    unfolding alone_keys_def by (metis map_of.simps(1) option.distinct(1))
qed

lemma payload_at_Inr: "payload_at entries j = Inr bs \<Longrightarrow> j < length entries \<and> he_payload (entries ! j) = Read bs"
  by (auto simp: payload_at_def split: if_splits HeldPayload.splits)

lemma statement_of_key:
  "statement_of (j, held) = Some s \<Longrightarrow> membership_parse (he_key held) = Some (MDevices (st_member s) (st_version s))"
  unfolding statement_of_def by (auto split: option.splits MembershipKey.splits)

lemma event_of_key:
  assumes "event_of (j, held) = Some e"
  obtains seq actor_seq where
    "membership_parse (he_key held) = Some (MEvent (ev_subject e) seq (ev_kind e) (ev_actor e) actor_seq)"
    "ev_seq e = unat seq"
  using assms that unfolding event_of_def by (auto split: option.splits MembershipKey.splits)

lemma count_statement_backed:
  assumes "s \<in> set (pa_statements (parsed_of entries))" and "al_keys b = alone_keys c entries p"
    and "\<forall>who d. d \<in> hget_or {} (al_devices b) who \<longrightarrow> device_backed c pod entries who d"
    and "d \<in> hget_or {} (al_devices (count_statement c pod entries s b)) who"
  shows "device_backed c pod entries who d"
proof (cases "d \<in> hget_or {} (al_devices b) who")
  case False
  with assms(4) obtain bs pl where s: "st_member s = who" "payload_at entries (st_entry s) = Inr bs"
      "devices_decode bs = Some pl" "d \<in> set (dp_devices pl)"
      "statement_verdict c pod entries (al_keys b) s = Counted"
    by (auto simp: count_statement_def Let_def hmap_simps split: if_splits sum.splits option.splits)
  then obtain key where key: "map_of (al_keys b) who = Some key"
      "devices_verify c key pod who (st_version s) pl"
    by (auto simp: statement_verdict_def split: sum.splits option.splits if_splits)
  have "membership_parse (he_key (entries ! st_entry s)) = Some (MDevices who (st_version s))"
    using assms(1) s(1) statement_of_key by (auto simp: in_statements_iff)
  moreover have "he_payload (entries ! st_entry s) = Read (devices_encode pl)" "entries ! st_entry s \<in> set entries"
    using payload_at_Inr [OF s(2)] s(3) by (auto simp: devices_decode_iff)
  moreover have "pdn_id_of c key = who" using key(1) assms(2) alone_keys_own by metis
  ultimately show ?thesis unfolding device_backed_def using key(2) s(4) by blast
qed (use assms(3) in blast)

lemma count_joining_backed:
  assumes "e \<in> set (pa_events (parsed_of entries))"
    and "\<forall>who d. d \<in> hget_or {} (al_devices b) who \<longrightarrow> device_backed c pod entries who d"
    and "d \<in> hget_or {} (al_devices (count_joining_device c pod entries e b)) who"
  shows "device_backed c pod entries who d"
proof (cases "d \<in> hget_or {} (al_devices b) who")
  case False
  with assms(3) have j: "ev_subject e = who" "joining_device c pod entries e = Some d"
    by (auto simp: count_joining_device_def hmap_simps split: if_splits option.splits)
  then obtain bs pl where e: "ev_kind e = Joined" "payload_at entries (ev_entry e) = Inr bs"
      "joined_decode bs = Some pl" "pdn_id_of c (jp_identity_key pl) = who"
      "join_verifies c who pod (of_nat (ev_seq e)) pl" "d = jp_device pl"
    by (auto simp: joining_device_def split: if_splits sum.splits option.splits)
  have "event_of (ev_entry e, entries ! ev_entry e) = Some e" using assms(1) by (simp add: in_events_iff)
  then obtain seq actor actor_seq where
    "membership_parse (he_key (entries ! ev_entry e)) = Some (MEvent who seq Joined actor actor_seq)"
    "ev_seq e = unat seq"
    using j(1) e(1) by (metis event_of_key)
  moreover have "he_payload (entries ! ev_entry e) = Read (joined_encode pl)" "entries ! ev_entry e \<in> set entries"
    using payload_at_Inr [OF e(2)] e(3) by (auto simp: joined_decode_iff)
  moreover from calculation e(5) have "join_verifies c who pod seq pl" by simp
  ultimately show ?thesis unfolding device_backed_def using e(4,6) by blast
qed (use assms(2) in blast)

lemma alone_devices_backed:
  assumes "d \<in> hget_or {} (al_devices (alone_of c pod store entries (parsed_of entries))) who"
  shows "device_backed c pod entries who d"
proof -
  let ?p = "parsed_of entries"
  define ok where "ok b \<longleftrightarrow> (\<forall>who d. d \<in> hget_or {} (al_devices b) who \<longrightarrow> device_backed c pod entries who d)" for b :: Alone
  have "ok (fold (count_statement c pod entries) ss b)"
    if "ok b" "al_keys b = alone_keys c entries ?p" "set ss \<subseteq> set (pa_statements ?p)" for ss b
    using that
  proof (induction ss arbitrary: b)
    case (Cons s ss)
    then have "ok (count_statement c pod entries s b)"
      using count_statement_backed [of s entries b c ?p pod] unfolding ok_def by auto
    with Cons show ?case by (simp add: count_statement_keys)
  qed simp
  note st = this
  have "ok (fold (count_joining_device c pod entries) es b)" if "ok b" "set es \<subseteq> set (pa_events ?p)" for es b
    using that
  proof (induction es arbitrary: b)
    case (Cons e es)
    then have "ok (count_joining_device c pod entries e b)"
      using count_joining_backed [of e entries b c pod] unfolding ok_def by auto
    with Cons show ?case by simp
  qed simp
  note jd = this
  have "ok (alone_before c pod store entries ?p)"
    unfolding alone_before_def count_joining_devices_def count_statements_def
    by (intro jd st) (simp_all add: ok_def find_keys_def alone_keys_def)
  with assms show ?thesis unfolding ok_def by (simp add: alone_of_simps)
qed

lemma find_rev_upt:
  "find P (rev [Suc 0..<Suc n]) = Some s \<longleftrightarrow> 1 \<le> s \<and> s \<le> n \<and> P s \<and> (\<forall>t. s < t \<and> t \<le> n \<longrightarrow> \<not> P t)"
proof (induction n)
  case (Suc n)
  have "rev [Suc 0..<Suc (Suc n)] = Suc n # rev [Suc 0..<Suc n]" by simp
  then show ?case using Suc le_Suc_eq by (auto simp del: upt_Suc)
qed simp

lemma joined_at_iff:
  assumes now: "ms_member (mb_state m) = is_member_at m (member_run m)"
  shows "joined_at m = Some s \<longleftrightarrow> 1 \<le> s \<and> s \<le> member_run m \<and> \<not> is_member_at m (s - 1) \<and>
    (\<forall>t\<in>{s..member_run m}. is_member_at m t)"
proof
  assume "joined_at m = Some s"
  then have j: "is_member_at m (member_run m)" "1 \<le> s" "s \<le> member_run m" "\<not> is_member_at m (s - 1)"
    "\<And>t. s < t \<Longrightarrow> t \<le> member_run m \<Longrightarrow> is_member_at m (t - 1)"
    using now by (auto simp: joined_at_def find_rev_upt simp del: upt_Suc split: if_splits)
  have "is_member_at m t" if "t \<in> {s..member_run m}" for t
    using j(1) j(5) [of "t + 1"] that by (cases "t = member_run m") auto
  with j show "1 \<le> s \<and> s \<le> member_run m \<and> \<not> is_member_at m (s - 1) \<and>
      (\<forall>t\<in>{s..member_run m}. is_member_at m t)" by blast
next
  assume r: "1 \<le> s \<and> s \<le> member_run m \<and> \<not> is_member_at m (s - 1) \<and> (\<forall>t\<in>{s..member_run m}. is_member_at m t)"
  have "is_member_at m (t - 1)" if "s < t" "t \<le> member_run m" for t
    using r that by (metis Suc_diff_1 Suc_leD atLeastAtMost_iff less_Suc_eq_le gr_zeroI not_less_zero)
  with r show "joined_at m = Some s"
    using now by (auto simp: joined_at_def find_rev_upt simp del: upt_Suc)
qed

lemma departed_at_iff:
  assumes now: "ms_member (mb_state m) = is_member_at m (member_run m)"
  shows "departed_at m = Some s \<longleftrightarrow> 1 \<le> s \<and> s \<le> member_run m \<and> is_member_at m (s - 1) \<and>
    (\<forall>t\<in>{s..member_run m}. \<not> is_member_at m t)"
proof -
  have left: "(case state_at m t of None \<Rightarrow> False | Some st \<Rightarrow> \<not> ms_member st) \<longleftrightarrow> \<not> is_member_at m t"
    if "t \<le> member_run m" for t
    using that by (auto simp: is_member_at_def state_at_def member_run_def)
  have iff: "departed_at m = Some s \<longleftrightarrow> \<not> is_member_at m (member_run m) \<and> 1 \<le> s \<and> s \<le> member_run m \<and>
      is_member_at m (s - 1) \<and> \<not> is_member_at m s \<and>
      (\<forall>t. s < t \<and> t \<le> member_run m \<longrightarrow> \<not> (is_member_at m (t - 1) \<and> \<not> is_member_at m t))"
    using now left by (auto simp: departed_at_def find_rev_upt simp del: upt_Suc)
  have "\<not> is_member_at m t" if d: "departed_at m = Some s" and "s \<le> t" "t \<le> member_run m" for t
    using that(3,2)
  proof (induction rule: inc_induct)
    case base
    then show ?case using d iff by simp
  next
    case (step t)
    then have "s < Suc t" "Suc t \<le> member_run m" "\<not> is_member_at m (Suc t)" by simp_all
    then show ?case using d iff by (metis diff_Suc_1)
  qed
  note since = this
  show ?thesis
  proof
    assume d: "departed_at m = Some s"
    with iff since [OF d] show "1 \<le> s \<and> s \<le> member_run m \<and> is_member_at m (s - 1) \<and>
        (\<forall>t\<in>{s..member_run m}. \<not> is_member_at m t)" by auto
  next
    assume r: "1 \<le> s \<and> s \<le> member_run m \<and> is_member_at m (s - 1) \<and> (\<forall>t\<in>{s..member_run m}. \<not> is_member_at m t)"
    then have "\<not> is_member_at m (t - 1)" if "s < t" "t \<le> member_run m" for t
    proof -
      have "t - 1 \<in> {s..member_run m}" using that by auto
      with r show ?thesis by blast
    qed
    with r show "departed_at m = Some s" unfolding iff by auto
  qed
qed

end
