(* ===== verification/Membership_Claims.thy ===== *)
theory Membership_Claims
  imports Membership_Result
begin

text \<open>
  The properties of the membership view: an always returned view that depends on the entries alone,
  chains that follow their counted events, counted events that are backed, the guard over the last
  owner, signed devices and the times of membership.
\<close>

declare split_paired_All [simp del] split_paired_Ex [simp del]

subsection \<open>A small history\<close>

text \<open>
  A pod 1 creates, to which 1 joins and promotes 2, who demotes 1: the entries the properties below are
  applied to. \<open>demo_crypto\<close> takes an identity to be its key and accepts every signature.
\<close>

definition demo_crypto :: crypto where
  "demo_crypto = \<lparr>public = (\<lambda>sk. sk), sign = (\<lambda>_ _. 0), valid_key = (\<lambda>_. True), verify = (\<lambda>_ _ _. True),
     derive_key = (\<lambda>ctx m n. take n m)\<rparr>"

definition plain_orders :: "nat \<Rightarrow> orders" where
  "plain_orders = (\<lambda>_. \<lparr>or_runs = (\<lambda>m. m), or_awaited = (\<lambda>m. m)\<rparr>)"

definition demo_pod :: PodId where "demo_pod = pod_id_of demo_crypto 1 1 9"

definition demo_entries :: "HeldEntry list" where
  "demo_entries =
    [\<lparr>he_key = membership_to_bytes (MDevices 1 1), he_author = 12,
       he_payload = Read (devices_encode (device_statement demo_crypto 1 demo_pod 1 [MemberDevice 11 12]))\<rparr>,
     \<lparr>he_key = membership_to_bytes (MEvent 1 1 Created 1 0), he_author = 12,
       he_payload = Read (created_encode (creation demo_crypto 1 9 20 21))\<rparr>,
     \<lparr>he_key = membership_to_bytes (MEvent 2 1 Joined 1 1), he_author = 12,
       he_payload = Read (joined_encode (join_statement demo_crypto 2 demo_pod 1 (MemberDevice 21 22)))\<rparr>,
     \<lparr>he_key = membership_to_bytes (MEvent 2 2 Promoted 1 1), he_author = 12, he_payload = Unread\<rparr>,
     \<lparr>he_key = membership_to_bytes (MEvent 1 2 Demoted 2 2), he_author = 22, he_payload = Unread\<rparr>]"

definition demo_event :: "nat \<Rightarrow> PdnId \<Rightarrow> nat \<Rightarrow> EventKind \<Rightarrow> PdnId \<Rightarrow> nat \<Rightarrow> Event" where
  "demo_event i s n k a an = \<lparr>ev_entry = i, ev_subject = s, ev_seq = n, ev_kind = k, ev_actor = a, ev_actor_seq = an\<rparr>"

lemma demo_event_simps [simp]:
  "ev_entry (demo_event i s n k a an) = i" "ev_subject (demo_event i s n k a an) = s"
  "ev_seq (demo_event i s n k a an) = n" "ev_kind (demo_event i s n k a an) = k"
  "ev_actor (demo_event i s n k a an) = a" "ev_actor_seq (demo_event i s n k a an) = an"
  by (simp_all add: demo_event_def)

definition demo_events :: "Event list" where
  "demo_events = [demo_event 1 1 1 Created 1 0, demo_event 2 2 1 Joined 1 1, demo_event 3 2 2 Promoted 1 1,
     demo_event 4 1 2 Demoted 2 2]"

lemma demo_parsed:
  "parsed_of demo_entries = \<lparr>pa_events = demo_events,
     pa_statements = [\<lparr>st_entry = 0, st_member = 1, st_version = 1\<rparr>],
     pa_present = [(1, [2, 1]), (2, [2, 1])], pa_runs = [(1, 2), (2, 2)]\<rparr>"
proof -
  have "run_from [2, 1] 0 = 2" by (subst run_from.simps, simp)+
  then show ?thesis
    by (simp add: parsed_of_def demo_entries_def parse_entry_def membership_parse_to_bytes hmodify_def hget_or_def
        Let_def demo_events_def demo_event_def del: membership_to_bytes.simps)
qed

lemma pdn_id_of_toy: "pdn_id_of demo_crypto k = k"
  by (simp add: pdn_id_of_def demo_crypto_def length_arr_bytes arr_of_arr_bytes)

lemma demo_verifies: "verifies demo_crypto k m s"
  by (simp add: verifies_def demo_crypto_def)

lemmas demo_checks = pdn_id_of_toy demo_verifies creation_verifies_def join_verifies_def devices_verify_def
  created_decode_iff [THEN iffD2, OF refl] joined_decode_iff [THEN iffD2, OF refl]
  devices_decode_iff [THEN iffD2, OF refl]

lemma demo_public [simp]: "public demo_crypto k = k"
  by (simp add: demo_crypto_def)

lemma demo_payloads:
  "jp_identity_key (join_statement demo_crypto k pod s d) = k" "jp_device (join_statement demo_crypto k pod s d) = d"
  "cp_identity_key (creation demo_crypto k n ms rs) = k" "cp_nonce (creation demo_crypto k n ms rs) = n"
  "cp_membership_store (creation demo_crypto k n ms rs) = ms"
  "dp_devices (device_statement demo_crypto k pod v ds) = ds"
  by (simp_all add: join_statement_def creation_def device_statement_def Let_def)

lemma demo_run: "run_of (parsed_of demo_entries) m = (if m = 1 \<or> m = 2 then 2 else 0)"
  by (simp add: run_of_def demo_parsed hget_or_def)

lemma demo_payload_at:
  "payload_at demo_entries 0 = Inr (devices_encode (device_statement demo_crypto 1 demo_pod 1 [MemberDevice 11 12]))"
  "payload_at demo_entries (Suc 0) = Inr (created_encode (creation demo_crypto 1 9 20 21))"
  "payload_at demo_entries 2 = Inr (joined_encode (join_statement demo_crypto 2 demo_pod 1 (MemberDevice 21 22)))"
  "payload_at demo_entries 3 = Inl (CountedForNothing Malformed)"
  "payload_at demo_entries 4 = Inl (CountedForNothing Malformed)"
  and demo_author_at:
  "author_at demo_entries (Suc 0) = Some 12" "author_at demo_entries 2 = Some 12" "author_at demo_entries 3 = Some 12"
  "author_at demo_entries 4 = Some 22"
  and length_demo_entries: "length demo_entries = 5"
  by (simp_all add: payload_at_def author_at_def demo_entries_def)

definition demo_alone :: Alone where
  "demo_alone = \<lparr>al_keys = [(1, 1), (2, 2)], al_devices = [(1, {MemberDevice 11 12}), (2, {MemberDevice 21 22})],
     al_statement_versions = [(1, 1)], al_authors = [(1, {12}), (2, {22})],
     al_verdicts = [Counted, OutsideLayout, OutsideLayout, OutsideLayout, OutsideLayout],
     al_candidates = demo_events\<rparr>"

lemma demo_find_keys: "find_keys demo_crypto demo_entries (parsed_of demo_entries) al =
      al\<lparr>al_keys := AList.update 2 2 (AList.update 1 1 (al_keys al))\<rparr>" for al :: Alone
    by (simp add: find_keys_def demo_parsed demo_events_def find_key_def event_key_def demo_payload_at
        demo_checks demo_payloads)

lemma demo_count_statements: 
  "al_keys al = [(1, 1), (2, 2)] \<Longrightarrow> count_statements demo_crypto demo_pod demo_entries (parsed_of demo_entries) al =
    al\<lparr>al_authors := hmodify 1 {} (\<lambda>s. s \<union> {12}) (al_authors al),
       al_devices := hmodify 1 {} (\<lambda>s. s \<union> {MemberDevice 11 12}) (al_devices al),
       al_statement_versions := hmodify 1 0 (max 1) (al_statement_versions al),
       al_verdicts := (al_verdicts al)[0 := Counted]\<rparr>"
  by (simp add: demo_parsed count_statements_def count_statement_def Let_def statement_verdict_def demo_payload_at
        demo_checks demo_payloads set_verdict_def)

lemma demo_count_joining:
  "count_joining_devices demo_crypto demo_pod demo_entries (parsed_of demo_entries) al =
    al\<lparr>al_authors := hmodify 2 {} (insert 22) (al_authors al),
       al_devices := hmodify 2 {} (insert (MemberDevice 21 22)) (al_devices al)\<rparr>"
  by (simp add: demo_parsed demo_events_def count_joining_devices_def count_joining_device_def joining_device_def demo_payload_at
        demo_checks demo_payloads)
lemma demo_pod_id: "pod_id_of demo_crypto 1 1 9 = demo_pod"
  by (simp add: demo_pod_def)

lemma demo_check_events:
  "check_event demo_crypto demo_pod 20 demo_entries (parsed_of demo_entries) [(1, {12}), (2, {22})] (demo_event 1 1 1 Created 1 0) = Inr ()"
  "check_event demo_crypto demo_pod 20 demo_entries (parsed_of demo_entries) [(1, {12}), (2, {22})] (demo_event 2 2 1 Joined 1 1) = Inr ()"
  "check_event demo_crypto demo_pod 20 demo_entries (parsed_of demo_entries) [(1, {12}), (2, {22})] (demo_event 3 2 2 Promoted 1 1) = Inr ()"
  "check_event demo_crypto demo_pod 20 demo_entries (parsed_of demo_entries) [(1, {12}), (2, {22})] (demo_event 4 1 2 Demoted 2 2) = Inr ()"
  by (simp_all add: check_event_def kind_alone_def creation_alone_def joining_alone_def demo_payload_at demo_checks
      demo_payloads demo_pod_id authored_def demo_author_at holds_def demo_run)

lemma demo_check_alone:
  assumes "al_authors al = [(1, {12}), (2, {22})]"
  shows "check_alone demo_crypto demo_pod 20 demo_entries (parsed_of demo_entries) al =
    al\<lparr>al_candidates := al_candidates al @ demo_events\<rparr>"
proof -
  have ev: "pa_events (parsed_of demo_entries) = demo_events" by (simp add: demo_parsed)
  show ?thesis
    unfolding check_alone_def ev using assms
    by (simp add: demo_events_def check_alone_step_def demo_check_events [simplified])
qed

lemma demo_alone: "alone_of demo_crypto demo_pod 20 demo_entries (parsed_of demo_entries) = demo_alone"
proof -
  have "replicate (length demo_entries) OutsideLayout = [OutsideLayout, OutsideLayout, OutsideLayout, OutsideLayout, OutsideLayout]"
    unfolding length_demo_entries by (simp add: numeral_eq_Suc)
  then show ?thesis
    by (simp add: alone_of_def Let_def demo_find_keys demo_count_statements demo_count_joining demo_check_alone
       hmodify_def hget_or_def demo_alone_def)
qed

lemma demo_at_map: "at_map demo_events = [((1, 1), [0]), ((2, 1), [1]), ((2, 2), [2]), ((1, 2), [3])]"
  by (simp add: at_map_def demo_events_def hmodify_def hget_or_def)

definition demo_pass :: Pass where
  "demo_pass = \<lparr>ps_verdicts = [Counted, Counted, Counted, Counted, Counted],
     ps_winners = [(1, 1) \<mapsto> \<lparr>win_kind = Created, win_events = [(1, 1)]\<rparr>, (2, 1) \<mapsto> \<lparr>win_kind = Joined, win_events = [(2, 1)]\<rparr>,
       (2, 2) \<mapsto> \<lparr>win_kind = Promoted, win_events = [(3, 1)]\<rparr>, (1, 2) \<mapsto> \<lparr>win_kind = Demoted, win_events = [(4, 2)]\<rparr>],
     ps_states = [(1, 1) \<mapsto> MemberState True True, (2, 1) \<mapsto> MemberState True False,
       (2, 2) \<mapsto> MemberState True True, (1, 2) \<mapsto> MemberState True False]\<rparr>"

lemma demo_nth:
  "length demo_events = 4" "demo_events ! 0 = demo_event 1 1 1 Created 1 0" "demo_events ! (Suc 0) = demo_event 2 2 1 Joined 1 1"
  "demo_events ! 2 = demo_event 3 2 2 Promoted 1 1" "demo_events ! 3 = demo_event 4 1 2 Demoted 2 2"
  by (simp_all add: demo_events_def)

lemma demo_at:
  "hget_or [] (at_map demo_events) (1, Suc 0) = [0]" "hget_or [] (at_map demo_events) (2, Suc 0) = [1]"
  "hget_or [] (at_map demo_events) (2, 2) = [2]" "hget_or [] (at_map demo_events) (1, 2) = [3]"
  by (simp_all add: demo_at_map hget_or_def)

lemma demo_pass_run: "pass_run (plain_orders n) demo_alone (parsed_of demo_entries) {} = Some demo_pass"
proof -
  have run: "run_of (parsed_of demo_entries) = (\<lambda>m. if m = 1 \<or> m = 2 then 2 else 0)" by (rule ext) (rule demo_run)
  have start: "settling_start (plain_orders n) (parsed_of demo_entries) =
    \<lparr>se_pending = [], se_waiting = (\<lambda>_. []), se_awaited = [], se_settled = (\<lambda>_. None), se_open = [(2, 1), (1, 1)], se_close = []\<rparr>"
    by (simp add: settling_start_def plain_orders_def demo_parsed)
  note steps = open_sequence_def open_event_def close_sequence_def decide_def record_winner_def set_verdict_def
    judge_def needed_def allows_def actor_state_def state_of_def after_state_def demo_at demo_nth
    no_state_def Let_def wake_def settle_event_def unawait_def one_less_pending_def
  show ?thesis
    unfolding pass_run_def evaluate_def start run
    by (simp add: evaluate_loop.simps demo_alone_def steps demo_pass_def numeral_2_eq_2 [symmetric])
qed
definition reversed_orders :: "nat \<Rightarrow> orders" where
  "reversed_orders = (\<lambda>_. \<lparr>or_runs = rev, or_awaited = rev\<rparr>)"

lemma plain_orders_valid: "\<forall>n. valid_orders (plain_orders n)"
  by (auto simp: valid_orders_def plain_orders_def distinct_map)

lemma reversed_orders_valid: "\<forall>n. valid_orders (reversed_orders n)"
  by (auto simp: valid_orders_def reversed_orders_def distinct_map)

lemma demo_identities: "set (identities (parsed_of demo_entries)) = {1, 2}"
  by (auto simp: identities_def demo_parsed)

lemma demo_demotions: "demotions_to_set_aside demo_pass (parsed_of demo_entries) = {}"
proof -
  have "ms_owner (state_of demo_pass 2 (run_of (parsed_of demo_entries) 2))"
    by (simp add: demo_run demo_pass_def state_of_def)
  then show ?thesis using demo_identities unfolding demotions_to_set_aside_def list_ex_iff by auto
qed

definition demo_view :: MembershipView where
  "demo_view = into_view demo_pass demo_alone (parsed_of demo_entries)"

lemma demo_view: "membership_view demo_crypto plain_orders demo_pod 20 demo_entries = Some demo_view"
  unfolding membership_view_def Let_def demo_alone
  by (subst guard_passes.simps) (simp add: demo_pass_run demo_demotions demo_view_def)

lemma demo_guard_settles:
  "guard_settles plain_orders (alone_of demo_crypto demo_pod 20 demo_entries (parsed_of demo_entries))
     (parsed_of demo_entries) 0 {}"
  unfolding demo_alone by (subst guard_settles.simps) (simp add: demo_pass_run demo_demotions)

definition demo_member :: "PdnId \<Rightarrow> Member" where
  "demo_member = member_of demo_pass demo_alone (parsed_of demo_entries)"

lemma demo_members: "view_member demo_view 1 = Some (demo_member 1)" "view_member demo_view 2 = Some (demo_member 2)"
  by (simp_all add: demo_view_def demo_member_def view_member_into demo_identities)

lemma demo_states:
  "member_run (demo_member 1) = 2"
  "state_at (demo_member 1) 0 = Some no_state" "state_at (demo_member 1) (Suc 0) = Some (MemberState True True)"
  "state_at (demo_member 1) 2 = Some (MemberState True False)"
  "state_at (demo_member 2) 2 = Some (MemberState True True)"
  by (simp_all add: demo_member_def state_at_member_of demo_run demo_pass_def state_of_def)

lemma demo_verdicts: "mv_verdicts demo_view = [Counted, Counted, Counted, Counted, Counted]"
  by (simp add: demo_view_def into_view_def demo_pass_def)

text \<open>C5: the membership view is always returned, with a verdict for every held entry: no panic and no endless loop.\<close>

theorem membership_view_returned:
  assumes "\<forall>n. valid_orders (ords n)"
  shows "\<exists>view. membership_view c ords pod store entries = Some view \<and>
    length (mv_verdicts view) = length entries"
proof -
  let ?p = "parsed_of entries" and ?a = "alone_of c pod store entries (parsed_of entries)"
  obtain aside B pass where *: "guard_passes ords ?a ?p 0 {} = Some (into_view pass ?a ?p)"
    "view_pass c pod store entries aside B pass"
    using guard_passes_result [of ords c pod store entries 0 "{}"] assms by blast
  then have "length (ps_verdicts pass) = length entries"
    by (simp add: view_pass_def evaluated_def dinv_def Let_def length_alone_verdicts)
  with * show ?thesis by (simp add: membership_view_def Let_def into_view_def)
qed

theorem membership_view_returned_witness:
  "(\<forall>n. valid_orders (plain_orders n)) \<and>
   (\<exists>view. membership_view demo_crypto plain_orders demo_pod 20 demo_entries = Some view \<and>
      length (mv_verdicts view) = 5)"
  using plain_orders_valid
    membership_view_returned [OF plain_orders_valid, of demo_crypto demo_pod 20 demo_entries]
  unfolding length_demo_entries by blast

text \<open>
  C1: no order a map is iterated in shows in a view: two runs over the same entries, each walking its
  maps in orders of its own, return the same view.
\<close>

theorem membership_view_order_free:
  assumes "\<forall>n. valid_orders (ords n)" and "\<forall>n. valid_orders (ords' n)"
  shows "membership_view c ords pod store entries = membership_view c ords' pod store entries"
  unfolding membership_view_def Let_def using assms by (intro guard_passes_order_free) auto

theorem membership_view_order_free_witness:
  "(\<forall>n. valid_orders (plain_orders n)) \<and> (\<forall>n. valid_orders (reversed_orders n)) \<and>
   membership_view demo_crypto reversed_orders demo_pod 20 demo_entries = Some demo_view"
  using plain_orders_valid reversed_orders_valid demo_view
    membership_view_order_free [OF plain_orders_valid reversed_orders_valid, of demo_crypto demo_pod 20 demo_entries]
  by simp

text \<open>
  C4: a member's chain follows the events that count. Where none counts at a sequence the state stays;
  otherwise the state is the one the highest ranked kind that counts there makes.
\<close>

theorem chain_follows_counted:
  assumes "\<forall>n. valid_orders (ords n)" and "membership_view c ords pod store entries = Some view"
    and "view_member view who = Some m" and "1 \<le> s" and "s \<le> member_run m"
  shows "\<exists>before after. state_at m (s - 1) = Some before \<and> state_at m s = Some after \<and>
    outcome before (counts_at entries (mv_verdicts view) who s) after"
proof -
  obtain aside B pass where vp: "view_pass c pod store entries aside B pass"
    and view: "view = into_view pass (alone_of c pod store entries (parsed_of entries)) (parsed_of entries)"
    by (rule membership_view_pass [OF assms(1,2)])
  have m: "m = member_of pass (alone_of c pod store entries (parsed_of entries)) (parsed_of entries) who"
    using assms(3) unfolding view view_member_into by (simp split: if_splits)
  with assms(5) have "s \<le> run_of (parsed_of entries) who" by simp
  with view_pass_outcome [OF vp assms(4) this] show ?thesis
    unfolding m state_at_member_of view into_view_def by simp
qed

theorem chain_follows_counted_witness:
  "view_member demo_view 1 = Some (demo_member 1) \<and>
   outcome (MemberState True True) (counts_at demo_entries (mv_verdicts demo_view) 1 2) (MemberState True False)"
  using chain_follows_counted [OF plain_orders_valid demo_view demo_members(1), of 2] demo_members(1)
  by (simp add: demo_states)

text \<open>
  C2: an event that counts is backed. Its author is a device of its actor, its subject's state just
  before allows its kind, and its actor had, at the point of the actor's chain it names, the state its
  kind asks for.
\<close>

theorem counted_event_backed:
  assumes "\<forall>n. valid_orders (ords n)" and "membership_view c ords pod store entries = Some view"
    and "i < length entries" and "mv_verdicts view ! i = Counted"
    and "membership_parse (he_key (entries ! i)) = Some (MEvent subject seq kind actor actor_seq)"
  shows "\<exists>sm am before by_state. view_member view subject = Some sm \<and> view_member view actor = Some am \<and>
    he_author (entries ! i) \<in> md_author ` mb_devices am \<and>
    state_at sm (unat seq - 1) = Some before \<and> allows before kind \<and>
    state_at am (unat actor_seq) = Some by_state \<and> needed kind by_state"
proof -
  let ?p = "parsed_of entries"
  let ?a = "alone_of c pod store entries ?p"
  obtain aside B pass where vp: "view_pass c pod store entries aside B pass"
    and view: "view = into_view pass ?a ?p"
    by (rule membership_view_pass [OF assms(1,2)])
  let ?e = "\<lparr>ev_entry = i, ev_subject = subject, ev_seq = unat seq, ev_kind = kind, ev_actor = actor,
    ev_actor_seq = unat actor_seq\<rparr>"
  have ev: "event_of (i, entries ! i) = Some ?e" using assms(5) by (simp add: event_of_def)
  have "ps_verdicts pass ! i = Counted" using assms(4) by (simp add: view into_view_def)
  then obtain k where k: "k < length (al_candidates ?a)" "?e = al_candidates ?a ! k"
    "verdict_of aside B (ps_states pass) k ?e = Counted"
    using view_pass_counted [OF vp assms(3) ev] by metis
  note f = verdict_counted [OF vp k, simplified]
  have in_events: "?e \<in> set (pa_events ?p)" using ev assms(3) by (simp add: in_events_iff)
  then have s: "subject \<in> set (identities ?p)" using event_subject_identity by fastforce
  have author: "authored entries (al_authors ?a) ?e" and "actor = subject \<or> needed kind no_state = False"
    using f(1) by (auto simp: check_event_def kind_alone_def creation_alone_def needed_def no_state_def
        split: if_splits sum.splits EventKind.splits)
  then have "actor \<in> set (identities ?p)"
    using s f(3,6) run_identity [of entries actor] by (cases "unat actor_seq = 0") (auto simp: state_of_def)
  moreover have "he_author (entries ! i) \<in> hget_or {} (al_authors ?a) actor"
    using author assms(3) by (auto simp: authored_def author_at_def hget_or_def split: option.splits)
  then have "he_author (entries ! i) \<in> md_author ` mb_devices (member_of pass ?a ?p actor)"
    by (simp add: authors_of_devices member_of_def)
  ultimately show ?thesis
    using s f(2-6) unfolding view view_member_into state_at_member_of by (auto simp: state_at_member_of)
qed

theorem counted_event_backed_witness:
  "mv_verdicts demo_view ! 4 = Counted \<and> 22 \<in> md_author ` mb_devices (demo_member 2) \<and>
   allows (MemberState True True) Demoted \<and> needed Demoted (MemberState True True)"
proof -
  have "membership_parse (he_key (demo_entries ! 4)) = Some (MEvent 1 2 Demoted 2 2)"
    "he_author (demo_entries ! 4) = 22"
    by (simp_all add: demo_entries_def membership_parse_to_bytes del: membership_to_bytes.simps)
  moreover have "mv_verdicts demo_view ! 4 = Counted" by (simp add: demo_verdicts)
  ultimately show ?thesis
    using counted_event_backed [OF plain_orders_valid demo_view, of 4 1 2 Demoted 2 2]
    by (auto simp: length_demo_entries demo_members demo_states)
qed

text \<open>C8: in every state of every chain of a view an owner is a member.\<close>

theorem owner_is_member:
  assumes "\<forall>n. valid_orders (ords n)" and "membership_view c ords pod store entries = Some view"
    and "view_member view who = Some m" and "state_at m s = Some st" and "ms_owner st"
  shows "ms_member st"
proof -
  obtain aside B pass where vp: "view_pass c pod store entries aside B pass"
    and view: "view = into_view pass (alone_of c pod store entries (parsed_of entries)) (parsed_of entries)"
    by (rule membership_view_pass [OF assms(1,2)])
  have m: "m = member_of pass (alone_of c pod store entries (parsed_of entries)) (parsed_of entries) who"
    using assms(3) unfolding view view_member_into by (simp split: if_splits)
  have s: "s \<le> run_of (parsed_of entries) who" "st = state_of pass who s"
    using assms(4) unfolding m state_at_member_of by (auto split: if_splits)
  have "ms_owner (state_of pass who s) \<longrightarrow> ms_member (state_of pass who s)" using s(1)
  proof (induction s)
    case 0
    then show ?case by (simp add: state_of_def no_state_def)
  next
    case (Suc s)
    have "ms_owner (apply_kind k) \<Longrightarrow> ms_member (apply_kind k)" for k by (cases k) (simp_all add: no_state_def)
    with view_pass_outcome [OF vp, of "Suc s" who] Suc show ?case by (auto simp: outcome_def)
  qed
  with s(2) assms(5) show ?thesis by simp
qed

theorem owner_is_member_witness:
  "state_at (demo_member 2) 2 = Some (MemberState True True) \<and> ms_member (MemberState True True)"
  using owner_is_member [OF plain_orders_valid demo_view demo_members(2) demo_states(5)] demo_states(5) by simp

text \<open>
  C3: the guard over the last owner. When it ends because a pass asks for nothing more, a view with no
  owner has no member whose ownership ended in a demotion: members do not take the last owner's right
  away.
\<close>

theorem last_owner_kept:
  assumes "\<forall>n. valid_orders (ords n)" and "membership_view c ords pod store entries = Some view"
    and "guard_settles ords (alone_of c pod store entries (parsed_of entries)) (parsed_of entries) 0 {}"
    and "view_member view who = Some m" and "k < member_run m" and "state_at m k = Some (MemberState True True)"
    and "\<forall>s. k < s \<and> s \<le> member_run m \<longrightarrow> state_at m s = Some (MemberState True False)"
  shows "\<exists>other om. view_member view other = Some om \<and> ms_owner (mb_state om)"
proof (rule ccontr)
  let ?p = "parsed_of entries"
  let ?a = "alone_of c pod store entries ?p"
  assume no: "\<not> ?thesis"
  obtain aside B pass where vp: "view_pass c pod store entries aside B pass" and view: "view = into_view pass ?a ?p"
    and guard: "guard_settles ords ?a ?p 0 {} \<longrightarrow> demotions_to_set_aside pass ?p \<subseteq> aside"
    by (rule membership_view_pass [OF assms(1,2)])
  have m: "m = member_of pass ?a ?p who" "who \<in> set (identities ?p)"
    using assms(4) unfolding view view_member_into by (simp_all split: if_splits)
  have "ending_demotion pass ?p who \<noteq> None"
    by (rule demoted_ended [OF vp]) (use assms(5-7) in \<open>auto simp: m(1) state_at_member_of\<close>)
  then obtain a es where "ending_demotion pass ?p who = Some (a, es)" by auto
  moreover have "state_of pass who (run_of ?p who) = MemberState True False"
    using assms(5,7) by (simp add: m(1) state_at_member_of)
  ultimately have "(a, who, es) \<in> set (ended_owners pass ?p)"
    unfolding ended_owners_def set_map_filter using m(2) by (intro bexI [of _ who]) simp_all
  then have "ended_owners pass ?p \<noteq> []" by auto
  moreover have "\<not> ms_owner (state_of pass r (run_of ?p r))" if "r \<in> set (identities ?p)" for r
  proof
    assume "ms_owner (state_of pass r (run_of ?p r))"
    then have "view_member view r = Some (member_of pass ?a ?p r) \<and> ms_owner (mb_state (member_of pass ?a ?p r))"
      using that by (simp add: view view_member_into) (simp add: member_of_def)
    with no show False by blast
  qed
  ultimately show False using guard_asks_more [OF vp] guard assms(3) by blast
qed

theorem last_owner_kept_witness:
  "state_at (demo_member 1) 1 = Some (MemberState True True) \<and>
   state_at (demo_member 1) 2 = Some (MemberState True False) \<and>
   (\<exists>other om. view_member demo_view other = Some om \<and> ms_owner (mb_state om))"
proof -
  have "\<forall>s. 1 < s \<and> s \<le> member_run (demo_member 1) \<longrightarrow> state_at (demo_member 1) s = Some (MemberState True False)"
  proof (intro allI impI)
    fix s assume "1 < s \<and> s \<le> member_run (demo_member 1)"
    then have "s = 2" by (simp add: demo_states(1))
    then show "state_at (demo_member 1) s = Some (MemberState True False)" by (simp add: demo_states(4))
  qed
  then show ?thesis
    using last_owner_kept [OF plain_orders_valid demo_view demo_guard_settles demo_members(1), of 1]
      demo_states(1,3,4) by simp
qed

text \<open>C10: an entry is outside the layout exactly when its key is no membership key.\<close>

theorem outside_layout_iff:
  assumes "\<forall>n. valid_orders (ords n)" and "membership_view c ords pod store entries = Some view"
    and "i < length entries"
  shows "mv_verdicts view ! i = OutsideLayout \<longleftrightarrow> membership_parse (he_key (entries ! i)) = None"
proof -
  let ?p = "parsed_of entries"
  let ?a = "alone_of c pod store entries ?p"
  obtain aside B pass where vp: "view_pass c pod store entries aside B pass" and view: "view = into_view pass ?a ?p"
    by (rule membership_view_pass [OF assms(1,2)])
  have v: "mv_verdicts view = ps_verdicts pass" by (simp add: view into_view_def)
  show ?thesis
  proof (cases "event_of (i, entries ! i)")
    case None
    then have same: "ps_verdicts pass ! i = al_verdicts ?a ! i" by (rule view_pass_no_event [OF vp assms(3)])
    show ?thesis
    proof (cases "statement_of (i, entries ! i)")
      case (Some st)
      then have "st_entry st = i" using statement_of_entry by fastforce
      moreover from this have "st \<in> set (pa_statements ?p)" using Some assms(3) by (simp add: in_statements_iff)
      ultimately have "al_verdicts ?a ! i = statement_verdict c pod entries (al_keys ?a) st"
        using alone_verdict_statement by blast
      moreover have "membership_parse (he_key (entries ! i)) \<noteq> None"
        using Some by (auto simp: statement_of_def split: option.splits)
      ultimately show ?thesis unfolding v same using statement_verdict_inside by metis
    next
      case none: None
      have "membership_parse (he_key (entries ! i)) = None"
        using None none by (auto simp: event_of_def statement_of_def split: option.splits MembershipKey.splits)
      then show ?thesis unfolding v same using alone_verdict_outside [OF assms(3)] by simp
    qed
  next
    case (Some e)
    moreover have "membership_parse (he_key (entries ! i)) \<noteq> None"
      using Some by (auto simp: event_of_def split: option.splits)
    ultimately show ?thesis unfolding v using view_pass_event_inside [OF vp assms(3)] by metis
  qed
qed

theorem outside_layout_iff_witness:
  "0 < length demo_entries \<and>
   (mv_verdicts demo_view ! 0 = OutsideLayout \<longleftrightarrow> membership_parse (he_key (demo_entries ! 0)) = None)"
  using outside_layout_iff [OF plain_orders_valid demo_view, of 0] by (simp add: length_demo_entries)

text \<open>C7: every device a view lists for an identity is one its identity key signed for this pod.\<close>

theorem view_devices_signed:
  assumes "\<forall>n. valid_orders (ords n)" and "membership_view c ords pod store entries = Some view"
    and "view_member view who = Some m" and "d \<in> mb_devices m"
  shows "device_backed c pod entries who d"
proof -
  obtain pass where "view = into_view pass (alone_of c pod store entries (parsed_of entries)) (parsed_of entries)"
    by (rule membership_view_pass [OF assms(1,2)])
  then have "m = member_of pass (alone_of c pod store entries (parsed_of entries)) (parsed_of entries) who"
    using assms(3) by (simp add: view_member_into split: if_splits)
  with assms(4) show ?thesis by (intro alone_devices_backed [of d c pod store]) (simp add: member_of_def)
qed

theorem view_devices_signed_witness:
  "MemberDevice 21 22 \<in> mb_devices (demo_member 2) \<and>
   device_backed demo_crypto demo_pod demo_entries 2 (MemberDevice 21 22)"
proof -
  have "MemberDevice 21 22 \<in> mb_devices (demo_member 2)"
    by (simp add: demo_member_def member_of_def demo_alone_def hget_or_def)
  then show ?thesis using view_devices_signed [OF plain_orders_valid demo_view demo_members(2)] by blast
qed

text \<open>
  C9: the times a view gives for a member. \<open>joined_at\<close> is the sequence from which on the identity has
  been a member without a break, \<open>departed_at\<close> the one from which on it has not been one, right after
  being one.
\<close>

theorem membership_times:
  assumes "\<forall>n. valid_orders (ords n)" and "membership_view c ords pod store entries = Some view"
    and "view_member view who = Some m"
  shows "(joined_at m = Some s \<longleftrightarrow> 1 \<le> s \<and> s \<le> member_run m \<and> \<not> is_member_at m (s - 1) \<and>
      (\<forall>t\<in>{s..member_run m}. is_member_at m t)) \<and>
    (departed_at m = Some s \<longleftrightarrow> 1 \<le> s \<and> s \<le> member_run m \<and> is_member_at m (s - 1) \<and>
      (\<forall>t\<in>{s..member_run m}. \<not> is_member_at m t))"
proof -
  obtain pass where "view = into_view pass (alone_of c pod store entries (parsed_of entries)) (parsed_of entries)"
    by (rule membership_view_pass [OF assms(1,2)])
  then have "m = member_of pass (alone_of c pod store entries (parsed_of entries)) (parsed_of entries) who"
    using assms(3) by (simp add: view_member_into split: if_splits)
  then have "ms_member (mb_state m) = is_member_at m (member_run m)"
    by (simp add: is_member_at_def state_at_member_of) (simp add: member_of_def)
  then show ?thesis using joined_at_iff departed_at_iff by blast
qed

theorem membership_times_witness:
  "view_member demo_view 1 = Some (demo_member 1) \<and> joined_at (demo_member 1) = Some 1"
proof -
  have "{Suc 0..2} = {Suc 0, 2}" by auto
  then show ?thesis
    using membership_times [OF plain_orders_valid demo_view demo_members(1), of 1] demo_members(1)
    by (simp add: demo_states is_member_at_def no_state_def)
qed

end
