(* ===== verification/Record_Claims.thy ===== *)
theory Record_Claims
  imports Record_View Membership_Claims
begin

text \<open>
  The properties of the record view and of the readers of a store's entries, with a record store of
  the small history of \<^verbatim>\<open>Membership_Claims\<close> to apply them to.
\<close>

subsection \<open>A small record store\<close>








subsection \<open>Properties\<close>

text \<open>
  C16: an entry of a record store reads for a record exactly when its key names the record, the writer
  the key names was a member at the point of its chain the key names, the entry's author is a device of
  that writer, and its payload has arrived.
\<close>

theorem record_reads_iff:
  "e \<in> set (read_entries (record_view membership entries) r) \<longleftrightarrow>
     e \<in> set entries \<and> (\<exists>key writer mseq member state. record_parse (re_key e) = Some key \<and> record_of key = r \<and>
       key_writer key (re_author e) = Some (writer, mseq) \<and> view_member membership writer = Some member \<and>
       state_at member (unat mseq) = Some state \<and> ms_member state \<and>
       (\<exists>device\<in>mb_devices member. md_author device = re_author e) \<and> re_payload e \<noteq> None)"
  unfolding read_entries_view
  by (auto simp: reads_def entry_verdict_def judge_record_counted split: option.splits)





text \<open>
  C18: a mergeable document's operations are the entries that read for it, each with the operation id
  its key carries, in the order of the ids.
\<close>

theorem operations_ordered:
  fixes membership entries r
  defines "v \<equiv> record_view membership entries"
  shows "sorted (map fst (operations v r)) \<and>
    set (operations v r) = {(op, e). e \<in> set (read_entries v r) \<and>
      (\<exists>member rid. record_parse (re_key e) = Some (ROperation member rid op))}"
proof -
  have "(case record_parse (re_key e) of Some (ROperation _ _ op) \<Rightarrow> Some (op, e) | _ \<Rightarrow> None) = Some x \<longleftrightarrow>
      (\<exists>member rid op. record_parse (re_key e) = Some (ROperation member rid op) \<and> x = (op, e))" for e x
    by (auto split: option.splits RecordKey.splits)
  note op = this
  have "set (operations v r) = {(op, e). e \<in> set (read_entries v r) \<and>
      (\<exists>member rid. record_parse (re_key e) = Some (ROperation member rid op))}"
    by (rule set_eqI) (simp only: operations_def set_sort set_map_filter op, auto)
  then show ?thesis by (simp add: operations_def)
qed




end
