(* ===== verification/Past.thy ===== *)
theory Past
  imports Record_Claims
begin

text \<open>
  A departure's past, \<^verbatim>\<open>crates/data-layer/src/pod/past.rs\<close>: \<open>departure_past\<close> with its \<open>Index\<close>, and
  \<open>Rests\<close>, what a departed replica takes. Both loops pop their work from its end. A \<open>u64\<close> sequence
  is a natural number as in \<^verbatim>\<open>Membership_Alone\<close>, \<open>u64::MAX\<close> written out; a \<open>BTreeMap<u64, _>\<close> is an
  association list whose values are listed in the order of the keys.
\<close>

definition U64_MAX :: nat where "U64_MAX = 2 ^ 64 - 1"


subsection \<open>The entries by what each depends on\<close>















subsection \<open>The past of a departure\<close>






subsection \<open>What a departed replica takes\<close>

record Rests =
  rs_upto :: "PdnId \<Rightarrow> nat option"
  rs_statements_of :: "PdnId set"

type_synonym actors = "(PdnId, (nat, (PdnId \<times> nat) list) hmap) hmap"

definition actors_entry :: "HeldEntry \<Rightarrow> actors \<Rightarrow> actors" where
  "actors_entry held actors =
     (case membership_parse (he_key held) of
        Some (MEvent subject seq kind actor actor_seq) \<Rightarrow>
          hmodify subject [] (hmodify (unat seq) [] (\<lambda>l. l @ [(actor, unat actor_seq)])) actors
      | _ \<Rightarrow> actors)"

definition actors_of :: "HeldEntry list \<Rightarrow> actors" where
  "actors_of entries = fold actors_entry entries []"

text \<open>\<open>BTreeMap::range(from + 1..=upto)\<close>, its values flattened in the order of the keys.\<close>

definition in_seqs :: "actors \<Rightarrow> PdnId \<Rightarrow> nat \<Rightarrow> nat \<Rightarrow> (PdnId \<times> nat) list" where
  "in_seqs actors chain start bound =
     concat (map snd (sort_key fst (filter (\<lambda>(seq, _). start < seq \<and> seq \<le> bound) (hget_or [] actors chain))))"

definition upto_of :: "Rests \<Rightarrow> PdnId \<Rightarrow> nat" where
  "upto_of rests chain = (case rs_upto rests chain of None \<Rightarrow> 0 | Some bound \<Rightarrow> bound)"

text \<open>The events at sequences no chain has been taken up to, for the end of the loop.\<close>

definition events_above :: "(nat, (PdnId \<times> nat) list) hmap \<Rightarrow> nat \<Rightarrow> nat" where
  "events_above held bound = sum_list (map (\<lambda>(seq, events). if bound < seq then length events else 0) held)"

definition events_left :: "actors \<Rightarrow> Rests \<Rightarrow> nat" where
  "events_left actors rests = sum_list (map (\<lambda>(chain, held). events_above held (upto_of rests chain)) actors)"

function rests_loop :: "actors \<Rightarrow> (PdnId \<times> nat) list \<Rightarrow> Rests \<Rightarrow> Rests" where
  "rests_loop actors work rests =
     (if work = [] then rests
      else (let (chain, bound) = List.last work; work = butlast work; start = upto_of rests chain
            in if bound \<le> start then rests_loop actors work rests
               else (let rests = rests\<lparr>rs_upto := (rs_upto rests)(chain \<mapsto> bound)\<rparr>;
                         named = in_seqs actors chain start bound
                     in rests_loop actors (work @ named)
                          (rests\<lparr>rs_statements_of := rs_statements_of rests \<union> fst ` set named\<rparr>))))"
  by auto

lemma events_above_take:
  assumes "start \<le> bound"
  shows "events_above held start =
     length (concat (map snd (filter (\<lambda>(seq, _). start < seq \<and> seq \<le> bound) held))) + events_above held bound"
  unfolding events_above_def
proof (induction held)
  case (Cons x held)
  then show ?case using assms by (cases x; cases "start < fst x"; cases "bound < fst x") auto
qed simp

lemma length_concat_sort: "length (concat (map snd (sort_key f xs))) = length (concat (map snd xs))"
proof -
  have ins: "length (concat (map snd (insort_key f x xs))) = length (snd x) + length (concat (map snd xs))" for x xs
    by (induction xs) auto
  show ?thesis by (induction xs) (simp_all add: ins)
qed

lemma events_left_take:
  assumes "upto_of rests chain < bound"
  shows "length (in_seqs actors chain (upto_of rests chain) bound) +
    events_left actors (rests\<lparr>rs_upto := (rs_upto rests)(chain \<mapsto> bound)\<rparr>) \<le> events_left actors rests"
proof (induction actors)
  case Nil
  then show ?case by (simp add: events_left_def in_seqs_def)
next
  case (Cons a actors)
  obtain c held where a: "a = (c, held)" by force
  define r where "r = rests\<lparr>rs_upto := (rs_upto rests)(chain \<mapsto> bound)\<rparr>"
  have upto: "upto_of r c' = (if c' = chain then bound else upto_of rests c')" for c' by (simp add: upto_of_def r_def)
  have left: "events_left (a # actors) r = events_above held (upto_of r c) + events_left actors r" for r
    by (simp add: events_left_def a)
  note IH = Cons [folded r_def]
  have mono: "events_left actors r \<le> events_left actors rests"
    unfolding events_left_def upto
    by (rule sum_list_mono) (use events_above_take [OF less_imp_le [OF assms]] in \<open>simp split: prod.splits\<close>)
  show ?case
  proof (cases "c = chain")
    case True
    have "length (in_seqs (a # actors) chain (upto_of rests chain) bound) =
        length (concat (map snd (filter (\<lambda>(seq, _). upto_of rests chain < seq \<and> seq \<le> bound) held)))"
      unfolding in_seqs_def length_concat_sort by (simp add: a True hget_or_def)
    with mono events_above_take [of "upto_of rests chain" bound held] assms True show ?thesis
      unfolding r_def [symmetric] left upto by simp
  next
    case False
    then have "in_seqs (a # actors) chain (upto_of rests chain) bound = in_seqs actors chain (upto_of rests chain) bound"
      by (simp add: in_seqs_def a hget_or_def)
    with IH False show ?thesis unfolding r_def [symmetric] left upto by simp
  qed
qed

termination rests_loop
proof (relation "measure (\<lambda>(actors, work, rests). 2 * events_left actors rests + length work)", goal_cases)
  case (3 actors work rests p chain bound rest start rests' named)
  have ev: "events_left actors (r\<lparr>rs_statements_of := x\<rparr>) = events_left actors r" for r x
    by (simp add: events_left_def upto_of_def)
  have "length (in_seqs actors chain (upto_of rests chain) bound) +
      events_left actors (rests\<lparr>rs_upto := (rs_upto rests)(chain \<mapsto> bound)\<rparr>) \<le> events_left actors rests"
    using 3 by (intro events_left_take) auto
  with 3 show ?case by (cases work rule: rev_cases) (auto simp: ev)
qed auto

declare rests_loop.simps [simp del]

definition rests_of :: "HeldEntry list \<Rightarrow> PdnId \<Rightarrow> Rests" where
  "rests_of entries member =
     rests_loop (actors_of entries) [(member, U64_MAX)] \<lparr>rs_upto = (\<lambda>_. None), rs_statements_of = {member}\<rparr>"

definition rests_admits :: "Rests \<Rightarrow> bytes \<Rightarrow> bool" where
  "rests_admits rests key =
     (case membership_parse key of
        Some (MEvent subject seq kind actor actor_seq) \<Rightarrow>
          (case rs_upto rests subject of None \<Rightarrow> False | Some bound \<Rightarrow> unat seq \<le> bound)
      | Some (MDevices member version) \<Rightarrow> member \<in> rs_statements_of rests
      | None \<Rightarrow> False)"

subsection \<open>The past is what its entries depend on\<close>






subsection \<open>What a departed replica takes, by the events it takes\<close>

text \<open>The points of the chains a departed replica takes: its own chain, and what the events there name.\<close>

inductive covers :: "HeldEntry list \<Rightarrow> PdnId \<Rightarrow> PdnId \<Rightarrow> nat \<Rightarrow> bool" for entries member where
  covers_own: "s \<le> U64_MAX \<Longrightarrow> covers entries member member s"
| covers_actor: "covers entries member subject (unat seq) \<Longrightarrow> 1 \<le> unat seq \<Longrightarrow> held \<in> set entries \<Longrightarrow>
    membership_parse (he_key held) = Some (MEvent subject seq kind actor actor_seq) \<Longrightarrow>
    0 < unat actor_seq \<Longrightarrow> s \<le> unat actor_seq \<Longrightarrow> covers entries member actor s"

lemma covers_below: "covers entries member c s \<Longrightarrow> s' \<le> s \<Longrightarrow> covers entries member c s'"
  by (induction rule: covers.induct) (auto intro: covers.intros)

definition names :: "HeldEntry list \<Rightarrow> PdnId \<Rightarrow> nat \<Rightarrow> PdnId \<Rightarrow> nat \<Rightarrow> bool" where
  "names entries c s a n \<longleftrightarrow> (\<exists>held seq kind actor_seq. held \<in> set entries \<and>
     membership_parse (he_key held) = Some (MEvent c seq kind a actor_seq) \<and> unat seq = s \<and> unat actor_seq = n)"

lemma actors_of_names:
  "(a, n) \<in> set (hget_or [] (hget_or [] (actors_of entries) c) s) \<longleftrightarrow> names entries c s a n"
proof -
  have "(a, n) \<in> set (hget_or [] (hget_or [] (fold actors_entry es m) c) s) \<longleftrightarrow>
      (a, n) \<in> set (hget_or [] (hget_or [] m c) s) \<or> names es c s a n" for es m
  proof (induction es arbitrary: m)
    case (Cons e es)
    have "(a, n) \<in> set (hget_or [] (hget_or [] (actors_entry e m) c) s) \<longleftrightarrow>
        (a, n) \<in> set (hget_or [] (hget_or [] m c) s) \<or> names [e] c s a n"
      by (auto simp: actors_entry_def names_def hmap_simps split: option.splits MembershipKey.splits)
    with Cons show ?case by (auto simp: names_def)
  qed (simp add: names_def)
  then show ?thesis by (simp add: actors_of_def)
qed

lemma actors_of_distinct: "distinct (map fst (hget_or [] (actors_of entries) c))"
proof -
  have "\<forall>c. distinct (map fst (hget_or [] (fold actors_entry es m) c))"
    if "\<forall>c. distinct (map fst (hget_or [] m c))" for es m
    using that
  proof (induction es arbitrary: m)
    case (Cons e es)
    have "\<forall>c. distinct (map fst (hget_or [] (actors_entry e m) c))"
      using Cons.prems by (auto simp: actors_entry_def hmap_simps split: option.splits MembershipKey.splits)
    with Cons.IH show ?case by simp
  qed simp
  then show ?thesis by (simp add: actors_of_def)
qed

lemma in_seqs_names:
  "(a, n) \<in> set (in_seqs (actors_of entries) c s b) \<longleftrightarrow> (\<exists>q. s < q \<and> q \<le> b \<and> names entries c q a n)"
proof -
  let ?h = "hget_or [] (actors_of entries) c"
  have "(q, evs) \<in> set ?h \<longleftrightarrow> map_of ?h q = Some evs" for q evs
    using actors_of_distinct by (metis (no_types) map_of_eq_Some_iff)
  then have "(a, n) \<in> set (in_seqs (actors_of entries) c s b) \<longleftrightarrow>
      (\<exists>q evs. s < q \<and> q \<le> b \<and> map_of ?h q = Some evs \<and> (a, n) \<in> set evs)"
    by (auto simp: in_seqs_def split: prod.splits)
  also have "\<dots> \<longleftrightarrow> (\<exists>q. s < q \<and> q \<le> b \<and> (a, n) \<in> set (hget_or [] ?h q))"
    by (auto simp: hget_or_def split: option.splits) (metis option.exhaust)
  finally show ?thesis by (simp add: actors_of_names)
qed

lemma names_covers: "names entries c q a n \<Longrightarrow> covers entries member c q \<Longrightarrow> 1 \<le> q \<Longrightarrow> 0 < n \<Longrightarrow> covers entries member a n"
  by (auto simp: names_def intro: covers_actor)

definition rests_sound :: "HeldEntry list \<Rightarrow> PdnId \<Rightarrow> (PdnId \<times> nat) list \<Rightarrow> Rests \<Rightarrow> bool" where
  "rests_sound entries member work rests \<longleftrightarrow>
     (\<forall>c b. rs_upto rests c = Some b \<longrightarrow> covers entries member c b) \<and>
     (\<forall>c b. (c, b) \<in> set work \<longrightarrow> b = 0 \<or> covers entries member c b) \<and>
     (\<forall>a\<in>rs_statements_of rests. a = member \<or> (\<exists>c q n. covers entries member c q \<and> 1 \<le> q \<and> names entries c q a n))"

definition rests_complete :: "HeldEntry list \<Rightarrow> PdnId \<Rightarrow> (PdnId \<times> nat) list \<Rightarrow> Rests \<Rightarrow> bool" where
  "rests_complete entries member work rests \<longleftrightarrow>
     (\<forall>c q a n. 1 \<le> q \<and> q \<le> upto_of rests c \<and> names entries c q a n \<longrightarrow>
        a \<in> rs_statements_of rests \<and> (n \<le> upto_of rests a \<or> (\<exists>b\<ge>n. (a, b) \<in> set work))) \<and>
     (U64_MAX \<le> upto_of rests member \<or> (member, U64_MAX) \<in> set work) \<and> member \<in> rs_statements_of rests \<and>
     (\<forall>c. rs_upto rests c \<noteq> Some 0)"

lemma rests_loop_step:
  "rests_loop actors [] rests = rests"
  "rests_loop actors (work @ [(chain, bound)]) rests =
     (if bound \<le> upto_of rests chain then rests_loop actors work rests
      else rests_loop actors (work @ in_seqs actors chain (upto_of rests chain) bound)
        (rests\<lparr>rs_upto := (rs_upto rests)(chain \<mapsto> bound),
           rs_statements_of := rs_statements_of rests \<union> fst ` set (in_seqs actors chain (upto_of rests chain) bound)\<rparr>))"
  by (subst rests_loop.simps; simp add: Let_def)+

lemma rests_take:
  assumes "rests_sound entries member (work @ [(chain, bound)]) rests"
    and "rests_complete entries member (work @ [(chain, bound)]) rests" and less: "upto_of rests chain < bound"
  defines "named \<equiv> in_seqs (actors_of entries) chain (upto_of rests chain) bound"
  defines "rests' \<equiv> rests\<lparr>rs_upto := (rs_upto rests)(chain \<mapsto> bound),
      rs_statements_of := rs_statements_of rests \<union> fst ` set named\<rparr>"
  shows "rests_sound entries member (work @ named) rests'" and "rests_complete entries member (work @ named) rests'"
proof -
  have cb: "covers entries member chain bound" using assms(1) less by (auto simp: rests_sound_def)
  have named: "(a, n) \<in> set named \<longleftrightarrow> (\<exists>q. upto_of rests chain < q \<and> q \<le> bound \<and> names entries chain q a n)" for a n
    by (simp add: named_def in_seqs_names)
  have pt: "covers entries member chain q" if "q \<le> bound" for q using cb covers_below that by blast
  have upto: "upto_of rests' c = (if c = chain then bound else upto_of rests c)" for c
    by (simp add: rests'_def upto_of_def)
  show "rests_sound entries member (work @ named) rests'"
    unfolding rests_sound_def
  proof (intro conjI)
    show "\<forall>c b. rs_upto rests' c = Some b \<longrightarrow> covers entries member c b"
    proof (intro allI impI)
      fix c b assume c: "rs_upto rests' c = Some b"
      show "covers entries member c b"
      proof (cases "c = chain")
        case True
        then show ?thesis using c cb by (simp add: rests'_def)
      next
        case False
        then have "rs_upto rests c = Some b" using c by (simp add: rests'_def)
        then show ?thesis using assms(1) unfolding rests_sound_def by blast
      qed
    qed
    have "n = 0 \<or> covers entries member a n" if an: "(a, n) \<in> set named" for a n
    proof -
      obtain q where "upto_of rests chain < q" "q \<le> bound" "names entries chain q a n"
        using an [unfolded named] by blast
      moreover from this have "1 \<le> q" by simp
      ultimately show ?thesis using names_covers [of entries chain q a n member] pt [of q] by (cases "n = 0") simp_all
    qed
    then show "\<forall>c b. (c, b) \<in> set (work @ named) \<longrightarrow> b = 0 \<or> covers entries member c b"
      using assms(1) unfolding rests_sound_def set_append by blast
    show "\<forall>a\<in>rs_statements_of rests'. a = member \<or> (\<exists>c q n. covers entries member c q \<and> 1 \<le> q \<and> names entries c q a n)"
    proof
      fix a assume "a \<in> rs_statements_of rests'"
      then consider "a \<in> rs_statements_of rests" | n where "(a, n) \<in> set named" by (auto simp: rests'_def)
      then show "a = member \<or> (\<exists>c q n. covers entries member c q \<and> 1 \<le> q \<and> names entries c q a n)"
      proof cases
        case 1 then show ?thesis using assms(1) unfolding rests_sound_def by blast
      next
        case 2
        then obtain q where q: "upto_of rests chain < q" "q \<le> bound" "names entries chain q a n"
          unfolding named by blast
        then have "1 \<le> q" by simp
        with q pt [of q] show ?thesis by blast
      qed
    qed
  qed
  have grow1: "upto_of rests c \<le> upto_of rests' c" for c using less unfolding upto by simp
  have grow2: "rs_statements_of rests \<subseteq> rs_statements_of rests'" by (auto simp: rests'_def)
  have reach: "a \<in> rs_statements_of rests' \<and> (n \<le> upto_of rests' a \<or> (\<exists>b\<ge>n. (a, b) \<in> set (work @ named)))"
    if n: "1 \<le> q" "q \<le> upto_of rests' c" "names entries c q a n" for c q a n
  proof (cases "q \<le> upto_of rests c")
    case True
    then have old: "a \<in> rs_statements_of rests \<and> (n \<le> upto_of rests a \<or> (\<exists>b\<ge>n. (a, b) \<in> set (work @ [(chain, bound)])))"
      using assms(2) n unfolding rests_complete_def by blast
    moreover have "n \<le> upto_of rests' chain" if "n \<le> bound" using that by (simp add: upto)
    ultimately show ?thesis using grow2 order_trans [OF _ grow1 [of a]] by auto
  next
    case False
    then have "c = chain" "upto_of rests chain < q" "q \<le> bound" using n(2) by (auto simp: upto split: if_splits)
    then have "(a, n) \<in> set named" unfolding named using n(3) by blast
    then show ?thesis by (force simp: rests'_def)
  qed
  show "rests_complete entries member (work @ named) rests'"
    unfolding rests_complete_def
  proof (intro conjI allI impI; (elim conjE)?)
    fix c q a n assume "1 \<le> q" "q \<le> upto_of rests' c" "names entries c q a n"
    from reach [OF this] show "a \<in> rs_statements_of rests'" "n \<le> upto_of rests' a \<or> (\<exists>b\<ge>n. (a, b) \<in> set (work @ named))"
      by blast+
  next
    have "U64_MAX \<le> upto_of rests member \<or> (member, U64_MAX) \<in> set work \<or> member = chain \<and> U64_MAX = bound"
      using assms(2) by (auto simp: rests_complete_def)
    then show "U64_MAX \<le> upto_of rests' member \<or> (member, U64_MAX) \<in> set (work @ named)"
      using grow1 [of member] by (auto simp: upto)
  next
    show "member \<in> rs_statements_of rests'" using assms(2) grow2 by (auto simp: rests_complete_def)
  next
    fix c show "rs_upto rests' c \<noteq> Some 0" using assms(2) less by (auto simp: rests_complete_def rests'_def)
  qed
qed

lemma rests_skip:
  assumes "rests_sound entries member (work @ [(chain, bound)]) rests"
    and "rests_complete entries member (work @ [(chain, bound)]) rests" and le: "bound \<le> upto_of rests chain"
  shows "rests_sound entries member work rests" and "rests_complete entries member work rests"
proof -
  show "rests_sound entries member work rests" using assms(1) unfolding rests_sound_def set_append by blast
  have "a \<in> rs_statements_of rests \<and> (n \<le> upto_of rests a \<or> (\<exists>b\<ge>n. (a, b) \<in> set work))"
    if "1 \<le> q" "q \<le> upto_of rests c" "names entries c q a n" for c q a n
  proof -
    have "a \<in> rs_statements_of rests \<and> (n \<le> upto_of rests a \<or> (\<exists>b\<ge>n. (a, b) \<in> set (work @ [(chain, bound)])))"
      using assms(2) that unfolding rests_complete_def by blast
    then show ?thesis using le by (auto intro: order_trans)
  qed
  then show "rests_complete entries member work rests"
    using assms(2) le by (auto simp: rests_complete_def)
qed

lemma rests_loop_correct:
  "rests_sound entries member work rests \<Longrightarrow> rests_complete entries member work rests \<Longrightarrow>
   rests_sound entries member [] (rests_loop (actors_of entries) work rests) \<and>
   rests_complete entries member [] (rests_loop (actors_of entries) work rests)"
proof (induction "actors_of entries" work rests rule: rests_loop.induct)
  case (1 work rests)
  show ?case
  proof (cases work rule: rev_cases)
    case Nil
    then show ?thesis using 1 by (simp add: rests_loop_step)
  next
    case (snoc rest x)
    obtain chain bound where x: "x = (chain, bound)" by force
    note inv = 1(3,4) [unfolded snoc x]
    show ?thesis
    proof (cases "bound \<le> upto_of rests chain")
      case True
      from 1(1) [of "(chain, bound)" chain bound rest "upto_of rests chain"] rests_skip [OF inv True] True
      show ?thesis unfolding snoc x rests_loop_step by (simp add: snoc x)
    next
      case False
      then have less: "upto_of rests chain < bound" by simp
      from 1(2) [of "(chain, bound)" chain bound rest "upto_of rests chain" _ "in_seqs (actors_of entries) chain (upto_of rests chain) bound"]
        rests_take [OF inv less] False
      show ?thesis unfolding snoc x rests_loop_step by (simp add: snoc x)
    qed
  qed
qed

lemma rests_of_correct:
  "rests_sound entries member [] (rests_of entries member) \<and> rests_complete entries member [] (rests_of entries member)"
proof -
  let ?r = "\<lparr>rs_upto = (\<lambda>_. None), rs_statements_of = {member}\<rparr>"
  have "rests_sound entries member [(member, U64_MAX)] ?r"
    by (auto simp: rests_sound_def intro: covers_own)
  moreover have "rests_complete entries member [(member, U64_MAX)] ?r"
    by (auto simp: rests_complete_def upto_of_def)
  ultimately show ?thesis unfolding rests_of_def by (rule rests_loop_correct)
qed

lemma rests_upto_covers:
  "covers entries member c s \<longleftrightarrow> (\<exists>b. rs_upto (rests_of entries member) c = Some b \<and> s \<le> b)"
proof
  let ?r = "rests_of entries member"
  note full = rests_of_correct [of entries member, THEN conjunct2, unfolded rests_complete_def, simplified]
  have some: "\<exists>b. rs_upto ?r c = Some b \<and> s \<le> b" if "s \<le> upto_of ?r c" "0 < upto_of ?r c" for c s
    using that by (auto simp: upto_of_def split: option.splits)
  show "covers entries member c s \<Longrightarrow> \<exists>b. rs_upto ?r c = Some b \<and> s \<le> b"
  proof (induction rule: covers.induct)
    case (covers_own s)
    have "U64_MAX \<le> upto_of ?r member" using full by simp
    then show ?case using covers_own by (intro some) (auto simp: U64_MAX_def)
  next
    case (covers_actor subject seq held kind actor actor_seq s)
    then have "names entries subject (unat seq) actor (unat actor_seq)" by (auto simp: names_def)
    moreover have "unat seq \<le> upto_of ?r subject" using covers_actor.IH by (auto simp: upto_of_def)
    ultimately have "unat actor_seq \<le> upto_of ?r actor" using full covers_actor.hyps(2) by (metis One_nat_def)
    then show ?case using covers_actor.hyps by (intro some) auto
  qed
next
  assume "\<exists>b. rs_upto (rests_of entries member) c = Some b \<and> s \<le> b"
  then show "covers entries member c s"
    using rests_of_correct [of entries member] covers_below unfolding rests_sound_def by blast
qed

lemma rests_statements_covers:
  "a \<in> rs_statements_of (rests_of entries member) \<longleftrightarrow>
     a = member \<or> (\<exists>c q n. covers entries member c q \<and> 1 \<le> q \<and> names entries c q a n)"
proof
  assume "a \<in> rs_statements_of (rests_of entries member)"
  then show "a = member \<or> (\<exists>c q n. covers entries member c q \<and> 1 \<le> q \<and> names entries c q a n)"
    using rests_of_correct [of entries member] unfolding rests_sound_def by blast
next
  let ?r = "rests_of entries member"
  assume "a = member \<or> (\<exists>c q n. covers entries member c q \<and> 1 \<le> q \<and> names entries c q a n)"
  then consider "a = member" | c q n where "covers entries member c q" "1 \<le> q" "names entries c q a n" by blast
  then show "a \<in> rs_statements_of ?r"
  proof cases
    case 1 then show ?thesis using rests_of_correct [of entries member] by (simp add: rests_complete_def)
  next
    case 2
    then have "q \<le> upto_of ?r c" by (auto simp: rests_upto_covers upto_of_def)
    then show ?thesis using rests_of_correct [of entries member] 2 unfolding rests_complete_def by blast
  qed
qed

subsection \<open>Properties\<close>


text \<open>
  C22: a departed replica takes an event exactly when it is on its own chain, or at or below a point an
  event it takes names as its actor's; and a device statement exactly when it is its own identity's or
  of an actor such an event names.
\<close>

theorem rests_admits_iff:
  "rests_admits (rests_of entries member) key \<longleftrightarrow>
     (case membership_parse key of
        Some (MEvent subject seq kind actor actor_seq) \<Rightarrow> covers entries member subject (unat seq)
      | Some (MDevices who version) \<Rightarrow>
          who = member \<or> (\<exists>c q n. covers entries member c q \<and> 1 \<le> q \<and> names entries c q who n)
      | None \<Rightarrow> False)"
  by (auto simp: rests_admits_def rests_upto_covers rests_statements_covers
      split: option.splits MembershipKey.splits)


end
