(* ===== verification/Registry.thy ===== *)
theory Registry
  imports Record_View "HOL-Library.Multiset"
begin

text \<open>
  The node's map from a pod to its two stores, \<^verbatim>\<open>crates/data-layer/src/registry.rs\<close>, and the guard
  \<^verbatim>\<open>crates/data-layer/src/node.rs\<close> puts before a namespace takes a pod's role. A \<open>Doc\<close> is the namespace it
  opens. The map is an association list in the order one iteration walks it. A poisoned lock is not
  modelled: no section that holds it panics.
\<close>

record PodBinding =
  pb_membership :: NamespaceId
  pb_records :: "NamespaceId option"



definition store_of :: "PodBinding \<Rightarrow> NamespaceId \<Rightarrow> PodStore option" where
  "store_of binding namespace =
     (if pb_membership binding = namespace then Some MembershipStore
      else if pb_records binding = Some namespace then Some RecordStore
      else None)"









subsection \<open>What the node does to its registry\<close>



subsection \<open>Lemmas\<close>

lemma store_of_iff:
  "store_of b ns \<noteq> None \<longleftrightarrow> pb_membership b = ns \<or> pb_records b = Some ns"
  by (simp add: store_of_def)









subsection \<open>Properties\<close>



end
