(* ===== verification/Store_Entry.thy ===== *)
theory Store_Entry
  imports Record_View
begin

text \<open>
  The entries a replica holds, \<^verbatim>\<open>crates/pdn-store/src/sync.rs\<close> and \<^verbatim>\<open>crates/pdn-store/src/keys.rs\<close>: record
  identifiers and their order, records and what supersedes what, the bytes an entry is signed over and
  the ones its fingerprint hashes, signatures, and the validation of an entry before it is stored.

  A record identifier is held as one byte string of at least 64 bytes; it is modelled by its three parts,
  and \<open>rid_order_bytes\<close> shows that their order is the order of the byte strings. The hash function is a
  parameter beside the signature scheme, as in \<^verbatim>\<open>Identity_Key\<close>; \<open>Hash::EMPTY\<close> is the hash of no bytes.
  The store's memo of parsed public keys is left out: it answers what parsing answers.
\<close>

declare split_paired_All [simp del] split_paired_Ex [simp del]

record store_crypto = crypto +
  blake3 :: "bytes \<Rightarrow> Hash"

subsection \<open>Keys\<close>

type_synonym Author = secret_key
type_synonym NamespaceSecret = secret_key
type_synonym PeerIdBytes = "256 word"

definition author_id :: "('x) crypto_scheme \<Rightarrow> Author \<Rightarrow> AuthorId" where
  "author_id c author = public c author"

definition namespace_id :: "('x) crypto_scheme \<Rightarrow> NamespaceSecret \<Rightarrow> NamespaceId" where
  "namespace_id c secret = public c secret"

datatype Capability = WriteCapability NamespaceSecret

fun capability_id :: "('x) crypto_scheme \<Rightarrow> Capability \<Rightarrow> NamespaceId" where
  "capability_id c (WriteCapability secret) = namespace_id c secret"

fun capability_secret_key :: "Capability \<Rightarrow> NamespaceSecret" where
  "capability_secret_key (WriteCapability secret) = secret"

definition WRITE_KIND :: byte where "WRITE_KIND = 1"

fun capability_raw :: "Capability \<Rightarrow> byte \<times> 256 word" where
  "capability_raw (WriteCapability secret) = (WRITE_KIND, secret)"

definition capability_from_raw :: "byte \<Rightarrow> 256 word \<Rightarrow> Capability option" where
  "capability_from_raw kind secret = (if kind = WRITE_KIND then Some (WriteCapability secret) else None)"

subsection \<open>Record identifiers\<close>

datatype RecordIdentifier =
  RecordIdentifier (rid_namespace: NamespaceId) (rid_author: AuthorId) (rid_key: bytes)

definition ID_HEAD_BYTES :: nat where "ID_HEAD_BYTES = 64"

definition rid_default :: RecordIdentifier where
  "rid_default = RecordIdentifier 0 0 []"

fun rid_bytes :: "RecordIdentifier \<Rightarrow> bytes" where
  "rid_bytes (RecordIdentifier namespace author key) = arr_bytes namespace @ arr_bytes author @ key"

definition record_identifier_from_bytes :: "bytes \<Rightarrow> RecordIdentifier option" where
  "record_identifier_from_bytes bs =
     (if length bs < ID_HEAD_BYTES then None
      else Some (RecordIdentifier (arr_of (take 32 bs)) (arr_of (take 32 (drop 32 bs))) (drop 64 bs)))"

definition rid_tuple :: "RecordIdentifier \<Rightarrow> NamespaceId \<times> AuthorId \<times> bytes" where
  "rid_tuple r = (rid_namespace r, rid_author r, rid_key r)"

instantiation RecordIdentifier :: linorder
begin

definition less_eq_RecordIdentifier :: "RecordIdentifier \<Rightarrow> RecordIdentifier \<Rightarrow> bool" where
  "less_eq_RecordIdentifier a b \<longleftrightarrow> rid_tuple a \<le> rid_tuple b"

definition less_RecordIdentifier :: "RecordIdentifier \<Rightarrow> RecordIdentifier \<Rightarrow> bool" where
  "less_RecordIdentifier a b \<longleftrightarrow> rid_tuple a < rid_tuple b"

instance
proof
  fix a b :: RecordIdentifier
  assume "a \<le> b" "b \<le> a"
  then have "rid_tuple a = rid_tuple b" unfolding less_eq_RecordIdentifier_def by simp
  then show "a = b" by (cases a; cases b) (simp add: rid_tuple_def)
qed (auto simp: less_eq_RecordIdentifier_def less_RecordIdentifier_def)

end

subsection \<open>Records\<close>

record Record =
  rec_len :: "64 word"
  rec_hash :: Hash
  rec_timestamp :: "64 word"

text \<open>What \<open>Ord for Record\<close> compares: the length takes no part.\<close>

definition record_rank :: "Record \<Rightarrow> 64 word \<times> Hash" where
  "record_rank r = (rec_timestamp r, rec_hash r)"

definition hash_EMPTY :: "'x store_crypto_scheme \<Rightarrow> Hash" where
  "hash_EMPTY c = blake3 c []"

definition record_empty :: "'x store_crypto_scheme \<Rightarrow> 64 word \<Rightarrow> Record" where
  "record_empty c timestamp = \<lparr>rec_len = 0, rec_hash = hash_EMPTY c, rec_timestamp = timestamp\<rparr>"

definition record_is_empty :: "'x store_crypto_scheme \<Rightarrow> Record \<Rightarrow> bool" where
  "record_is_empty c r \<longleftrightarrow> rec_hash r = hash_EMPTY c"

definition record_encode :: "Record \<Rightarrow> bytes" where
  "record_encode r = arr_bytes (rec_len r) @ arr_bytes (rec_hash r) @ arr_bytes (rec_timestamp r)"

subsection \<open>Entries and their signatures\<close>

record Entry =
  ent_id :: RecordIdentifier
  ent_record :: Record

record EntrySignature =
  author_signature :: signature
  namespace_signature :: signature

record SignedEntry =
  se_signature :: EntrySignature
  se_entry :: Entry

abbreviation se_id :: "SignedEntry \<Rightarrow> RecordIdentifier" where "se_id e \<equiv> ent_id (se_entry e)"
abbreviation se_record :: "SignedEntry \<Rightarrow> Record" where "se_record e \<equiv> ent_record (se_entry e)"
abbreviation se_namespace :: "SignedEntry \<Rightarrow> NamespaceId" where "se_namespace e \<equiv> rid_namespace (se_id e)"
abbreviation se_author :: "SignedEntry \<Rightarrow> AuthorId" where "se_author e \<equiv> rid_author (se_id e)"
abbreviation se_key :: "SignedEntry \<Rightarrow> bytes" where "se_key e \<equiv> rid_key (se_id e)"
abbreviation se_timestamp :: "SignedEntry \<Rightarrow> 64 word" where "se_timestamp e \<equiv> rec_timestamp (se_record e)"
abbreviation se_hash :: "SignedEntry \<Rightarrow> Hash" where "se_hash e \<equiv> rec_hash (se_record e)"
abbreviation se_len :: "SignedEntry \<Rightarrow> 64 word" where "se_len e \<equiv> rec_len (se_record e)"
abbreviation se_rank :: "SignedEntry \<Rightarrow> 64 word \<times> Hash" where "se_rank e \<equiv> record_rank (se_record e)"

definition entry_to_vec :: "Entry \<Rightarrow> bytes" where
  "entry_to_vec e = rid_bytes (ent_id e) @ record_encode (ent_record e)"

definition signature_from_entry :: "('x) crypto_scheme \<Rightarrow> Entry \<Rightarrow> NamespaceSecret \<Rightarrow> Author \<Rightarrow> EntrySignature" where
  "signature_from_entry c e namespace author =
     (let bs = entry_to_vec e
      in \<lparr>author_signature = sign c author bs, namespace_signature = sign c namespace bs\<rparr>)"

definition signed_from_entry :: "('x) crypto_scheme \<Rightarrow> Entry \<Rightarrow> NamespaceSecret \<Rightarrow> Author \<Rightarrow> SignedEntry" where
  "signed_from_entry c e namespace author =
     \<lparr>se_signature = signature_from_entry c e namespace author, se_entry = e\<rparr>"

definition signature_verify ::
    "('x) crypto_scheme \<Rightarrow> EntrySignature \<Rightarrow> Entry \<Rightarrow> identity_key \<Rightarrow> identity_key \<Rightarrow> bool" where
  "signature_verify c s e namespace author \<longleftrightarrow>
     (let bs = entry_to_vec e
      in verify c namespace bs (namespace_signature s) \<and> verify c author bs (author_signature s))"

datatype SignedEntryVerifyError = KeyParsing | SignatureFailed

definition signed_verify :: "('x) crypto_scheme \<Rightarrow> SignedEntry \<Rightarrow> SignedEntryVerifyError + unit" where
  "signed_verify c e =
     (if \<not> valid_key c (se_namespace e) \<or> \<not> valid_key c (se_author e) then Inl KeyParsing
      else if signature_verify c (se_signature e) (se_entry e) (se_namespace e) (se_author e) then Inr ()
      else Inl SignatureFailed)"

text \<open>The bytes \<open>as_fingerprint\<close> hashes, and the fingerprint.\<close>

definition fingerprint_bytes :: "SignedEntry \<Rightarrow> bytes" where
  "fingerprint_bytes e =
     concat [arr_bytes (se_namespace e), arr_bytes (se_author e), se_key e, arr_bytes (se_timestamp e),
       arr_bytes (se_hash e)]"

definition as_fingerprint :: "'x store_crypto_scheme \<Rightarrow> SignedEntry \<Rightarrow> 256 word" where
  "as_fingerprint c e = blake3 c (fingerprint_bytes e)"

subsection \<open>Validation\<close>

datatype ContentStatus = Complete | Incomplete | Missing

datatype InsertOrigin = Local | FromPeer PeerIdBytes ContentStatus

datatype ValidateOutcome = Accept | Drop

type_synonym SessionIngest = "SignedEntry \<Rightarrow> ValidateOutcome"
type_synonym EntryFilter = "SignedEntry \<Rightarrow> bool"

datatype ValidationFailure =
    InvalidNamespace | BadSignature | TooFarInTheFuture | KeyTooLong | InvalidEmptyEntry | NotAdmitted

definition MAX_TIMESTAMP_FUTURE_SHIFT :: "64 word" where
  "MAX_TIMESTAMP_FUTURE_SHIFT = 10 * 60 * 1000000"

definition MAX_KEY_BYTES :: nat where "MAX_KEY_BYTES = 8 * 1024"

definition validate_empty :: "'x store_crypto_scheme \<Rightarrow> Entry \<Rightarrow> ValidationFailure + unit" where
  "validate_empty c e =
     (if (rec_hash (ent_record e) = hash_EMPTY c) = (rec_len (ent_record e) = 0) then Inr ()
      else Inl InvalidEmptyEntry)"

definition validate_entry ::
    "'x store_crypto_scheme \<Rightarrow> 64 word \<Rightarrow> NamespaceId \<Rightarrow> SignedEntry \<Rightarrow> InsertOrigin \<Rightarrow>
      SessionIngest option \<Rightarrow> ValidationFailure + unit" where
  "validate_entry c now expected_namespace e origin ingest =
     (if se_namespace e \<noteq> expected_namespace then Inl InvalidNamespace
      else if MAX_KEY_BYTES < length (se_key e) then Inl KeyTooLong
      else case validate_empty c (se_entry e) of
        Inl failure \<Rightarrow> Inl failure
      | Inr _ \<Rightarrow>
          if origin \<noteq> Local \<and> signed_verify c e \<noteq> Inr () then Inl BadSignature
          else if now + MAX_TIMESTAMP_FUTURE_SHIFT < se_timestamp e then Inl TooFarInTheFuture
          else (case (origin, ingest) of
              (FromPeer _ _, Some verdict) \<Rightarrow> if verdict e = Drop then Inl NotAdmitted else Inr ()
            | _ \<Rightarrow> Inr ()))"

subsection \<open>The order of byte strings\<close>

lemma append_less_iff:
  fixes xs ys :: "'a::linorder list"
  assumes "length xs = length ys"
  shows "xs @ us < ys @ vs \<longleftrightarrow> xs < ys \<or> xs = ys \<and> us < vs"
  using assms by (induction xs ys rule: list_induct2) auto

lemma be_nat_Cons: "be_nat (b # bs) = unat b * 256 ^ length bs + be_nat bs"
proof (induction bs rule: rev_induct)
  case (snoc x xs)
  then show ?case using be_nat_snoc [of "b # xs" x] by (simp add: algebra_simps)
qed (use be_nat_snoc [of "[]" b] in simp)

lemma be_nat_less_iff:
  assumes "length xs = length ys"
  shows "xs < ys \<longleftrightarrow> be_nat xs < be_nat ys"
  using assms
proof (induction xs ys rule: list_induct2)
  case (Cons x xs y ys)
  have carry: "a * 256 ^ length xs + p < b * 256 ^ length xs + q" if "a < b" "p < 256 ^ length xs" for a b p q :: nat
  proof -
    have "a * 256 ^ length xs + p < Suc a * 256 ^ length xs" using that by simp
    also have "\<dots> \<le> b * 256 ^ length xs" using that by (intro mult_right_mono) auto
    finally show ?thesis by simp
  qed
  have b: "be_nat xs < 256 ^ length xs" "be_nat ys < 256 ^ length xs"
    using be_nat_less [of xs] be_nat_less [of ys] Cons.hyps by simp_all
  consider "x < y" | "x = y" | "y < x" by (rule linorder_cases)
  then show ?case
  proof cases
    case 1
    then show ?thesis using carry [of "unat x" "unat y"] b Cons.hyps
      by (simp add: be_nat_Cons word_less_nat_alt)
  next
    case 2
    then show ?thesis using Cons by (simp add: be_nat_Cons)
  next
    case 3
    then have "be_nat (y # ys) < be_nat (x # xs)" using carry [of "unat y" "unat x"] b Cons.hyps
      by (simp add: be_nat_Cons word_less_nat_alt)
    then show ?thesis using 3 by auto
  qed
qed simp

lemma arr_bytes_less:
  assumes "8 dvd LENGTH('a::len)"
  shows "arr_bytes (v :: 'a word) < arr_bytes w \<longleftrightarrow> v < w"
proof -
  have "be_nat (arr_bytes u) = unat u" for u :: "'a word"
    using assms unat_less [of u] by (simp add: arr_bytes_def be_nat_be_bytes power_256)
  then show ?thesis
    by (subst be_nat_less_iff) (simp_all add: length_arr_bytes word_less_nat_alt)
qed

subsection \<open>Lemmas\<close>

lemma rid_eqI: "rid_tuple a = rid_tuple b \<Longrightarrow> a = b"
  by (cases a; cases b) (simp add: rid_tuple_def)

interpretation rid_codec: wire_codec rid_bytes record_identifier_from_bytes
proof
  fix r :: RecordIdentifier
  show "record_identifier_from_bytes (rid_bytes r) = Some r"
    by (cases r) (simp add: record_identifier_from_bytes_def ID_HEAD_BYTES_def length_arr_bytes arr_of_arr_bytes)
next
  fix bs r
  assume a: "record_identifier_from_bytes bs = Some r"
  then have l: "64 \<le> length bs"
    by (simp add: record_identifier_from_bytes_def ID_HEAD_BYTES_def split: if_splits)
  then have "arr_bytes (arr_of (take 32 bs) :: 256 word) = take 32 bs"
    "arr_bytes (arr_of (take 32 (drop 32 bs)) :: 256 word) = take 32 (drop 32 bs)"
    by (simp_all add: arr_bytes_arr_of)
  moreover have "take 32 bs @ take 32 (drop 32 bs) @ drop 64 bs = bs"
    by (metis add.commute append_take_drop_id drop_drop numeral_Bit0)
  ultimately show "rid_bytes r = bs"
    using a l by (auto simp: record_identifier_from_bytes_def ID_HEAD_BYTES_def)
qed

lemma rid_order_bytes: "rid_bytes a < rid_bytes b \<longleftrightarrow> a < b"
  by (cases a; cases b)
    (auto simp: less_RecordIdentifier_def rid_tuple_def append_less_iff arr_bytes_less arr_bytes_inj length_arr_bytes)

lemma record_encode_inj: "record_encode r = record_encode s \<longleftrightarrow> r = s"
  by (auto simp: record_encode_def length_arr_bytes arr_bytes_inj)

lemma length_record_encode: "length (record_encode r) = 48"
  by (simp add: record_encode_def length_arr_bytes)

lemma entry_to_vec_inj: "entry_to_vec a = entry_to_vec b \<longleftrightarrow> a = b"
proof
  assume "entry_to_vec a = entry_to_vec b"
  then have "rid_bytes (ent_id a) = rid_bytes (ent_id b)" "record_encode (ent_record a) = record_encode (ent_record b)"
    by (simp_all add: entry_to_vec_def append_eq_append_conv length_record_encode)
  then show "a = b" by (simp add: rid_codec.encode_inj record_encode_inj)
qed simp

lemma fingerprint_bytes_inj:
  "fingerprint_bytes a = fingerprint_bytes b \<longleftrightarrow> se_id a = se_id b \<and> se_rank a = se_rank b"
proof -
  have "fingerprint_bytes e = rid_bytes (se_id e) @ arr_bytes (se_timestamp e) @ arr_bytes (se_hash e)" for e
    by (cases "se_id e") (simp add: fingerprint_bytes_def)
  then show ?thesis
    by (auto simp: append_eq_append_conv length_arr_bytes rid_codec.encode_inj arr_bytes_inj record_rank_def)
qed

end
