(* ===== verification/Store_Bounds.thy ===== *)
theory Store_Bounds
  imports Store_Entry "HOL-Library.Sublist"
begin

text \<open>
  The bounds of a range of the record tables, \<^verbatim>\<open>crates/pdn-store/src/store/fs/bounds.rs\<close>, with the two
  filters of \<^verbatim>\<open>crates/pdn-store/src/store.rs\<close> they are built from. A table row's key is the tuple the table
  declares, compared part by part; a range lists the rows between its bounds.

  The bounds of a namespace and of one author's keys select exactly those rows. The end of a key prefix
  is the prefix incremented as a number: where the prefix ends in the byte 255 but has another one, the
  range also holds the keys the theorem \<open>author_key_bounds\<close> lists.
\<close>

declare split_paired_All [simp del] split_paired_Ex [simp del]

datatype KeyFilter = AnyKey | ExactKey bytes | PrefixKey bytes

fun key_matches :: "KeyFilter \<Rightarrow> bytes \<Rightarrow> bool" where
  "key_matches AnyKey key = True"
| "key_matches (ExactKey k) key = (k = key)"
| "key_matches (PrefixKey p) key = prefix p key"

datatype AuthorFilter = AnyAuthor | ExactAuthor AuthorId

fun author_matches :: "AuthorFilter \<Rightarrow> AuthorId \<Rightarrow> bool" where
  "author_matches AnyAuthor author = True"
| "author_matches (ExactAuthor a) author = (a = author)"

datatype 'k Bound = Included 'k | Excluded 'k | Unbounded

type_synonym 'k bounds = "'k Bound \<times> 'k Bound"
type_synonym RecordsId = "NamespaceId \<times> AuthorId \<times> bytes"
type_synonym RecordsByKeyId = "NamespaceId \<times> bytes \<times> AuthorId"

fun after_start :: "'k::linorder Bound \<Rightarrow> 'k \<Rightarrow> bool" where
  "after_start (Included s) k = (s \<le> k)"
| "after_start (Excluded s) k = (s < k)"
| "after_start Unbounded k = True"

fun before_end :: "'k::linorder Bound \<Rightarrow> 'k \<Rightarrow> bool" where
  "before_end (Included e) k = (k \<le> e)"
| "before_end (Excluded e) k = (k < e)"
| "before_end Unbounded k = True"

definition in_bounds :: "'k::linorder bounds \<Rightarrow> 'k \<Rightarrow> bool" where
  "in_bounds b k \<longleftrightarrow> after_start (fst b) k \<and> before_end (snd b) k"

subsection \<open>Incrementing a byte string\<close>

text \<open>The loop walks the bytes from the last one; on the reversed list it is structural.\<close>

fun increment_rev :: "bytes \<Rightarrow> bool \<times> bytes" where
  "increment_rev [] = (False, [])"
| "increment_rev (b # bs) =
     (if b \<noteq> 255 then (True, (b + 1) # bs)
      else (let (incremented, rest) = increment_rev bs in (incremented, 0 # rest)))"

definition increment_by_one :: "bytes \<Rightarrow> bool \<times> bytes" where
  "increment_by_one bs = (let (incremented, r) = increment_rev (rev bs) in (incremented, rev r))"

definition increment_array :: "256 word \<Rightarrow> bool \<times> 256 word" where
  "increment_array a = (let (incremented, bs) = increment_by_one (arr_bytes a) in (incremented, arr_of bs))"

subsection \<open>Bounds on the records table\<close>

definition author_key :: "NamespaceId \<Rightarrow> AuthorId \<Rightarrow> KeyFilter \<Rightarrow> RecordsId bounds" where
  "author_key ns author key_matcher =
     (let key_is_exact = (case key_matcher of ExactKey _ \<Rightarrow> True | _ \<Rightarrow> False);
          key = (case key_matcher of AnyKey \<Rightarrow> [] | ExactKey k \<Rightarrow> k | PrefixKey p \<Rightarrow> p);
          start = (ns, author, key);
          key_end = increment_by_one key;
          author_end = increment_array author;
          ns_end = increment_array ns
      in (Included start,
          if key_is_exact then Included start
          else if fst key_end then Excluded (ns, author, snd key_end)
          else if fst author_end then Excluded (ns, snd author_end, [])
          else if fst ns_end then Excluded (snd ns_end, 0, [])
          else Unbounded))"

definition namespace_start :: "NamespaceId \<Rightarrow> RecordsId Bound" where
  "namespace_start ns = Included (ns, 0, [])"

definition namespace_end :: "NamespaceId \<Rightarrow> RecordsId Bound" where
  "namespace_end ns =
     (let ns_end = increment_array ns in if fst ns_end then Excluded (snd ns_end, 0, []) else Unbounded)"

definition namespace_bounds :: "NamespaceId \<Rightarrow> RecordsId bounds" where
  "namespace_bounds ns = (namespace_start ns, namespace_end ns)"

definition bounds_from_start :: "NamespaceId \<Rightarrow> RecordsId Bound \<Rightarrow> RecordsId bounds" where
  "bounds_from_start ns end_bound = (namespace_start ns, end_bound)"

definition bounds_to_end :: "NamespaceId \<Rightarrow> RecordsId Bound \<Rightarrow> RecordsId bounds" where
  "bounds_to_end ns start_bound = (start_bound, namespace_end ns)"

subsection \<open>Bounds on the by-key table\<close>

definition by_key_namespace :: "NamespaceId \<Rightarrow> RecordsByKeyId bounds" where
  "by_key_namespace ns =
     (let ns_end = increment_array ns
      in (Included (ns, [], 0), if fst ns_end then Excluded (snd ns_end, [], 0) else Unbounded))"

fun by_key_bounds :: "NamespaceId \<Rightarrow> KeyFilter \<Rightarrow> RecordsByKeyId bounds" where
  "by_key_bounds ns AnyKey = by_key_namespace ns"
| "by_key_bounds ns (ExactKey key) = (Included (ns, key, 0), Included (ns, key, - 1))"
| "by_key_bounds ns (PrefixKey p) =
     (let key_end = increment_by_one p; ns_end = increment_array ns
      in (Included (ns, p, 0),
          if fst key_end then Excluded (ns, snd key_end, 0)
          else if fst ns_end then Excluded (snd ns_end, [], 0)
          else Unbounded))"

text \<open>
  The keys without the prefix that the incremented end still admits: those that stop inside the zeros
  which replace the prefix's trailing 255 bytes.
\<close>

definition overshoot :: "bytes \<Rightarrow> bytes \<Rightarrow> bool" where
  "overshoot p key \<longleftrightarrow>
     (\<exists>q b m j. p = q @ b # replicate m 255 \<and> b \<noteq> 255 \<and> j < m \<and> key = q @ (b + 1) # replicate j 0)"

subsection \<open>Lemmas on the increment\<close>

lemma increment_rev_append:
  "increment_rev (replicate m 255 @ bs) =
     (let (ok, rest) = increment_rev bs in (ok, replicate m 0 @ rest))"
  by (induction m) (auto simp: Let_def split: prod.splits)

lemma rev_eq_replicate: "rev xs = replicate m x \<longleftrightarrow> xs = replicate m x"
  by (metis rev_replicate rev_rev_ident)

lemma increment_all_255: "increment_by_one (replicate m 255) = (False, replicate m 0)"
  using increment_rev_append [of m "[]"] by (simp add: increment_by_one_def)

lemma increment_decomposed:
  "b \<noteq> 255 \<Longrightarrow> increment_by_one (q @ b # replicate m 255) = (True, q @ (b + 1) # replicate m 0)"
  using increment_rev_append [of m "b # rev q"] by (simp add: increment_by_one_def)

lemma bytes_decompose:
  "(\<exists>m. bs = replicate m (255 :: byte)) \<or> (\<exists>q b m. bs = q @ b # replicate m 255 \<and> b \<noteq> 255)"
proof (induction bs rule: rev_induct)
  case (snoc x xs)
  show ?case
  proof (cases "x = 255")
    case False
    then have "xs @ [x] = xs @ x # replicate 0 255 \<and> x \<noteq> 255" by simp
    then show ?thesis by blast
  next
    case True
    have grow: "replicate m 255 @ [x] = replicate (Suc m) 255" for m
      using True by (simp add: replicate_append_same)
    from snoc show ?thesis
    proof (elim disjE exE conjE)
      fix m assume "xs = replicate m 255"
      then have "xs @ [x] = replicate (Suc m) 255" using grow by simp
      then show ?thesis by blast
    next
      fix q b m assume "xs = q @ b # replicate m 255" "b \<noteq> 255"
      then have "xs @ [x] = q @ b # replicate (Suc m) 255 \<and> b \<noteq> 255" using grow by simp
      then show ?thesis by blast
    qed
  qed
qed simp

lemma be_nat_replicate_255: "be_nat (replicate m 255) + 1 = 256 ^ m"
proof (induction m)
  case (Suc m)
  have "be_nat (replicate (Suc m) 255) = be_nat (replicate m 255) * 256 + 255"
    unfolding replicate_Suc replicate_append_same [symmetric] be_nat_snoc by simp
  then show ?case using Suc by simp
qed simp

lemma be_nat_append: "be_nat (xs @ ys) = be_nat xs * 256 ^ length ys + be_nat ys"
  by (induction xs) (simp_all add: be_nat_Cons algebra_simps power_add)

lemma be_nat_zeros [simp]: "be_nat (replicate m 0) = 0"
  by (induction m) (simp_all add: be_nat_Cons)

lemma unat_byte_Suc:
  assumes "b \<noteq> (255 :: byte)"
  shows "unat (b + 1) = unat b + 1"
proof -
  have "unat b < 256" using unat_less [of b] by simp
  moreover have "unat b \<noteq> 255" using assms by (simp add: word_unat_eq_iff)
  ultimately show ?thesis by (simp add: unat_word_ariths)
qed

lemma increment_counts:
  assumes "b \<noteq> (255 :: byte)"
  shows "be_nat (q @ (b + 1) # replicate m 0) = be_nat (q @ b # replicate m 255) + 1"
proof -
  have "be_nat (replicate m 255) + 1 = 256 ^ m" by (rule be_nat_replicate_255)
  then show ?thesis
    unfolding be_nat_append be_nat_Cons unat_byte_Suc [OF assms] by (simp add: algebra_simps)
qed

lemma increment_array: "increment_array a = (a \<noteq> - 1, a + 1)"
proof -
  have n: "be_nat (arr_bytes a) = unat a"
    using unat_less [of a] by (simp add: arr_bytes_def be_nat_be_bytes)
  have l: "length (arr_bytes a) = 32" by (simp add: length_arr_bytes)
  have ones: "a = - 1 \<longleftrightarrow> unat a + 1 = 2 ^ 256"
  proof -
    have "a = - 1 \<longleftrightarrow> a + 1 = 0" by (simp add: eq_neg_iff_add_eq_0)
    also have "\<dots> \<longleftrightarrow> (unat a + 1) mod 2 ^ 256 = 0"
      by (simp add: word_unat_eq_iff unat_word_ariths)
    also have "\<dots> \<longleftrightarrow> unat a + 1 = 2 ^ 256"
      using unat_less [of a] by (auto simp: le_less Suc_le_eq elim: dvdE dest!: dvd_imp_le)
    finally show ?thesis .
  qed
  show ?thesis
    using bytes_decompose [of "arr_bytes a"]
  proof (elim disjE exE conjE)
    fix m assume m: "arr_bytes a = replicate m 255"
    then have "m = 32" using l by simp
    then have "unat a + 1 = 2 ^ 256" using m n be_nat_replicate_255 [of m] by simp
    then have "a = - 1" using ones by simp
    then show ?thesis using m by (simp add: increment_array_def increment_all_255 arr_of_def)
  next
    fix q b m assume d: "arr_bytes a = q @ b # replicate m 255" "b \<noteq> 255"
    let ?new = "q @ (b + 1) # replicate m 0"
    have new: "be_nat ?new = unat a + 1" using d n increment_counts by simp
    have "length ?new = 32" using d(1) l by (metis length_append length_Cons length_replicate)
    then have "be_nat ?new < 2 ^ 256" using be_nat_less [of ?new] by (simp add: power_256)
    then have "a \<noteq> - 1" using new ones by simp
    moreover have "arr_of ?new = a + 1" using new by (simp add: arr_of_def)
    ultimately show ?thesis using d by (simp add: increment_array_def increment_decomposed)
  qed
qed

subsection \<open>Lemmas on ranges of keys\<close>

lemma replicate_zero_least: "r < replicate m (0 :: byte) \<longleftrightarrow> (\<exists>j<m. r = replicate j 0)"
proof (induction m arbitrary: r)
  case (Suc m)
  show ?case
  proof (cases r)
    case Nil
    then show ?thesis by (auto intro!: exI [of _ 0])
  next
    case (Cons x xs)
    have "r < replicate (Suc m) 0 \<longleftrightarrow> x = 0 \<and> xs < replicate m 0" using Cons by auto
    also have "\<dots> \<longleftrightarrow> (\<exists>j<m. r = replicate (Suc j) 0)" using Suc Cons by auto
    also have "\<dots> \<longleftrightarrow> (\<exists>j<Suc m. r = replicate j 0)"
      using Cons by (auto simp: less_Suc_eq_0_disj)
    finally show ?thesis .
  qed
qed simp

lemma replicate_top_least: "replicate m (255 :: byte) \<le> r \<longleftrightarrow> prefix (replicate m 255) r"
proof (induction m arbitrary: r)
  case (Suc m)
  have top: "(255 :: byte) < x \<longleftrightarrow> False" for x using unat_less [of x] by (simp add: word_less_nat_alt)
  show ?case using Suc top by (cases r) auto
qed simp

lemma between_common:
  fixes q :: "'a::linorder list"
  shows "q @ x \<le> k \<and> k < q @ y \<longleftrightarrow> (\<exists>k'. k = q @ k' \<and> x \<le> k' \<and> k' < y)"
proof (induction q arbitrary: k)
  case (Cons a q)
  show ?case
  proof (cases k)
    case (Cons b ks)
    then show ?thesis using Cons.IH [of ks] by auto
  qed simp
qed simp

text \<open>The range of keys from a prefix to the prefix incremented.\<close>

lemma prefix_range:
  assumes "p = q @ b # replicate m 255" "b \<noteq> 255"
  shows "p \<le> k \<and> k < q @ (b + 1) # replicate m 0 \<longleftrightarrow> prefix p k \<or> overshoot p k"
proof -
  have lt: "b < c \<and> c \<le> b + 1 \<longleftrightarrow> c = b + 1" for c
    using unat_byte_Suc [OF assms(2)] by (auto simp: word_less_nat_alt word_le_nat_alt word_unat_eq_iff)
  have inner: "b # replicate m 255 \<le> k' \<and> k' < (b + 1) # replicate m 0 \<longleftrightarrow>
      prefix (b # replicate m 255) k' \<or> (\<exists>j<m. k' = (b + 1) # replicate j 0)" for k'
  proof (cases k')
    case (Cons c r)
    have "b # replicate m 255 \<le> k' \<and> k' < (b + 1) # replicate m 0 \<longleftrightarrow>
        (b < c \<or> b = c \<and> replicate m 255 \<le> r) \<and> (c < b + 1 \<or> c = b + 1 \<and> r < replicate m 0)"
      using Cons by auto
    also have "\<dots> \<longleftrightarrow> b = c \<and> replicate m 255 \<le> r \<or> c = b + 1 \<and> r < replicate m 0"
      using lt [of c] lt [of "b + 1"] by (metis less_imp_le less_le not_less_iff_gr_or_eq)
    also have "\<dots> \<longleftrightarrow> prefix (b # replicate m 255) k' \<or> (\<exists>j<m. k' = (b + 1) # replicate j 0)"
      using Cons by (auto simp: replicate_top_least replicate_zero_least)
    finally show ?thesis .
  qed simp
  have over: "overshoot p k \<longleftrightarrow> (\<exists>j<m. k = q @ (b + 1) # replicate j 0)"
  proof
    assume "overshoot p k"
    then obtain q' b' m' j where o: "p = q' @ b' # replicate m' 255" "b' \<noteq> 255" "j < m'"
      "k = q' @ (b' + 1) # replicate j 0" by (auto simp: overshoot_def)
    have run: "takeWhile ((=) 255) (rev (y @ x # replicate n 255)) = replicate n 255" if "x \<noteq> 255"
      for x :: byte and y n
    proof -
      have "takeWhile ((=) 255) (replicate n 255 @ x # rev y) = replicate n 255"
        using that by (induction n) simp_all
      then show ?thesis by simp
    qed
    have "replicate m 255 = replicate m' (255 :: byte)"
      using run [OF assms(2), of q m] run [OF o(2), of q' m'] unfolding assms(1) [symmetric] o(1) [symmetric]
      by (rule trans [OF sym])
    then have "m = m'" by (metis length_replicate)
    then show "\<exists>j<m. k = q @ (b + 1) # replicate j 0" using assms(1) o by auto
  qed (use assms in \<open>auto simp: overshoot_def\<close>)
  have "p \<le> k \<and> k < q @ (b + 1) # replicate m 0 \<longleftrightarrow>
      (\<exists>k'. k = q @ k' \<and> (prefix (b # replicate m 255) k' \<or> (\<exists>j<m. k' = (b + 1) # replicate j 0)))"
    unfolding assms(1) between_common inner by blast
  also have "\<dots> \<longleftrightarrow> prefix p k \<or> (\<exists>j<m. k = q @ (b + 1) # replicate j 0)"
    unfolding assms(1) by (auto simp: prefix_def)
  finally show ?thesis unfolding over .
qed

lemma not_overshoot_all: "\<not> overshoot (replicate m 255) k"
proof
  assume "overshoot (replicate m 255) k"
  then obtain q b m' where "replicate m 255 = q @ b # replicate m' 255" "b \<noteq> (255 :: byte)"
    by (auto simp: overshoot_def)
  then have "b \<in> set (replicate m 255)" by (metis in_set_conv_decomp)
  then show False using \<open>b \<noteq> 255\<close> by simp
qed

lemma no_overshoot: "255 \<notin> set p \<Longrightarrow> \<not> overshoot p k"
proof
  assume "255 \<notin> set p" "overshoot p k"
  then obtain q b m j where "p = q @ b # replicate m 255" "j < m" by (auto simp: overshoot_def)
  then show False using \<open>255 \<notin> set p\<close> by simp
qed

text \<open>The two ends of a prefix range, by whether the prefix can be incremented.\<close>

lemma key_end_range:
  "(if fst (increment_by_one p) then p \<le> k \<and> k < snd (increment_by_one p) else p \<le> k) \<longleftrightarrow>
     prefix p k \<or> overshoot p k"
  using bytes_decompose [of p]
proof (elim disjE exE conjE)
  fix m assume "p = replicate m 255"
  then show ?thesis by (simp add: increment_all_255 replicate_top_least not_overshoot_all)
next
  fix q b m assume "p = q @ b # replicate m 255" "b \<noteq> 255"
  then show ?thesis using prefix_range [of p q b m k] by (simp add: increment_decomposed)
qed

lemma word_less_Suc:
  assumes "a \<noteq> - 1"
  shows "(b :: 'a::len word) < a + 1 \<longleftrightarrow> b \<le> a"
proof -
  have "1 + a \<noteq> 0" using assms by (simp add: add.commute eq_neg_iff_add_eq_0)
  then have "unat (a + 1) = Suc (unat a)" using unatSuc [of a] by (simp add: add.commute)
  then show ?thesis by (simp add: word_less_nat_alt word_le_nat_alt less_Suc_eq_le)
qed

lemma word_top [simp]: "(- 1 :: 'a::len word) \<le> n \<longleftrightarrow> n = - 1" "\<not> (- 1 :: 'a::len word) < n"
  using word_order.extremum_unique [of n] by (auto simp: not_less)

lemma Nil_least [simp]: "([] :: 'a::linorder list) \<le> k" "\<not> k < ([] :: 'a list)"
  by auto

text \<open>Rows of one namespace, of one author, at keys in a range.\<close>

lemma namespace_bounds_exact: "in_bounds (namespace_bounds ns) (n, a, k) \<longleftrightarrow> n = ns"
proof -
  have "after_start (namespace_start ns) (n, a, k) \<longleftrightarrow> ns \<le> n"
    by (auto simp: namespace_start_def)
  moreover have "before_end (namespace_end ns) (n, a, k) \<longleftrightarrow> n \<le> ns"
    using word_less_Suc [of ns n] by (auto simp: namespace_end_def increment_array Let_def)
  ultimately show ?thesis by (auto simp: in_bounds_def namespace_bounds_def)
qed

lemma by_key_namespace_exact: "in_bounds (by_key_namespace ns) (n, k, a) \<longleftrightarrow> n = ns"
  using word_less_Suc [of ns n] by (auto simp: in_bounds_def by_key_namespace_def increment_array Let_def)

text \<open>Without a key end the range stops at the next author, or at the next namespace.\<close>

lemma author_end_range:
  fixes ns n :: NamespaceId and author a :: AuthorId and p k :: bytes
  shows "after_start (Included (ns, author, p)) (n, a, k) \<and>
   before_end (if author \<noteq> - 1 then Excluded (ns, author + 1, [])
     else if ns \<noteq> - 1 then Excluded (ns + 1, 0, []) else Unbounded) (n, a, k) \<longleftrightarrow>
   n = ns \<and> a = author \<and> p \<le> k"
  using word_less_Suc [of author a] word_less_Suc [of ns n] by auto

lemma prefix_end_range:
  "in_bounds (author_key ns author (PrefixKey p)) (n, a, k) \<longleftrightarrow>
     n = ns \<and> a = author \<and> (prefix p k \<or> overshoot p k)"
proof (cases "fst (increment_by_one p)")
  case True
  then have "in_bounds (author_key ns author (PrefixKey p)) (n, a, k) \<longleftrightarrow>
      n = ns \<and> a = author \<and> p \<le> k \<and> k < snd (increment_by_one p)"
    by (auto simp: in_bounds_def author_key_def Let_def)
  then show ?thesis using key_end_range [of p k] True by auto
next
  case False
  then have "author_key ns author (PrefixKey p) = (Included (ns, author, p),
      if author \<noteq> - 1 then Excluded (ns, author + 1, [])
      else if ns \<noteq> - 1 then Excluded (ns + 1, 0, []) else Unbounded)"
    by (simp add: author_key_def increment_array Let_def)
  then have "in_bounds (author_key ns author (PrefixKey p)) (n, a, k) \<longleftrightarrow> n = ns \<and> a = author \<and> p \<le> k"
    unfolding in_bounds_def by (simp only: fst_conv snd_conv author_end_range)
  then show ?thesis using key_end_range [of p k] False by auto
qed

lemma by_key_prefix_range:
  "in_bounds (by_key_bounds ns (PrefixKey p)) (n, k, a) \<longleftrightarrow> n = ns \<and> (prefix p k \<or> overshoot p k)"
proof (cases "fst (increment_by_one p)")
  case True
  then have "in_bounds (by_key_bounds ns (PrefixKey p)) (n, k, a) \<longleftrightarrow> n = ns \<and> p \<le> k \<and> k < snd (increment_by_one p)"
    by (auto simp: in_bounds_def Let_def)
  then show ?thesis using key_end_range [of p k] True by auto
next
  case False
  then have "in_bounds (by_key_bounds ns (PrefixKey p)) (n, k, a) \<longleftrightarrow> n = ns \<and> p \<le> k"
    using word_less_Suc [of ns n] by (auto simp: in_bounds_def increment_array Let_def)
  then show ?thesis using key_end_range [of p k] False by auto
qed

text \<open>What a filter's range selects beside what the filter matches.\<close>

definition filter_overshoot :: "KeyFilter \<Rightarrow> bytes \<Rightarrow> bool" where
  "filter_overshoot f k \<longleftrightarrow> (case f of PrefixKey p \<Rightarrow> overshoot p k | _ \<Rightarrow> False)"

lemma by_key_bounds_exact:
  "in_bounds (by_key_bounds ns f) (n, k, a) \<longleftrightarrow> n = ns \<and> (key_matches f k \<or> filter_overshoot f k)"
proof (cases f)
  case AnyKey
  then show ?thesis by (simp add: by_key_namespace_exact)
next
  case (ExactKey key)
  then show ?thesis by (auto simp: in_bounds_def filter_overshoot_def)
next
  case (PrefixKey p)
  then show ?thesis using by_key_prefix_range [of ns p n k a] by (simp add: filter_overshoot_def)
qed

lemma author_key_exact:
  "in_bounds (author_key ns author f) (n, a, k) \<longleftrightarrow>
     n = ns \<and> a = author \<and> (key_matches f k \<or> filter_overshoot f k)"
proof (cases f)
  case AnyKey
  have "author_key ns author AnyKey = author_key ns author (PrefixKey [])"
    by (simp add: author_key_def)
  then show ?thesis using AnyKey prefix_end_range [of ns author "[]" n a k] by simp
next
  case (ExactKey key)
  then show ?thesis by (auto simp: in_bounds_def author_key_def Let_def filter_overshoot_def)
next
  case (PrefixKey p)
  then show ?thesis using prefix_end_range [of ns author p n a k] by (simp add: filter_overshoot_def)
qed

lemma filter_overshoot_none: "(\<And>p. f = PrefixKey p \<Longrightarrow> 255 \<notin> set p) \<Longrightarrow> \<not> filter_overshoot f k"
  by (cases f) (auto simp: filter_overshoot_def no_overshoot)

subsection \<open>Properties\<close>

text \<open>
  C25: the range of one author's keys selects, of that namespace and author, exactly the keys the filter
  matches and, for a prefix that ends in 255 and has another byte, the keys that stop inside the zeros
  its increment puts there: a key without the prefix is then in the range.
\<close>

theorem author_key_bounds:
  "(in_bounds (author_key ns author f) (n, a, k) \<longleftrightarrow>
      n = ns \<and> a = author \<and> (key_matches f k \<or> filter_overshoot f k)) \<and>
   (in_bounds (by_key_bounds ns f) (n, k, a) \<longleftrightarrow> n = ns \<and> (key_matches f k \<or> filter_overshoot f k)) \<and>
   in_bounds (author_key ns author (PrefixKey [97, 255])) (ns, author, [98]) \<and>
   \<not> key_matches (PrefixKey [97, 255]) [98]"
proof -
  have "filter_overshoot (PrefixKey [97, 255]) [98]"
    unfolding filter_overshoot_def overshoot_def KeyFilter.case
    by (rule exI [of _ "[]"], rule exI [of _ 97], rule exI [of _ 1], rule exI [of _ 0]) simp
  then show ?thesis by (simp add: author_key_exact by_key_bounds_exact)
qed

end
