(* ===== verification/Ordered_Table.thy ===== *)
theory Ordered_Table
  imports Store_Bounds
begin

text \<open>
  Ordered maps: \<open>std::collections::BTreeMap\<close> and a table of \<^verbatim>\<open>redb\<close>, by what their documentation promises of
  them. A map is the list of its rows in the order of the keys; a range lists the rows between two
  bounds, a retain drops those its predicate refuses.
\<close>

declare split_paired_All [simp del] split_paired_Ex [simp del]

type_synonym ('k, 'v) table = "('k \<times> 'v) list"

fun tbl_insert :: "'k::linorder \<Rightarrow> 'v \<Rightarrow> ('k, 'v) table \<Rightarrow> ('k, 'v) table" where
  "tbl_insert k v [] = [(k, v)]"
| "tbl_insert k v ((k', v') # t) =
     (if k < k' then (k, v) # (k', v') # t
      else if k = k' then (k, v) # t
      else (k', v') # tbl_insert k v t)"

definition tbl_remove :: "'k \<Rightarrow> ('k, 'v) table \<Rightarrow> ('k, 'v) table" where
  "tbl_remove k t = filter (\<lambda>row. fst row \<noteq> k) t"

definition tbl_range :: "'k::linorder bounds \<Rightarrow> ('k, 'v) table \<Rightarrow> ('k, 'v) table" where
  "tbl_range b t = filter (\<lambda>row. in_bounds b (fst row)) t"

definition tbl_drop_in :: "'k::linorder bounds \<Rightarrow> ('k, 'v) table \<Rightarrow> ('k, 'v) table" where
  "tbl_drop_in b t = filter (\<lambda>row. \<not> in_bounds b (fst row)) t"

definition tbl_ok :: "('k::linorder, 'v) table \<Rightarrow> bool" where
  "tbl_ok t \<longleftrightarrow> sorted_wrt (<) (map fst t)"

named_theorems table_simps

lemma tbl_ok_Nil [simp]: "tbl_ok []"
  by (simp add: tbl_ok_def)

lemma tbl_ok_Cons: "tbl_ok ((k, v) # t) \<longleftrightarrow> (\<forall>row\<in>set t. k < fst row) \<and> tbl_ok t"
  by (auto simp: tbl_ok_def)

lemma tbl_ok_distinct: "tbl_ok t \<Longrightarrow> distinct (map fst t)"
  by (simp add: tbl_ok_def strict_sorted_iff)

lemma tbl_ok_sorted: "tbl_ok t \<Longrightarrow> sorted (map fst t)"
  by (simp add: tbl_ok_def strict_sorted_iff)

lemma tbl_ok_filter [simp]: "tbl_ok t \<Longrightarrow> tbl_ok (filter P t)"
  by (induction t) (auto simp: tbl_ok_def)

lemma keys_tbl_insert [table_simps]: "fst ` set (tbl_insert k v t) = insert k (fst ` set t)"
  by (induction k v t rule: tbl_insert.induct) auto

lemma tbl_ok_insert [simp]: "tbl_ok t \<Longrightarrow> tbl_ok (tbl_insert k v t)"
proof (induction k v t rule: tbl_insert.induct)
  case (2 k v k' v' t)
  have keys: "fst row = k \<or> fst row \<in> fst ` set t" if "row \<in> set (tbl_insert k v t)" for row
    using that keys_tbl_insert [of k v t] by (metis image_eqI insertE)
  show ?case
  proof (cases "k < k' \<or> k = k'")
    case True
    then show ?thesis using 2 by (auto simp: tbl_ok_Cons)
  next
    case False
    then have k': "k' < k" by auto
    have "\<forall>row\<in>set (tbl_insert k v t). k' < fst row"
    proof
      fix row assume "row \<in> set (tbl_insert k v t)"
      then have "fst row = k \<or> fst row \<in> fst ` set t" by (rule keys)
      then show "k' < fst row" using k' "2.prems" by (auto simp: tbl_ok_Cons)
    qed
    then show ?thesis using 2 False by (simp add: tbl_ok_Cons)
  qed
qed (simp add: tbl_ok_def)

lemma tbl_get_insert [table_simps]: "tbl_ok t \<Longrightarrow> map_of (tbl_insert k v t) = (map_of t)(k \<mapsto> v)"
proof (induction k v t rule: tbl_insert.induct)
  case (2 k v k' v' t)
  then show ?case by (auto simp: tbl_ok_Cons fun_eq_iff)
qed (simp add: fun_eq_iff)

lemma tbl_ok_remove [simp]: "tbl_ok t \<Longrightarrow> tbl_ok (tbl_remove k t)"
  by (simp add: tbl_remove_def)

lemma tbl_ok_range [simp]: "tbl_ok t \<Longrightarrow> tbl_ok (tbl_range b t)"
  by (simp add: tbl_range_def)

lemma tbl_ok_drop_in [simp]: "tbl_ok t \<Longrightarrow> tbl_ok (tbl_drop_in b t)"
  by (simp add: tbl_drop_in_def)

lemma map_of_filter_key: "map_of (filter (\<lambda>row. P (fst row)) t) k = (if P k then map_of t k else None)"
  by (induction t) auto

lemma tbl_get_remove [table_simps]: "map_of (tbl_remove k t) = (map_of t)(k := None)"
  using map_of_filter_key [of "\<lambda>k'. k' \<noteq> k" t] by (auto simp: tbl_remove_def)

lemma tbl_get_range [table_simps]: "map_of (tbl_range b t) k = (if in_bounds b k then map_of t k else None)"
  unfolding tbl_range_def by (rule map_of_filter_key)

lemma tbl_get_drop_in [table_simps]: "map_of (tbl_drop_in b t) k = (if in_bounds b k then None else map_of t k)"
  using map_of_filter_key [of "\<lambda>k. \<not> in_bounds b k" t k] by (simp add: tbl_drop_in_def)

lemma tbl_row: "tbl_ok t \<Longrightarrow> (k, v) \<in> set t \<longleftrightarrow> map_of t k = Some v"
  by (simp add: tbl_ok_distinct)

lemma tbl_eqI:
  assumes "tbl_ok s" "tbl_ok t" "map_of s = map_of t"
  shows "s = t"
proof -
  have "row \<in> set s \<longleftrightarrow> row \<in> set t" for row
    using assms tbl_row [of s "fst row" "snd row"] tbl_row [of t "fst row" "snd row"] by simp
  then have "set s = set t" by blast
  moreover have "inj_on fst (set s \<union> set t)"
    using calculation tbl_ok_distinct [OF assms(1)] by (simp add: distinct_map)
  ultimately show ?thesis
    using assms(1,2) by (intro map_sorted_distinct_set_unique [of fst]) (simp_all add: tbl_ok_sorted tbl_ok_distinct)
qed

text \<open>What a client relies on of an ordered map.\<close>

locale ordered_map =
  fixes ok :: "'m \<Rightarrow> bool" and get :: "'m \<Rightarrow> 'k \<Rightarrow> 'v option" and put :: "'k \<Rightarrow> 'v \<Rightarrow> 'm \<Rightarrow> 'm"
    and void :: 'm
  assumes ok_void: "ok void" and ok_put: "ok m \<Longrightarrow> ok (put k v m)"
    and get_void: "get void k = None"
    and get_put: "ok m \<Longrightarrow> get (put k v m) k' = (if k' = k then Some v else get m k')"
begin

lemma ok_puts: "ok m \<Longrightarrow> ok (fold (\<lambda>(k, v). put k v) rows m)"
  by (induction rows arbitrary: m) (auto simp: ok_put)

lemma get_puts:
  "ok m \<Longrightarrow> get (fold (\<lambda>(k, v). put k v) rows m) k =
     (case map_of (rev rows) k of Some v \<Rightarrow> Some v | None \<Rightarrow> get m k)"
proof (induction rows arbitrary: m)
  case (Cons row rows)
  then show ?case
    by (cases row) (auto simp: ok_put get_put map_add_def split: option.splits)
qed simp

lemma get_puts_void: "get (fold (\<lambda>(k, v). put k v) rows void) k = map_of (rev rows) k"
  by (simp add: get_puts ok_void get_void split: option.splits)

end

interpretation table: ordered_map tbl_ok map_of "tbl_insert :: 'k::linorder \<Rightarrow> 'v \<Rightarrow> ('k, 'v) table \<Rightarrow> _" "[]"
  by unfold_locales (simp_all add: table_simps)

end
