(* ===== verification/Heads.thy ===== *)
theory Heads
  imports Ordered_Table
begin

text \<open>
  The heads a replica reports, \<^verbatim>\<open>crates/pdn-store/src/heads.rs\<close>: per author the greatest timestamp it holds. The
  wire format is \<^verbatim>\<open>postcard\<close>'s: its size and its bytes for a list of heads are parameters, with the round
  trip it documents as the hypothesis \<open>postcard_roundtrip\<close>.
\<close>

declare split_paired_All [simp del] split_paired_Ex [simp del]

type_synonym Timestamp = "64 word"
type_synonym AuthorHeads = "(AuthorId, Timestamp) table"

definition heads_insert :: "AuthorId \<Rightarrow> Timestamp \<Rightarrow> AuthorHeads \<Rightarrow> AuthorHeads" where
  "heads_insert author timestamp heads =
     (case map_of heads author of
        Some t \<Rightarrow> tbl_insert author (max t timestamp) heads
      | None \<Rightarrow> tbl_insert author timestamp heads)"

definition has_news_for :: "AuthorHeads \<Rightarrow> AuthorHeads \<Rightarrow> nat option" where
  "has_news_for heads other =
     (let updates = length (filter (\<lambda>(author, ours).
            case map_of other author of Some theirs \<Rightarrow> theirs < ours | None \<Rightarrow> True) heads)
      in if updates = 0 then None else Some updates)"








subsection \<open>Lemmas\<close>

lemma heads_ok_insert [simp]: "tbl_ok heads \<Longrightarrow> tbl_ok (heads_insert a t heads)"
  by (simp add: heads_insert_def split: option.splits)

lemma heads_get_insert [table_simps]:
  "tbl_ok heads \<Longrightarrow> map_of (heads_insert a t heads) a' =
     (if a' = a then Some (case map_of heads a of Some s \<Rightarrow> max s t | None \<Rightarrow> t) else map_of heads a')"
  by (simp add: heads_insert_def table_simps split: option.splits)



















subsection \<open>Properties\<close>



text \<open>
  C37: heads have news for a replica exactly when some author's head is newer than the one the replica
  has for it, or the replica has none; the answer counts those authors.
\<close>

theorem has_news_iff:
  assumes "tbl_ok heads"
  shows "(has_news_for heads other = None \<longleftrightarrow>
      (\<forall>a t. map_of heads a = Some t \<longrightarrow> (\<exists>t'\<ge>t. map_of other a = Some t'))) \<and>
    (\<forall>n. has_news_for heads other = Some n \<longrightarrow>
      n = card {a. \<exists>t. map_of heads a = Some t \<and> (\<forall>t'. map_of other a = Some t' \<longrightarrow> t' < t)})"
proof -
  define news where "news = filter (\<lambda>(a, t). case map_of other a of Some t' \<Rightarrow> t' < t | None \<Rightarrow> True) heads"
  have row: "(a, t) \<in> set news \<longleftrightarrow> map_of heads a = Some t \<and> (\<forall>t'. map_of other a = Some t' \<longrightarrow> t' < t)" for a t
    using tbl_row [OF assms, of a t] by (auto simp: news_def split: option.splits)
  have "distinct (map fst news)"
    unfolding news_def using tbl_ok_distinct [OF assms] by (rule distinct_map_filter)
  then have card: "length news = card (fst ` set news)" by (metis distinct_card length_map list.set_map)
  have dom: "fst ` set news = {a. \<exists>t. map_of heads a = Some t \<and> (\<forall>t'. map_of other a = Some t' \<longrightarrow> t' < t)}"
  proof -
    have "a \<in> fst ` set news \<longleftrightarrow> (\<exists>t. (a, t) \<in> set news)" for a by force
    then show ?thesis unfolding row by blast
  qed
  have "news = [] \<longleftrightarrow> (\<forall>a t. (a, t) \<notin> set news)" by (cases news) auto
  then have nil: "news = [] \<longleftrightarrow> (\<forall>a t. map_of heads a = Some t \<longrightarrow> (\<exists>t'\<ge>t. map_of other a = Some t'))"
    unfolding row by (metis linorder_not_less)
  have "has_news_for heads other = (if news = [] then None else Some (length news))"
    by (simp add: has_news_for_def news_def Let_def)
  then show ?thesis using card dom nil by simp
qed

theorem has_news_iff_witness:
  "tbl_ok [(1 :: AuthorId, 5 :: Timestamp), (2, 7)] \<and> has_news_for [(1, 5), (2, 7)] [(1, 5)] = Some 1 \<and>
   has_news_for [(1, 5)] [(1, 5)] = None"
proof -
  have ok: "tbl_ok [(1 :: AuthorId, 5 :: Timestamp)]" "tbl_ok [(1 :: AuthorId, 5 :: Timestamp), (2, 7)]"
    by (simp_all add: tbl_ok_def)
  have "has_news_for [(1, 5)] [(1, 5)] = None" using has_news_iff [OF ok(1), of "[(1, 5)]"] by simp
  then show ?thesis using ok by (simp add: has_news_for_def Let_def)
qed

end
