(* ===== verification/Store_Tables.thy ===== *)
theory Store_Tables
  imports Heads
begin

text \<open>
  The store of a node's replicas, \<^verbatim>\<open>crates/pdn-store/src/store/fs.rs\<close> with \<^verbatim>\<open>store/fs/tables.rs\<close>: the tables, the
  transaction they are read and written through, commits and file syncs, the write counts, the peers kept
  per document, and the view of one namespace a replica works on.

  The database behind it is \<^verbatim>\<open>redb\<close>: a write transaction works on its own copy of the committed tables, a
  commit publishes that copy, and an unsynced commit reaches the disk with the next synced one. Instants
  are milliseconds, given to the operations as \<open>now\<close>; whether a commit succeeds is the argument \<open>io\<close>.
  Other failures of the database are not modelled.
\<close>

declare split_paired_All [simp del] split_paired_Ex [simp del]

definition MAX_COMMIT_DELAY :: nat where "MAX_COMMIT_DELAY = 500"
definition PEERS_PER_DOC_CACHE_SIZE :: nat where "PEERS_PER_DOC_CACHE_SIZE = 5"

subsection \<open>Tables\<close>

type_synonym RecordsValue = "64 word \<times> signature \<times> signature \<times> 64 word \<times> Hash"

record Tables =
  tb_records :: "(RecordsId, RecordsValue) table"
  tb_by_key :: "(RecordsByKeyId, unit) table"
  tb_namespaces :: "(NamespaceId, byte \<times> 256 word) table"
  tb_latest :: "(NamespaceId \<times> AuthorId, 64 word \<times> bytes) table"
  tb_peers :: "(NamespaceId \<times> 64 word \<times> PeerIdBytes, unit) table"
  tb_authors :: "(AuthorId, 256 word) table"

definition empty_tables :: Tables where
  "empty_tables = \<lparr>tb_records = [], tb_by_key = [], tb_namespaces = [], tb_latest = [], tb_peers = [],
     tb_authors = []\<rparr>"

fun into_entry :: "RecordsId \<times> RecordsValue \<Rightarrow> SignedEntry" where
  "into_entry ((namespace, author, key), (timestamp, namespace_sig, author_sig, len, hash)) =
     \<lparr>se_signature = \<lparr>author_signature = author_sig, namespace_signature = namespace_sig\<rparr>,
      se_entry = \<lparr>ent_id = RecordIdentifier namespace author key,
        ent_record = \<lparr>rec_len = len, rec_hash = hash, rec_timestamp = timestamp\<rparr>\<rparr>\<rparr>"

definition entry_value :: "SignedEntry \<Rightarrow> RecordsValue" where
  "entry_value e = (se_timestamp e, namespace_signature (se_signature e), author_signature (se_signature e),
     se_len e, se_hash e)"

subsection \<open>The store and its transaction\<close>

datatype CurrentTransaction =
    NoTransaction
  | ReadTransaction Tables
  | WriteTransaction Tables nat bool

record Store =
  st_db :: Tables
  st_disk :: Tables
  st_transaction :: CurrentTransaction
  st_open :: "NamespaceId set"
  st_writes :: "(NamespaceId, nat) hmap"
  st_unsynced :: "nat option"

datatype StoreError = Io | ReplicaNotClosed | DocumentNotCreated | ForeignNamespace | UnknownCapability | NotFound

definition new_store :: "Tables \<Rightarrow> Store" where
  "new_store tables = \<lparr>st_db = tables, st_disk = tables, st_transaction = NoTransaction, st_open = {},
     st_writes = [], st_unsynced = None\<rparr>"

definition take_transaction :: "Store \<Rightarrow> Store" where
  "take_transaction s = s\<lparr>st_transaction := NoTransaction\<rparr>"

definition finish_write :: "bool \<Rightarrow> nat \<Rightarrow> Tables \<Rightarrow> nat \<Rightarrow> bool \<Rightarrow> bool \<Rightarrow> Store \<Rightarrow> (StoreError + unit) \<times> Store" where
  "finish_write io now tables since dirty synced s =
     (if \<not> dirty then (Inr (), s)
      else if \<not> io then (Inl Io, s)
      else
        let began = (case st_unsynced s of None \<Rightarrow> since | Some unsynced \<Rightarrow> min unsynced since)
        in if synced \<or> MAX_COMMIT_DELAY \<le> now - began
           then (Inr (), s\<lparr>st_db := tables, st_disk := tables, st_unsynced := None\<rparr>)
           else (Inr (), s\<lparr>st_db := tables, st_unsynced := Some began\<rparr>))"

definition commit_and_sync :: "bool \<Rightarrow> nat \<Rightarrow> Store \<Rightarrow> (StoreError + unit) \<times> Store" where
  "commit_and_sync io now s =
     (let (committed, s1) =
        (case st_transaction s of
           WriteTransaction tables since dirty \<Rightarrow> finish_write io now tables since dirty True (take_transaction s)
         | _ \<Rightarrow> (Inr (), take_transaction s))
      in case committed of
           Inl e \<Rightarrow> (Inl e, s1)
         | Inr _ \<Rightarrow>
             if st_unsynced s1 = None then (Inr (), s1)
             else if io then (Inr (), s1\<lparr>st_disk := st_db s1, st_unsynced := None\<rparr>)
             else (Inl Io, s1))"

definition flush :: "bool \<Rightarrow> nat \<Rightarrow> Store \<Rightarrow> (StoreError + unit) \<times> Store" where
  "flush io now s =
     (let (flushed, s1) = commit_and_sync io now s
      in case flushed of
           Inr _ \<Rightarrow> (flushed, s1)
         | Inl _ \<Rightarrow> if st_unsynced s1 = None then (flushed, s1) else (flushed, s1\<lparr>st_unsynced := Some now\<rparr>))"

definition sync_due_in :: "nat \<Rightarrow> Store \<Rightarrow> nat option" where
  "sync_due_in now s = map_option (\<lambda>since. MAX_COMMIT_DELAY - (now - since)) (st_unsynced s)"

definition snapshot :: "bool \<Rightarrow> nat \<Rightarrow> Store \<Rightarrow> (StoreError + Tables) \<times> Store" where
  "snapshot io now s =
     (case st_transaction s of
        NoTransaction \<Rightarrow> (Inr (st_db s), s\<lparr>st_transaction := ReadTransaction (st_db s)\<rparr>)
      | WriteTransaction tables since dirty \<Rightarrow>
          (case finish_write io now tables since dirty False (take_transaction s) of
             (Inl e, s1) \<Rightarrow> (Inl e, s1)
           | (Inr _, s1) \<Rightarrow> (Inr (st_db s1), s1\<lparr>st_transaction := ReadTransaction (st_db s1)\<rparr>))
      | ReadTransaction tables \<Rightarrow> (Inr tables, s))"

definition snapshot_owned :: "bool \<Rightarrow> nat \<Rightarrow> Store \<Rightarrow> (StoreError + Tables) \<times> Store" where
  "snapshot_owned io now s =
     (case st_transaction s of
        WriteTransaction tables since dirty \<Rightarrow>
          (case finish_write io now tables since dirty False (take_transaction s) of
             (Inl e, s1) \<Rightarrow> (Inl e, s1)
           | (Inr _, s1) \<Rightarrow> (Inr (st_db s1), s1))
      | _ \<Rightarrow> (Inr (st_db s), take_transaction s))"

definition current_write_transaction ::
    "bool \<Rightarrow> nat \<Rightarrow> Store \<Rightarrow> (StoreError + Tables \<times> nat \<times> bool) \<times> Store" where
  "current_write_transaction io now s =
     (case st_transaction s of
        WriteTransaction tables since dirty \<Rightarrow>
          if now - since \<le> MAX_COMMIT_DELAY then (Inr (tables, since, dirty), take_transaction s)
          else (case finish_write io now tables since dirty True (take_transaction s) of
                  (Inl e, s1) \<Rightarrow> (Inl e, s1)
                | (Inr _, s1) \<Rightarrow> (Inr (st_db s1, now, False), s1))
      | _ \<Rightarrow> (Inr (st_db s, now, False), take_transaction s))"

definition read_tables :: "bool \<Rightarrow> nat \<Rightarrow> Store \<Rightarrow> (StoreError + Tables) \<times> Store" where
  "read_tables io now s =
     (case current_write_transaction io now s of
        (Inl e, s1) \<Rightarrow> (Inl e, s1)
      | (Inr (tables, since, dirty), s1) \<Rightarrow>
          (Inr tables, s1\<lparr>st_transaction := WriteTransaction tables since dirty\<rparr>))"

definition modify ::
    "bool \<Rightarrow> nat \<Rightarrow> (Tables \<Rightarrow> (StoreError + 'a) \<times> Tables) \<Rightarrow> Store \<Rightarrow> (StoreError + 'a) \<times> Store" where
  "modify io now f s =
     (case current_write_transaction io now s of
        (Inl e, s1) \<Rightarrow> (Inl e, s1)
      | (Inr (tables, since, dirty), s1) \<Rightarrow>
          let (res, tables') = f tables
          in (res, s1\<lparr>st_transaction := WriteTransaction tables' since True\<rparr>))"

subsection \<open>Namespaces and authors\<close>

definition wrote :: "NamespaceId \<Rightarrow> Store \<Rightarrow> Store" where
  "wrote namespace s = s\<lparr>st_writes := hmodify namespace 0 Suc (st_writes s)\<rparr>"

definition writes_of :: "Store \<Rightarrow> NamespaceId \<Rightarrow> nat" where
  "writes_of s namespace = hget_or 0 (st_writes s) namespace"

definition import_author :: "('x) crypto_scheme \<Rightarrow> bool \<Rightarrow> nat \<Rightarrow> Author \<Rightarrow> Store \<Rightarrow> (StoreError + unit) \<times> Store" where
  "import_author c io now author =
     modify io now (\<lambda>t. (Inr (), t\<lparr>tb_authors := tbl_insert (author_id c author) author (tb_authors t)\<rparr>))"

definition get_author :: "bool \<Rightarrow> nat \<Rightarrow> AuthorId \<Rightarrow> Store \<Rightarrow> (StoreError + Author option) \<times> Store" where
  "get_author io now author s =
     (case read_tables io now s of
        (Inl e, s1) \<Rightarrow> (Inl e, s1)
      | (Inr t, s1) \<Rightarrow> (Inr (map_of (tb_authors t) author), s1))"

datatype ImportNamespaceOutcome = NamespaceInserted | NoChange

definition import_namespace_tables ::
    "('x) crypto_scheme \<Rightarrow> Capability \<Rightarrow> Tables \<Rightarrow> (StoreError + ImportNamespaceOutcome) \<times> Tables" where
  "import_namespace_tables c capability t =
     (let namespace = capability_id c capability
      in if map_of (tb_namespaces t) namespace \<noteq> None then (Inr NoChange, t)
         else (Inr NamespaceInserted,
           t\<lparr>tb_namespaces := tbl_insert namespace (capability_raw capability) (tb_namespaces t)\<rparr>))"

definition import_namespace ::
    "('x) crypto_scheme \<Rightarrow> bool \<Rightarrow> nat \<Rightarrow> Capability \<Rightarrow> Store \<Rightarrow> (StoreError + ImportNamespaceOutcome) \<times> Store" where
  "import_namespace c io now capability = modify io now (import_namespace_tables c capability)"

definition load_replica_info ::
    "('x) crypto_scheme \<Rightarrow> bool \<Rightarrow> nat \<Rightarrow> NamespaceId \<Rightarrow> Store \<Rightarrow> (StoreError + Capability) \<times> Store" where
  "load_replica_info c io now namespace s =
     (case read_tables io now s of
        (Inl e, s1) \<Rightarrow> (Inl e, s1)
      | (Inr t, s1) \<Rightarrow>
          (case map_of (tb_namespaces t) namespace of
             None \<Rightarrow> (Inl NotFound, s1)
           | Some (kind, secret) \<Rightarrow>
               (case capability_from_raw kind secret of
                  None \<Rightarrow> (Inl UnknownCapability, s1)
                | Some capability \<Rightarrow>
                    (Inr capability, s1\<lparr>st_open := insert (capability_id c capability) (st_open s1)\<rparr>))))"

definition close_replica :: "NamespaceId \<Rightarrow> Store \<Rightarrow> Store" where
  "close_replica namespace s = s\<lparr>st_open := st_open s - {namespace}\<rparr>"

definition remove_replica_tables :: "NamespaceId \<Rightarrow> Tables \<Rightarrow> Tables" where
  "remove_replica_tables namespace t =
     t\<lparr>tb_records := tbl_drop_in (namespace_bounds namespace) (tb_records t),
       tb_by_key := tbl_drop_in (by_key_namespace namespace) (tb_by_key t),
       tb_namespaces := tbl_remove namespace (tb_namespaces t),
       tb_peers := filter (\<lambda>row. fst (fst row) \<noteq> namespace) (tb_peers t)\<rparr>"

definition remove_replica :: "bool \<Rightarrow> nat \<Rightarrow> NamespaceId \<Rightarrow> Store \<Rightarrow> (StoreError + unit) \<times> Store" where
  "remove_replica io now namespace s =
     (if namespace \<in> st_open s then (Inl ReplicaNotClosed, s)
      else case modify io now (\<lambda>t. (Inr (), remove_replica_tables namespace t)) s of
        (Inl e, s1) \<Rightarrow> (Inl e, s1)
      | (Inr u, s1) \<Rightarrow> (Inr u, wrote namespace s1))"

subsection \<open>Entries\<close>

definition get_exact_in ::
    "'x store_crypto_scheme \<Rightarrow> Tables \<Rightarrow> NamespaceId \<Rightarrow> AuthorId \<Rightarrow> bytes \<Rightarrow> bool \<Rightarrow> SignedEntry option" where
  "get_exact_in c t namespace author key include_empty =
     (case map_of (tb_records t) (namespace, author, key) of
        None \<Rightarrow> None
      | Some value \<Rightarrow>
          let e = into_entry ((namespace, author, key), value)
          in if include_empty \<or> \<not> record_is_empty c (se_record e) then Some e else None)"

definition get_exact ::
    "'x store_crypto_scheme \<Rightarrow> bool \<Rightarrow> nat \<Rightarrow> NamespaceId \<Rightarrow> AuthorId \<Rightarrow> bytes \<Rightarrow> bool \<Rightarrow> Store \<Rightarrow>
      (StoreError + SignedEntry option) \<times> Store" where
  "get_exact c io now namespace author key include_empty s =
     (case read_tables io now s of
        (Inl e, s1) \<Rightarrow> (Inl e, s1)
      | (Inr t, s1) \<Rightarrow> (Inr (get_exact_in c t namespace author key include_empty), s1))"

definition entry_put_tables :: "SignedEntry \<Rightarrow> Tables \<Rightarrow> Tables" where
  "entry_put_tables e t =
     (let namespace = se_namespace e; author = se_author e; key = se_key e;
          latest = (case map_of (tb_latest t) (namespace, author) of Some value \<Rightarrow> fst value | None \<Rightarrow> 0)
      in t\<lparr>tb_records := tbl_insert (namespace, author, key) (entry_value e) (tb_records t),
           tb_by_key := tbl_insert (namespace, key, author) () (tb_by_key t),
           tb_latest := (if latest \<le> se_timestamp e
              then tbl_insert (namespace, author) (se_timestamp e, key) (tb_latest t)
              else tb_latest t)\<rparr>)"

definition content_hashes :: "bool \<Rightarrow> nat \<Rightarrow> Store \<Rightarrow> (StoreError + Hash list) \<times> Store" where
  "content_hashes io now s =
     (case snapshot_owned io now s of
        (Inl e, s1) \<Rightarrow> (Inl e, s1)
      | (Inr t, s1) \<Rightarrow> (Inr (map (\<lambda>row. se_hash (into_entry row)) (tb_records t)), s1))"

definition latest_for_each_author :: "Tables \<Rightarrow> NamespaceId \<Rightarrow> (AuthorId \<times> 64 word \<times> bytes) list" where
  "latest_for_each_author t namespace =
     map (\<lambda>((ns, author), (timestamp, key)). (author, timestamp, key))
       (tbl_range (Included (namespace, 0), Included (namespace, - 1)) (tb_latest t))"

definition has_news_for_us ::
    "bool \<Rightarrow> nat \<Rightarrow> NamespaceId \<Rightarrow> AuthorHeads \<Rightarrow> Store \<Rightarrow> (StoreError + nat option) \<times> Store" where
  "has_news_for_us io now namespace heads s =
     (case read_tables io now s of
        (Inl e, s1) \<Rightarrow> (Inl e, s1)
      | (Inr t, s1) \<Rightarrow>
          let our_heads = fold (\<lambda>(author, timestamp, key) heads. heads_insert author timestamp heads)
                (latest_for_each_author t namespace) []
          in (Inr (has_news_for heads our_heads), s1))"

subsection \<open>Peers\<close>

definition peers_of :: "Tables \<Rightarrow> NamespaceId \<Rightarrow> (64 word \<times> PeerIdBytes) list" where
  "peers_of t namespace = map (\<lambda>row. snd (fst row)) (filter (\<lambda>row. fst (fst row) = namespace) (tb_peers t))"

definition insert_peer :: "NamespaceId \<Rightarrow> 64 word \<times> PeerIdBytes \<Rightarrow> Tables \<Rightarrow> Tables" where
  "insert_peer namespace value t = t\<lparr>tb_peers := tbl_insert (namespace, value) () (tb_peers t)\<rparr>"

definition remove_peer :: "NamespaceId \<Rightarrow> 64 word \<times> PeerIdBytes \<Rightarrow> Tables \<Rightarrow> Tables" where
  "remove_peer namespace value t = t\<lparr>tb_peers := tbl_remove (namespace, value) (tb_peers t)\<rparr>"

definition register_useful_peer_tables ::
    "64 word \<Rightarrow> NamespaceId \<Rightarrow> PeerIdBytes \<Rightarrow> Tables \<Rightarrow> (StoreError + unit) \<times> Tables" where
  "register_useful_peer_tables nanos namespace peer t =
     (if map_of (tb_namespaces t) namespace = None then (Inl DocumentNotCreated, t)
      else case peers_of t namespace of
        [] \<Rightarrow> (Inr (), insert_peer namespace (nanos, peer) t)
      | (oldest_nanos, oldest_peer) # others \<Rightarrow>
          if oldest_peer = peer then
            (Inr (), insert_peer namespace (nanos, peer) (remove_peer namespace (oldest_nanos, oldest_peer) t))
          else case find (\<lambda>(n, p). p = peer) others of
            Some (prev_nanos, p) \<Rightarrow>
              (Inr (), insert_peer namespace (nanos, peer) (remove_peer namespace (prev_nanos, peer) t))
          | None \<Rightarrow>
              let inserted = insert_peer namespace (nanos, peer) t; len = 1 + length others + 1
              in (Inr (), if PEERS_PER_DOC_CACHE_SIZE < len
                   then remove_peer namespace (oldest_nanos, oldest_peer) inserted else inserted))"

definition register_useful_peer ::
    "bool \<Rightarrow> nat \<Rightarrow> 64 word \<Rightarrow> NamespaceId \<Rightarrow> PeerIdBytes \<Rightarrow> Store \<Rightarrow> (StoreError + unit) \<times> Store" where
  "register_useful_peer io now nanos namespace peer =
     modify io now (register_useful_peer_tables nanos namespace peer)"

definition get_sync_peers ::
    "bool \<Rightarrow> nat \<Rightarrow> NamespaceId \<Rightarrow> Store \<Rightarrow> (StoreError + PeerIdBytes list option) \<times> Store" where
  "get_sync_peers io now namespace s =
     (case read_tables io now s of
        (Inl e, s1) \<Rightarrow> (Inl e, s1)
      | (Inr t, s1) \<Rightarrow>
          let peers = map snd (rev (peers_of t namespace))
          in (Inr (if peers = [] then None else Some peers), s1))"

end
