(* ===== verification/Store_Live.thy ===== *)
theory Store_Live
  imports Store_Tables
begin

text \<open>
  What the transactions of the store add up to. The live tables of a store are those of its open write
  transaction, or the committed ones; every operation reads and writes the live tables and nothing else,
  whatever transaction is open and whenever it is committed. A commit that fails takes the live tables
  back to the committed ones. What is committed and not synced is remembered until it is on disk.
\<close>

declare split_paired_All [simp del] split_paired_Ex [simp del]

definition live_tables :: "Store \<Rightarrow> Tables" where
  "live_tables s = (case st_transaction s of WriteTransaction t since dirty \<Rightarrow> t | _ \<Rightarrow> st_db s)"

text \<open>A clean transaction holds the committed tables; without unsynced commits they are on disk.\<close>

definition store_ok :: "Store \<Rightarrow> bool" where
  "store_ok s \<longleftrightarrow>
     (case st_transaction s of
        WriteTransaction t since dirty \<Rightarrow> dirty \<or> t = st_db s
      | ReadTransaction t \<Rightarrow> t = st_db s
      | NoTransaction \<Rightarrow> True) \<and>
     (st_unsynced s = None \<longrightarrow> st_disk s = st_db s)"

lemma live_simps [simp]:
  "live_tables (s\<lparr>st_transaction := NoTransaction\<rparr>) = st_db s"
  "live_tables (s\<lparr>st_transaction := ReadTransaction t\<rparr>) = st_db s"
  "live_tables (s\<lparr>st_transaction := WriteTransaction t since dirty\<rparr>) = t"
  "live_tables (s\<lparr>st_writes := w\<rparr>) = live_tables s"
  "live_tables (s\<lparr>st_open := ns\<rparr>) = live_tables s"
  "live_tables (s\<lparr>st_unsynced := u\<rparr>) = live_tables s"
  "live_tables (s\<lparr>st_disk := t\<rparr>) = live_tables s"
  by (simp_all add: live_tables_def split: CurrentTransaction.split)

lemma store_ok_simps [simp]:
  "store_ok (s\<lparr>st_writes := w\<rparr>) = store_ok s"
  "store_ok (s\<lparr>st_open := ns\<rparr>) = store_ok s"
  by (simp_all add: store_ok_def split: CurrentTransaction.split)

lemma live_wrote [simp]: "live_tables (wrote ns s) = live_tables s" "store_ok (wrote ns s) = store_ok s"
  "st_db (wrote ns s) = st_db s"
  by (simp_all add: wrote_def)

lemma new_store_ok [simp]: "store_ok (new_store t)" "live_tables (new_store t) = t"
  by (simp_all add: store_ok_def new_store_def live_tables_def)

text \<open>A commit of the open write transaction: the live tables, or the committed ones when it failed.\<close>

lemma finish_write_live:
  assumes ok: "store_ok s" and tx: "st_transaction s = WriteTransaction t since dirty"
    and fw: "finish_write io now t since dirty synced (take_transaction s) = (r, s')"
  shows "st_transaction s' = NoTransaction" "store_ok s'"
    "r = Inr () \<Longrightarrow> st_db s' = live_tables s" "r \<noteq> Inr () \<Longrightarrow> r = Inl Io \<and> \<not> io \<and> s' = take_transaction s"
    "r = Inr () \<Longrightarrow> synced \<Longrightarrow> dirty \<Longrightarrow> st_disk s' = live_tables s \<and> st_unsynced s' = None"
    "io \<Longrightarrow> r = Inr ()" "st_writes s' = st_writes s" "st_open s' = st_open s"
    "\<not> dirty \<Longrightarrow> s' = take_transaction s"
  using assms
  by (auto simp: finish_write_def take_transaction_def store_ok_def live_tables_def Let_def split: if_splits)

lemma clean_live:
  "store_ok s \<Longrightarrow> (\<And>t since dirty. st_transaction s \<noteq> WriteTransaction t since dirty) \<Longrightarrow> live_tables s = st_db s"
  by (cases "st_transaction s") (auto simp: live_tables_def)

lemma write_transaction_live:
  assumes ok: "store_ok s" and cw: "current_write_transaction io now s = (r, s')"
  shows "st_transaction s' = NoTransaction" "store_ok s'" "st_writes s' = st_writes s" "st_open s' = st_open s"
    "io \<Longrightarrow> \<exists>x. r = Inr x" "r = Inl e \<Longrightarrow> e = Io \<and> \<not> io"
    "r = Inr (t, since, dirty) \<Longrightarrow> t = live_tables s \<and> (dirty \<or> t = st_db s')"
    "r = Inl e \<Longrightarrow> st_db s' = st_db s"
proof -
  show "st_transaction s' = NoTransaction" "store_ok s'" "st_writes s' = st_writes s" "st_open s' = st_open s"
    "io \<Longrightarrow> \<exists>x. r = Inr x" "r = Inl e \<Longrightarrow> e = Io \<and> \<not> io"
    "r = Inr (t, since, dirty) \<Longrightarrow> t = live_tables s \<and> (dirty \<or> t = st_db s')" "r = Inl e \<Longrightarrow> st_db s' = st_db s"
    using assms
    by (cases "st_transaction s";
        fastforce simp: current_write_transaction_def store_ok_def live_tables_def take_transaction_def finish_write_def
          Let_def split: if_splits)+
qed

lemma read_tables_live:
  assumes "store_ok s" "read_tables io now s = (r, s')"
  shows "store_ok s'" "st_writes s' = st_writes s" "st_open s' = st_open s"
    "r = Inr t \<Longrightarrow> t = live_tables s \<and> live_tables s' = live_tables s"
    "r = Inl e \<Longrightarrow> e = Io \<and> \<not> io \<and> live_tables s' = st_db s" "io \<Longrightarrow> \<exists>t. r = Inr t"
proof -
  obtain r1 s1 where cw: "current_write_transaction io now s = (r1, s1)" by fastforce
  note w = write_transaction_live [OF assms(1) cw]
  have no: "live_tables s1 = st_db s1" using w(1) by (simp add: live_tables_def)
  show "store_ok s'" "st_writes s' = st_writes s" "st_open s' = st_open s"
    "r = Inr t \<Longrightarrow> t = live_tables s \<and> live_tables s' = live_tables s"
    "r = Inl e \<Longrightarrow> e = Io \<and> \<not> io \<and> live_tables s' = st_db s" "io \<Longrightarrow> \<exists>t. r = Inr t"
    using assms(2) w no cw
    by (auto simp: read_tables_def store_ok_def split: sum.splits)
qed

lemma modify_live:
  assumes "store_ok s" "modify io now f s = (r, s')"
  shows "store_ok s'" "st_writes s' = st_writes s" "st_open s' = st_open s"
    "(r = fst (f (live_tables s)) \<and> live_tables s' = snd (f (live_tables s))) \<or>
     (r = Inl Io \<and> \<not> io \<and> live_tables s' = st_db s)"
proof -
  obtain r1 s1 where cw: "current_write_transaction io now s = (r1, s1)" by fastforce
  note w = write_transaction_live [OF assms(1) cw]
  have no: "live_tables s1 = st_db s1" using w(1) by (simp add: live_tables_def)
  have "store_ok s' \<and> st_writes s' = st_writes s \<and> st_open s' = st_open s \<and>
    ((r = fst (f (live_tables s)) \<and> live_tables s' = snd (f (live_tables s))) \<or>
     (r = Inl Io \<and> \<not> io \<and> live_tables s' = st_db s))"
  proof (cases r1)
    case (Inl e)
    then have "r = Inl e" "s' = s1" using assms(2) cw by (simp_all add: modify_def)
    then show ?thesis using w(2-4) w(6,8) [OF Inl] no by simp
  next
    case (Inr x)
    obtain t since dirty where x: "x = (t, since, dirty)" by (cases x)
    then have t: "t = live_tables s" using w(7) Inr by blast
    have "r = fst (f t)" "s' = s1\<lparr>st_transaction := WriteTransaction (snd (f t)) since True\<rparr>"
      using assms(2) cw Inr x by (simp_all add: modify_def Let_def split_beta)
    then show ?thesis using w(2-4) t by (simp add: store_ok_def)
  qed
  then show "store_ok s'" "st_writes s' = st_writes s" "st_open s' = st_open s"
    "(r = fst (f (live_tables s)) \<and> live_tables s' = snd (f (live_tables s))) \<or>
     (r = Inl Io \<and> \<not> io \<and> live_tables s' = st_db s)" by blast+
qed

lemma snapshot_owned_live:
  assumes ok: "store_ok s" and sn: "snapshot_owned io now s = (r, s')"
  shows "store_ok s'" "st_writes s' = st_writes s" "st_open s' = st_open s"
    "r = Inr t \<Longrightarrow> t = live_tables s \<and> live_tables s' = live_tables s"
    "r = Inl e \<Longrightarrow> e = Io \<and> \<not> io \<and> live_tables s' = st_db s" "io \<Longrightarrow> \<exists>t. r = Inr t"
  using assms
  by (cases "st_transaction s"; fastforce simp: snapshot_owned_def finish_write_def take_transaction_def store_ok_def
      live_tables_def Let_def split: if_splits)+

lemma snapshot_live:
  assumes ok: "store_ok s" and sn: "snapshot io now s = (r, s')"
  shows "store_ok s'" "st_writes s' = st_writes s" "st_open s' = st_open s"
    "r = Inr t \<Longrightarrow> t = live_tables s \<and> live_tables s' = live_tables s"
    "r = Inl e \<Longrightarrow> e = Io \<and> \<not> io \<and> live_tables s' = st_db s" "io \<Longrightarrow> \<exists>t. r = Inr t"
  using assms
  by (cases "st_transaction s"; fastforce simp: snapshot_def finish_write_def take_transaction_def store_ok_def
      live_tables_def Let_def split: if_splits)+

lemma flush_live:
  assumes ok: "store_ok s" and fl: "flush io now s = (r, s')"
  shows "store_ok s'" "st_writes s' = st_writes s" "st_open s' = st_open s"
    "r = Inr () \<Longrightarrow> live_tables s' = live_tables s \<and> st_disk s' = live_tables s"
    "r = Inl e \<Longrightarrow> e = Io \<and> \<not> io \<and> live_tables s' = st_db s" "io \<Longrightarrow> r = Inr ()"
  using assms
  by (cases "st_transaction s"; fastforce simp: flush_def commit_and_sync_def finish_write_def take_transaction_def
      store_ok_def live_tables_def Let_def split: if_splits)+

subsection \<open>The tables a store holds anywhere\<close>

definition contents :: "Store \<Rightarrow> Tables set" where
  "contents s = {st_disk s, st_db s, live_tables s}"

lemma contents_simps [simp]:
  "contents (s\<lparr>st_writes := w\<rparr>) = contents s" "contents (s\<lparr>st_open := ns\<rparr>) = contents s"
  "contents (wrote n s) = contents s" "contents (new_store t) = {t}"
  by (simp_all add: contents_def wrote_def) (simp add: new_store_def)

lemma finish_write_contents:
  "finish_write io now t since dirty synced s = (r, s') \<Longrightarrow>
     st_db s' \<in> {st_db s, t} \<and> st_disk s' \<in> {st_disk s, t}"
  by (auto simp: finish_write_def Let_def split: if_splits)

lemma take_transaction_fields [simp]: "st_db (take_transaction s) = st_db s" "st_disk (take_transaction s) = st_disk s"
  "st_transaction (take_transaction s) = NoTransaction"
  by (simp_all add: take_transaction_def)

lemma committed_contents:
  "st_db s' \<in> contents s \<Longrightarrow> st_disk s' \<in> contents s \<Longrightarrow> st_transaction s' = NoTransaction \<Longrightarrow> contents s' \<subseteq> contents s"
  by (auto simp: contents_def live_tables_def)

lemma write_transaction_contents:
  assumes "store_ok s" "current_write_transaction io now s = (r, s')"
  shows "contents s' \<subseteq> contents s"
proof (rule committed_contents)
  show "st_transaction s' = NoTransaction" using write_transaction_live(1) [OF assms] .
  show "st_db s' \<in> contents s" "st_disk s' \<in> contents s"
    using assms(2) by (cases "st_transaction s";
      force simp: current_write_transaction_def contents_def live_tables_def split: if_splits sum.splits prod.splits
        dest: finish_write_contents)+
qed

lemma read_tables_contents:
  assumes "store_ok s" "read_tables io now s = (r, s')"
  shows "contents s' \<subseteq> contents s"
proof -
  obtain r1 s1 where cw: "current_write_transaction io now s = (r1, s1)" by fastforce
  have "contents s1 \<subseteq> contents s" using write_transaction_contents [OF assms(1) cw] .
  moreover have "r1 = Inr (t, since, dirty) \<Longrightarrow> t \<in> contents s" for t since dirty
    using write_transaction_live(7) [OF assms(1) cw, of t since dirty] by (simp add: contents_def)
  ultimately show ?thesis using assms(2) cw by (auto simp: read_tables_def contents_def split: sum.splits)
qed

lemma modify_contents:
  assumes "store_ok s" "modify io now f s = (r, s')"
  shows "contents s' \<subseteq> insert (snd (f (live_tables s))) (contents s)"
proof -
  obtain r1 s1 where cw: "current_write_transaction io now s = (r1, s1)" by fastforce
  have "contents s1 \<subseteq> contents s" using write_transaction_contents [OF assms(1) cw] .
  moreover have "r1 = Inr (t, since, dirty) \<Longrightarrow> t = live_tables s" for t since dirty
    using write_transaction_live(7) [OF assms(1) cw, of t since dirty] by simp
  ultimately show ?thesis using assms(2) cw
    by (auto simp: modify_def contents_def Let_def split: sum.splits prod.splits)
qed

lemma snapshot_contents: "snapshot io now s = (r, s') \<Longrightarrow> contents s' \<subseteq> contents s"
  by (cases "st_transaction s"; force simp: snapshot_def contents_def live_tables_def finish_write_def Let_def
      split: if_splits sum.splits prod.splits)

lemma snapshot_owned_contents: "snapshot_owned io now s = (r, s') \<Longrightarrow> contents s' \<subseteq> contents s"
  by (cases "st_transaction s"; force simp: snapshot_owned_def contents_def live_tables_def finish_write_def Let_def
      split: if_splits sum.splits prod.splits)

lemma flush_contents: "flush io now s = (r, s') \<Longrightarrow> contents s' \<subseteq> contents s"
  by (cases "st_transaction s"; force simp: flush_def commit_and_sync_def contents_def live_tables_def finish_write_def Let_def
      split: if_splits sum.splits prod.splits)

end
