(* ===== verification/Store_Claims.thy ===== *)
theory Store_Claims
  imports Store_Live
begin

text \<open>
  The properties of the replica store: an invariant of its tables in every state a sequence of operations,
  commits that fail and restarts can reach, what its transactions add up to, durability, the bound on the
  peers kept, and what is left of a removed replica.
\<close>

declare split_paired_All [simp del] split_paired_Ex [simp del]

subsection \<open>The invariant of the tables\<close>

definition by_key_mirrors :: "Tables \<Rightarrow> bool" where
  "by_key_mirrors t \<longleftrightarrow>
     (\<forall>ns author key. map_of (tb_by_key t) (ns, key, author) \<noteq> None \<longleftrightarrow> map_of (tb_records t) (ns, author, key) \<noteq> None)"

definition latest_covers :: "Tables \<Rightarrow> bool" where
  "latest_covers t \<longleftrightarrow>
     (\<forall>ns author key v. map_of (tb_records t) (ns, author, key) = Some v \<longrightarrow>
        (\<exists>l. map_of (tb_latest t) (ns, author) = Some l \<and> fst v \<le> fst l))"

definition peers_bounded :: "Tables \<Rightarrow> bool" where
  "peers_bounded t \<longleftrightarrow>
     (\<forall>ns. distinct (map snd (peers_of t ns)) \<and> length (peers_of t ns) \<le> PEERS_PER_DOC_CACHE_SIZE)"

definition tables_ok :: "Tables \<Rightarrow> bool" where
  "tables_ok t \<longleftrightarrow> tbl_ok (tb_records t) \<and> tbl_ok (tb_by_key t) \<and> tbl_ok (tb_namespaces t) \<and> tbl_ok (tb_latest t) \<and>
     tbl_ok (tb_peers t) \<and> tbl_ok (tb_authors t) \<and> by_key_mirrors t \<and> latest_covers t \<and> peers_bounded t"

definition store_inv :: "Store \<Rightarrow> bool" where
  "store_inv s \<longleftrightarrow> store_ok s \<and> (\<forall>t\<in>contents s. tables_ok t)"

text \<open>One operation of the store, with any outcome of its commits at any time, or a restart from the disk.\<close>

inductive store_step :: "('x) crypto_scheme \<Rightarrow> Store \<Rightarrow> Store \<Rightarrow> bool" for c where
  author_imported: "store_step c s (snd (import_author c io now author s))"
| author_read: "store_step c s (snd (get_author io now author s))"
| namespace_imported: "store_step c s (snd (import_namespace c io now capability s))"
| replica_loaded: "store_step c s (snd (load_replica_info c io now ns s))"
| replica_closed: "store_step c s (close_replica ns s)"
| replica_removed: "store_step c s (snd (remove_replica io now ns s))"
| entry_put: "store_step c s (snd (modify io now (\<lambda>t. (Inr (), entry_put_tables e t)) (wrote (se_namespace e) s)))"
| peer_registered: "store_step c s (snd (register_useful_peer io now nanos ns peer s))"
| peers_read: "store_step c s (snd (get_sync_peers io now ns s))"
| news_asked: "store_step c s (snd (has_news_for_us io now ns heads s))"
| tables_read: "store_step c s (snd (read_tables io now s))"
| snapshot_taken: "store_step c s (snd (snapshot io now s))"
| snapshot_taken_owned: "store_step c s (snd (snapshot_owned io now s))"
| flushed: "store_step c s (snd (flush io now s))"
| restarted: "store_step c s (new_store (st_disk s))"

subsection \<open>Every change of the tables keeps the invariant\<close>

lemma peers_of_other [simp]:
  "peers_of (t\<lparr>tb_records := r\<rparr>) = peers_of t" "peers_of (t\<lparr>tb_by_key := b\<rparr>) = peers_of t"
  "peers_of (t\<lparr>tb_namespaces := n\<rparr>) = peers_of t" "peers_of (t\<lparr>tb_latest := l\<rparr>) = peers_of t"
  "peers_of (t\<lparr>tb_authors := a\<rparr>) = peers_of t"
  by (simp_all add: peers_of_def fun_eq_iff)

lemma tables_ok_empty: "tables_ok empty_tables"
  by (simp add: tables_ok_def empty_tables_def by_key_mirrors_def latest_covers_def peers_bounded_def peers_of_def)

lemma tables_ok_author: "tables_ok t \<Longrightarrow> tables_ok (t\<lparr>tb_authors := tbl_insert k v (tb_authors t)\<rparr>)"
  by (simp add: tables_ok_def by_key_mirrors_def latest_covers_def peers_bounded_def)

lemma tables_ok_namespace: "tables_ok t \<Longrightarrow> tables_ok (snd (import_namespace_tables c capability t))"
  by (simp add: import_namespace_tables_def Let_def tables_ok_def by_key_mirrors_def latest_covers_def peers_bounded_def)

lemma tables_ok_remove:
  assumes "tables_ok t"
  shows "tables_ok (remove_replica_tables ns t)"
proof -
  have peers: "peers_of (remove_replica_tables ns t) n = (if n = ns then [] else peers_of t n)" for n
    by (auto simp: peers_of_def remove_replica_tables_def filter_empty_conv intro!: arg_cong [where f = "map _"] filter_cong)
  then have "peers_bounded (remove_replica_tables ns t)" using assms by (auto simp: tables_ok_def peers_bounded_def)
  then show ?thesis using assms
    by (auto simp: tables_ok_def remove_replica_tables_def by_key_mirrors_def latest_covers_def table_simps
        namespace_bounds_exact by_key_namespace_exact)
qed

lemma tables_ok_entry:
  assumes "tables_ok t"
  shows "tables_ok (entry_put_tables e t)"
proof -
  let ?t = "entry_put_tables e t" and ?old = "map_of (tb_latest t) (se_namespace e, se_author e)"
  have peers: "peers_bounded ?t" using assms by (simp add: tables_ok_def peers_bounded_def entry_put_tables_def Let_def)
  have mirrors: "by_key_mirrors ?t"
    using assms by (auto simp: tables_ok_def by_key_mirrors_def entry_put_tables_def Let_def table_simps)
  have covers: "latest_covers ?t"
    unfolding latest_covers_def
  proof (intro allI impI)
    fix ns author key v assume v: "map_of (tb_records ?t) (ns, author, key) = Some v"
    have old: "tbl_ok (tb_records t)" "tbl_ok (tb_latest t)" "latest_covers t" using assms by (simp_all add: tables_ok_def)
    have latest: "map_of (tb_latest ?t) (ns, author) =
        (if (ns, author) = (se_namespace e, se_author e) \<and> (case ?old of Some l \<Rightarrow> fst l | None \<Rightarrow> 0) \<le> se_timestamp e
         then Some (se_timestamp e, se_key e) else map_of (tb_latest t) (ns, author))"
      using old by (simp add: entry_put_tables_def Let_def table_simps)
    show "\<exists>l. map_of (tb_latest ?t) (ns, author) = Some l \<and> fst v \<le> fst l"
    proof (cases "(ns, author, key) = (se_namespace e, se_author e, se_key e)")
      case True
      then have "v = entry_value e" using v old by (simp add: entry_put_tables_def Let_def table_simps)
      then show ?thesis using True latest by (auto simp: entry_value_def split: option.splits if_splits)
    next
      case False
      then have "map_of (tb_records t) (ns, author, key) = Some v"
        using v old by (auto simp: entry_put_tables_def Let_def table_simps split: if_splits)
      then obtain l where "map_of (tb_latest t) (ns, author) = Some l" "fst v \<le> fst l"
        using old(3) unfolding latest_covers_def by blast
      then show ?thesis using latest by (auto split: option.splits if_splits)
    qed
  qed
  show ?thesis using assms peers mirrors covers by (simp add: tables_ok_def entry_put_tables_def Let_def)
qed

subsection \<open>The peers of a document\<close>

lemma peers_row:
  assumes "tbl_ok (tb_peers t)"
  shows "p \<in> set (peers_of t ns) \<longleftrightarrow> map_of (tb_peers t) (ns, p) \<noteq> None"
proof -
  have "p \<in> set (peers_of t ns) \<longleftrightarrow> (\<exists>u. ((ns, p), u) \<in> set (tb_peers t))"
    by (force simp: peers_of_def)
  then show ?thesis using tbl_row [OF assms] by auto
qed

lemma distinct_peers:
  assumes "tbl_ok (tb_peers t)"
  shows "distinct (peers_of t ns)"
proof -
  have "inj_on snd (fst ` set (filter (\<lambda>row. fst (fst row) = ns) (tb_peers t)))" by (auto simp: inj_on_def)
  moreover have "distinct (map fst (filter (\<lambda>row. fst (fst row) = ns) (tb_peers t)))"
    using tbl_ok_distinct [OF assms] by (rule distinct_map_filter)
  ultimately show ?thesis by (simp add: peers_of_def distinct_map comp_inj_on [of fst _ snd, unfolded comp_def])
qed

lemma insert_peer_set:
  assumes "tbl_ok (tb_peers t)"
  shows "set (peers_of (insert_peer ns p t) n) = (if n = ns then insert p (set (peers_of t n)) else set (peers_of t n))"
    "tbl_ok (tb_peers (insert_peer ns p t))"
  using assms by (auto simp: peers_row insert_peer_def table_simps split: if_splits)

lemma remove_peer_set:
  assumes "tbl_ok (tb_peers t)"
  shows "set (peers_of (remove_peer ns p t) n) = (if n = ns then set (peers_of t n) - {p} else set (peers_of t n))"
    "tbl_ok (tb_peers (remove_peer ns p t))"
  using assms by (auto simp: peers_row remove_peer_def table_simps split: if_splits)

text \<open>The bound in terms of the set of rows.\<close>

lemma peers_bounded_set:
  assumes "tbl_ok (tb_peers t)"
  shows "peers_bounded t \<longleftrightarrow>
    (\<forall>ns. inj_on snd (set (peers_of t ns)) \<and> card (set (peers_of t ns)) \<le> PEERS_PER_DOC_CACHE_SIZE)"
  using distinct_peers [OF assms] by (auto simp: peers_bounded_def distinct_map distinct_card)

lemma replaced_peer:
  assumes "inj_on snd R" "finite R" "x \<in> R" "snd x = peer"
  shows "inj_on snd (insert (nanos, peer) (R - {x}))" "card (insert (nanos, peer) (R - {x})) \<le> card R"
proof -
  have no: "peer \<notin> snd ` (R - {x})" using assms(1,3,4) by (auto simp: inj_on_def)
  have "inj_on snd (R - {x})" using assms(1) by (rule inj_on_subset) blast
  then show "inj_on snd (insert (nanos, peer) (R - {x}))" using no by auto
  have "card (R - {x}) = card R - 1" "0 < card R" using assms(2,3) by (auto simp: card_gt_0_iff)
  then show "card (insert (nanos, peer) (R - {x})) \<le> card R"
    using card_insert_le_m1 [of "card R" "R - {x}" "(nanos, peer)"] by simp
qed

definition evicted :: "PeerIdBytes \<Rightarrow> (64 word \<times> PeerIdBytes) list \<Rightarrow> (64 word \<times> PeerIdBytes) set" where
  "evicted peer rows =
     {row \<in> set rows. snd row = peer} \<union>
     (if peer \<notin> snd ` set rows \<and> PEERS_PER_DOC_CACHE_SIZE \<le> length rows then {hd rows} else {})"

text \<open>
  Registering a peer of a known document: it is there with the new time, its earlier row and, in a full
  table that did not hold it, the oldest row are gone, and every other row stays.
\<close>

lemma register_peer_rows:
  fixes nanos peer
  assumes ok: "tables_ok t" and known: "map_of (tb_namespaces t) ns = Some y"
  defines "t' \<equiv> snd (register_useful_peer_tables nanos ns peer t)"
  shows "set (peers_of t' n) = (if n = ns then insert (nanos, peer) (set (peers_of t ns) - evicted peer (peers_of t ns))
      else set (peers_of t n))"
    and "tbl_ok (tb_peers t')"
proof -
  have tk: "tbl_ok (tb_peers t)" and inj: "inj_on snd (set (peers_of t ns))"
    using ok peers_bounded_set by (auto simp: tables_ok_def)
  have "(set (peers_of t' n) = (if n = ns then insert (nanos, peer) (set (peers_of t ns) - evicted peer (peers_of t ns))
      else set (peers_of t n))) \<and> tbl_ok (tb_peers t')"
  proof (cases "peers_of t ns")
    case Nil
    then show ?thesis using tk known
      by (auto simp: t'_def register_useful_peer_tables_def insert_peer_set evicted_def)
  next
    case (Cons oldest others)
    obtain m q where o: "oldest = (m, q)" by (cases oldest)
    show ?thesis
    proof (cases "q = peer")
      case True
      then have "evicted peer (peers_of t ns) = {oldest}" using inj Cons o by (auto simp: evicted_def inj_on_def)
      then show ?thesis using tk known Cons o True
        by (simp add: t'_def register_useful_peer_tables_def insert_peer_set remove_peer_set)
    next
      case False
      show ?thesis
      proof (cases "find (\<lambda>(n, p). p = peer) others")
        case None
        then have new: "peer \<notin> snd ` set (peers_of t ns)" using Cons o False by (auto simp: find_None_iff)
        then have ev: "evicted peer (peers_of t ns) = (if PEERS_PER_DOC_CACHE_SIZE \<le> length (peers_of t ns) then {oldest} else {})"
          using Cons by (auto simp: evicted_def)
        have "(nanos, peer) \<noteq> oldest" using False o by auto
        then show ?thesis using tk known Cons o False None ev
          by (auto simp: t'_def register_useful_peer_tables_def Let_def insert_peer_set remove_peer_set)
      next
        case (Some row)
        then obtain i where "i < length others" "row = others ! i" "snd row = peer"
          by (auto simp: find_Some_iff)
        then have row: "row \<in> set others" "snd row = peer" by simp_all
        then have "evicted peer (peers_of t ns) = {row}"
          using inj Cons by (auto simp: evicted_def inj_on_def)
        then show ?thesis using tk known Cons o False Some row
          by (cases row) (simp add: t'_def register_useful_peer_tables_def insert_peer_set remove_peer_set)
      qed
    qed
  qed
  then show "set (peers_of t' n) = (if n = ns then insert (nanos, peer) (set (peers_of t ns) - evicted peer (peers_of t ns))
      else set (peers_of t n))" "tbl_ok (tb_peers t')" by blast+
qed

lemma tables_ok_peer:
  assumes ok: "tables_ok t"
  shows "tables_ok (snd (register_useful_peer_tables nanos ns peer t))" (is "tables_ok ?t")
proof (cases "map_of (tb_namespaces t) ns = None")
  case True
  then show ?thesis using ok by (simp add: register_useful_peer_tables_def)
next
  case False
  have tk: "tbl_ok (tb_peers t)" using ok by (simp add: tables_ok_def)
  have old: "inj_on snd (set (peers_of t n))" "card (set (peers_of t n)) \<le> PEERS_PER_DOC_CACHE_SIZE" for n
    using ok peers_bounded_set by (auto simp: tables_ok_def)
  let ?R = "set (peers_of t ns)" and ?E = "evicted peer (peers_of t ns)"
  have len: "length (peers_of t ns) = card ?R" using distinct_peers [OF tk] by (simp add: distinct_card)
  have new: "inj_on snd (insert (nanos, peer) (?R - ?E)) \<and> card (insert (nanos, peer) (?R - ?E)) \<le> PEERS_PER_DOC_CACHE_SIZE"
  proof (cases "peer \<in> snd ` ?R")
    case True
    then obtain x where x: "x \<in> ?R" "snd x = peer" by blast
    then have "?E = {x}" using old(1) [of ns] by (auto simp: evicted_def inj_on_def)
    then show ?thesis using replaced_peer [OF old(1) _ x, of nanos] old(2) [of ns] by (auto intro: order_trans)
  next
    case False
    have "inj_on snd (?R - ?E)" using old(1) by (rule inj_on_subset) blast
    then have "inj_on snd (insert (nanos, peer) (?R - ?E))" using False by (auto simp: image_iff)
    moreover have "card (?R - ?E) < PEERS_PER_DOC_CACHE_SIZE"
    proof (cases "PEERS_PER_DOC_CACHE_SIZE \<le> length (peers_of t ns)")
      case True
      then have "peers_of t ns \<noteq> []" by (auto simp: PEERS_PER_DOC_CACHE_SIZE_def)
      then have "hd (peers_of t ns) \<in> ?R" by simp
      moreover have "?E = {hd (peers_of t ns)}" using False True by (auto simp: evicted_def)
      ultimately show ?thesis using old(2) [of ns] by (simp add: PEERS_PER_DOC_CACHE_SIZE_def)
    next
      case short: False
      then have "?E = {}" using False by (auto simp: evicted_def)
      then show ?thesis using short len by simp
    qed
    ultimately show ?thesis by (auto simp: card_insert_if)
  qed
  have rows: "set (peers_of ?t n) = (if n = ns then insert (nanos, peer) (?R - ?E) else set (peers_of t n))"
    and tk': "tbl_ok (tb_peers ?t)" for n
    using False register_peer_rows [OF ok] by blast+
  have "peers_bounded ?t"
    unfolding peers_bounded_set [OF tk'] rows using new old by simp
  moreover have "tb_records ?t = tb_records t" "tb_by_key ?t = tb_by_key t" "tb_namespaces ?t = tb_namespaces t"
    "tb_latest ?t = tb_latest t" "tb_authors ?t = tb_authors t"
    by (auto simp: register_useful_peer_tables_def insert_peer_def remove_peer_def Let_def split: list.split option.split)
  ultimately show ?thesis using ok tk' by (simp add: tables_ok_def by_key_mirrors_def latest_covers_def)
qed

subsection \<open>Every step keeps the invariant\<close>

lemma modify_inv:
  assumes "store_inv s" "\<And>t. tables_ok t \<Longrightarrow> tables_ok (snd (f t))"
  shows "store_inv (snd (modify io now f s))"
proof -
  obtain r s' where m: "modify io now f s = (r, s')" by fastforce
  have "tables_ok (live_tables s)" using assms(1) by (simp add: store_inv_def contents_def)
  then show ?thesis
    using modify_live(1) [OF _ m] modify_contents [OF _ m] assms m by (auto simp: store_inv_def)
qed

lemma read_inv: "store_inv s \<Longrightarrow> store_inv (snd (read_tables io now s))"
  using read_tables_live(1) read_tables_contents by (metis prod.collapse store_inv_def subset_iff)

lemma store_inv_simps [simp]:
  "store_inv (wrote ns s) = store_inv s" "store_inv (close_replica ns s) = store_inv s"
  "store_inv (s\<lparr>st_open := opened\<rparr>) = store_inv s"
  by (simp_all add: store_inv_def close_replica_def)

lemma store_step_inv:
  assumes "store_step c s s'" "store_inv s"
  shows "store_inv s'"
  using assms
proof induction
  case (author_imported s io now author)
  then show ?case unfolding import_author_def by (intro modify_inv) (simp_all add: tables_ok_author)
next
  case (author_read s io now author)
  then show ?case using read_inv [of s io now] by (auto simp: get_author_def split: prod.split sum.split)
next
  case (namespace_imported s io now capability)
  then show ?case unfolding import_namespace_def by (intro modify_inv tables_ok_namespace)
next
  case (replica_loaded s io now ns)
  then show ?case using read_inv [of s io now]
    by (auto simp: load_replica_info_def split: prod.split sum.split option.split)
next
  case (replica_removed s io now ns)
  then show ?case
    using modify_inv [of s "\<lambda>t. (Inr (), remove_replica_tables ns t)" io now] tables_ok_remove
    by (auto simp: remove_replica_def split: prod.split sum.split)
next
  case (entry_put s io now e)
  then show ?case by (intro modify_inv) (simp_all add: tables_ok_entry)
next
  case (peer_registered s io now nanos ns peer)
  then show ?case unfolding register_useful_peer_def by (intro modify_inv tables_ok_peer)
next
  case (peers_read s io now ns)
  then show ?case using read_inv [of s io now] by (auto simp: get_sync_peers_def Let_def split: prod.split sum.split)
next
  case (news_asked s io now ns heads)
  then show ?case using read_inv [of s io now] by (auto simp: has_news_for_us_def Let_def split: prod.split sum.split)
next
  case (snapshot_taken s io now)
  then show ?case using snapshot_live(1) snapshot_contents by (metis prod.collapse store_inv_def subset_iff)
next
  case (snapshot_taken_owned s io now)
  then show ?case using snapshot_owned_live(1) snapshot_owned_contents by (metis prod.collapse store_inv_def subset_iff)
next
  case (flushed s io now)
  then show ?case using flush_live(1) flush_contents by (metis prod.collapse store_inv_def subset_iff)
next
  case (restarted s)
  then have "tables_ok (st_disk s)" by (simp add: store_inv_def contents_def)
  then show ?case by (simp add: store_inv_def)
qed (simp_all add: read_inv)

lemma store_reaches_inv: "(store_step c)\<^sup>*\<^sup>* (new_store empty_tables) s \<Longrightarrow> store_inv s"
proof (induction rule: rtranclp_induct)
  case base
  then show ?case by (simp add: store_inv_def tables_ok_empty)
qed (rule store_step_inv)

subsection \<open>A store with one entry\<close>

definition demo_signed :: SignedEntry where
  "demo_signed =
     \<lparr>se_signature = \<lparr>author_signature = 0, namespace_signature = 0\<rparr>,
      se_entry = \<lparr>ent_id = RecordIdentifier 1 2 [3], ent_record = \<lparr>rec_len = 4, rec_hash = 5, rec_timestamp = 6\<rparr>\<rparr>\<rparr>"

definition demo_put :: "Store \<Rightarrow> Store" where
  "demo_put s = snd (modify True 0 (\<lambda>t. (Inr (), entry_put_tables demo_signed t)) (wrote (se_namespace demo_signed) s))"

definition demo_written :: Store where
  "demo_written = demo_put (snd (import_namespace sample_crypto True 0 (WriteCapability 0) (new_store empty_tables)))"

lemma demo_written_reached: "(store_step sample_crypto)\<^sup>*\<^sup>* (new_store empty_tables) demo_written"
proof -
  have "store_step sample_crypto (new_store empty_tables)
      (snd (import_namespace sample_crypto True 0 (WriteCapability 0) (new_store empty_tables)))"
    by (rule namespace_imported)
  moreover have "store_step sample_crypto s (demo_put s)" for s
    unfolding demo_put_def by (rule entry_put)
  ultimately show ?thesis unfolding demo_written_def by (meson r_into_rtranclp rtranclp.rtrancl_into_rtrancl)
qed

lemma demo_written_tables:
  "live_tables demo_written =
     \<lparr>tb_records = [((1, 2, [3]), (6, 0, 0, 4, 5))], tb_by_key = [((1, [3], 2), ())], tb_namespaces = [(1, (1, 0))],
      tb_latest = [((1, 2), (6, [3]))], tb_peers = [], tb_authors = []\<rparr>"
  "st_db demo_written = empty_tables" "st_disk demo_written = empty_tables"
  "st_transaction demo_written = WriteTransaction (live_tables demo_written) 0 True"
  "writes_of demo_written 1 = 1" "st_open demo_written = {}"
  by (simp_all add: demo_written_def demo_put_def demo_signed_def import_namespace_def import_namespace_tables_def modify_def
      current_write_transaction_def new_store_def take_transaction_def live_tables_def empty_tables_def entry_put_tables_def
      entry_value_def wrote_def writes_of_def hmodify_def hget_or_def sample_crypto_def namespace_id_def WRITE_KIND_def
      MAX_COMMIT_DELAY_def Let_def)

subsection \<open>Properties\<close>

text \<open>
  C32: in every store that operations, failed commits and restarts can reach, the tables on disk, the
  committed ones and the live ones are each well formed: sorted with one row per key, the by-key index
  with a row for exactly the records held, every author's latest timestamp not below one of its entries,
  and at most five peers a document, each once. Without unsynced commits the committed tables are on disk.
\<close>

theorem store_invariant:
  assumes "(store_step c)\<^sup>*\<^sup>* (new_store empty_tables) s" "t \<in> contents s"
  shows "tables_ok t \<and> store_ok s"
  using store_reaches_inv [OF assms(1)] assms(2) by (auto simp: store_inv_def)

theorem store_invariant_witness:
  "(store_step sample_crypto)\<^sup>*\<^sup>* (new_store empty_tables) demo_written \<and> live_tables demo_written \<in> contents demo_written \<and>
   tables_ok (live_tables demo_written) \<and> tb_records (live_tables demo_written) \<noteq> []"
  using store_invariant [OF demo_written_reached, of "live_tables demo_written"] demo_written_reached
  by (simp add: contents_def demo_written_tables)

text \<open>
  C33: the store refines one set of tables. Whatever transaction is open, whenever commits happen and
  whichever fail, a write applies its function to the live tables and a read or a snapshot shows them;
  a flush that succeeds has them on disk, where a restart finds them. An operation that fails, fails with
  the commit it had to make, and leaves the tables of the last commit.
\<close>

theorem store_refines_tables:
  assumes "store_ok s"
  shows "(case modify io now f s of (r, s') \<Rightarrow> store_ok s' \<and>
      (r = fst (f (live_tables s)) \<and> live_tables s' = snd (f (live_tables s)) \<or>
       r = Inl Io \<and> \<not> io \<and> live_tables s' = st_db s)) \<and>
    (case read_tables io now s of (r, s') \<Rightarrow> store_ok s' \<and>
      (r = Inr (live_tables s) \<and> live_tables s' = live_tables s \<or> r = Inl Io \<and> \<not> io \<and> live_tables s' = st_db s)) \<and>
    (case snapshot io now s of (r, s') \<Rightarrow> store_ok s' \<and>
      (r = Inr (live_tables s) \<and> live_tables s' = live_tables s \<or> r = Inl Io \<and> \<not> io \<and> live_tables s' = st_db s)) \<and>
    (case snapshot_owned io now s of (r, s') \<Rightarrow> store_ok s' \<and>
      (r = Inr (live_tables s) \<and> live_tables s' = live_tables s \<or> r = Inl Io \<and> \<not> io \<and> live_tables s' = st_db s)) \<and>
    (case flush io now s of (r, s') \<Rightarrow> store_ok s' \<and>
      (r = Inr () \<and> live_tables s' = live_tables s \<and> live_tables (new_store (st_disk s')) = live_tables s \<or>
       r = Inl Io \<and> \<not> io \<and> live_tables s' = st_db s))"
proof (intro conjI; (split prod.split; intro allI impI))
  fix r s' assume "modify io now f s = (r, s')"
  then show "store_ok s' \<and> (r = fst (f (live_tables s)) \<and> live_tables s' = snd (f (live_tables s)) \<or>
       r = Inl Io \<and> \<not> io \<and> live_tables s' = st_db s)"
    using modify_live(1,4) [OF assms] by blast
next
  fix r s' assume "read_tables io now s = (r, s')"
  then show "store_ok s' \<and> (r = Inr (live_tables s) \<and> live_tables s' = live_tables s \<or>
      r = Inl Io \<and> \<not> io \<and> live_tables s' = st_db s)"
    using read_tables_live(1,4,5) [OF assms] by (cases r) blast+
next
  fix r s' assume "snapshot io now s = (r, s')"
  then show "store_ok s' \<and> (r = Inr (live_tables s) \<and> live_tables s' = live_tables s \<or>
      r = Inl Io \<and> \<not> io \<and> live_tables s' = st_db s)"
    using snapshot_live(1,4,5) [OF assms] by (cases r) blast+
next
  fix r s' assume "snapshot_owned io now s = (r, s')"
  then show "store_ok s' \<and> (r = Inr (live_tables s) \<and> live_tables s' = live_tables s \<or>
      r = Inl Io \<and> \<not> io \<and> live_tables s' = st_db s)"
    using snapshot_owned_live(1,4,5) [OF assms] by (cases r) blast+
next
  fix r s' assume fl: "flush io now s = (r, s')"
  show "store_ok s' \<and> (r = Inr () \<and> live_tables s' = live_tables s \<and> live_tables (new_store (st_disk s')) = live_tables s \<or>
       r = Inl Io \<and> \<not> io \<and> live_tables s' = st_db s)"
    using flush_live(1,4,5) [OF assms fl] by (cases r) simp_all
qed

theorem store_refines_tables_witness:
  "store_ok demo_written \<and> live_tables (new_store (st_disk (snd (flush True 7 demo_written)))) = live_tables demo_written \<and>
   live_tables demo_written \<noteq> st_disk demo_written"
proof -
  have ok: "store_ok demo_written" using store_reaches_inv [OF demo_written_reached] by (simp add: store_inv_def)
  then show ?thesis
    using store_refines_tables [OF ok, where io = True and now = 7 and f = "\<lambda>t. (Inr (), t)"]
    by (auto simp: demo_written_tables empty_tables_def split: prod.splits)
qed

text \<open>
  C35: registering a peer of a document the store holds makes it one of the peers the document is synced
  with, with every other peer from before but at most one, the longest unheard of five others; never
  more than five are kept and none twice.
\<close>

theorem useful_peer_registered:
  assumes "(store_step c)\<^sup>*\<^sup>* (new_store empty_tables) s" "map_of (tb_namespaces (live_tables s)) ns = Some y"
    and "register_useful_peer True now nanos ns peer s = (r, s')" "get_sync_peers True now' ns s' = (got, s'')"
  shows "r = Inr () \<and> (\<exists>peers. got = Inr (Some peers) \<and> peer \<in> set peers \<and> distinct peers \<and>
    length peers \<le> PEERS_PER_DOC_CACHE_SIZE \<and>
    snd ` set (peers_of (live_tables s) ns) - set peers \<subseteq>
      (if PEERS_PER_DOC_CACHE_SIZE \<le> length (peers_of (live_tables s) ns) then {snd (hd (peers_of (live_tables s) ns))} else {}))"
proof -
  let ?t = "live_tables s" and ?t' = "live_tables s'"
  have inv: "store_inv s" using assms(1) by (rule store_reaches_inv)
  then have ok: "store_ok s" "tables_ok ?t" by (simp_all add: store_inv_def contents_def)
  have ns: "fst (register_useful_peer_tables nanos ns peer ?t) = Inr ()"
    using assms(2) by (auto simp: register_useful_peer_tables_def Let_def split: list.split option.split)
  have r: "r = Inr ()" "?t' = snd (register_useful_peer_tables nanos ns peer ?t)"
    using modify_live(4) [OF ok(1) assms(3) [unfolded register_useful_peer_def]] ns by auto
  have ok': "store_ok s'" "tables_ok ?t'"
    using modify_live(1) [OF ok(1) assms(3) [unfolded register_useful_peer_def]] tables_ok_peer [OF ok(2)] r(2) by simp_all
  obtain got' s2 where rd: "read_tables True now' s' = (got', s2)" by fastforce
  have got': "got' = Inr ?t'" using read_tables_live(4,6) [OF ok'(1) rd] by blast
  let ?peers = "map snd (rev (peers_of ?t' ns))"
  have rows: "set (peers_of ?t' ns) = insert (nanos, peer) (set (peers_of ?t ns) - evicted peer (peers_of ?t ns))"
    using register_peer_rows(1) [OF ok(2) assms(2), where n = ns] r(2) by simp
  then have "set ?peers \<noteq> {}" by auto
  then have "got = Inr (Some ?peers)" using assms(4) rd got' by (auto simp: get_sync_peers_def Let_def)
  moreover have "peer \<in> set ?peers" using rows by force
  moreover have "distinct ?peers" "length ?peers \<le> PEERS_PER_DOC_CACHE_SIZE"
    using ok'(2) unfolding tables_ok_def peers_bounded_def rev_map [symmetric] distinct_rev length_rev length_map by blast+
  moreover have "snd ` set (peers_of ?t ns) - set ?peers \<subseteq>
      (if PEERS_PER_DOC_CACHE_SIZE \<le> length (peers_of ?t ns) then {snd (hd (peers_of ?t ns))} else {})"
    using rows by (auto simp: evicted_def split: if_splits)
  ultimately show ?thesis using r(1) by blast
qed

theorem useful_peer_registered_witness:
  "map_of (tb_namespaces (live_tables demo_written)) 1 = Some (1, 0) \<and>
   fst (register_useful_peer True 7 8 1 9 demo_written) = Inr () \<and>
   fst (get_sync_peers True 8 1 (snd (register_useful_peer True 7 8 1 9 demo_written))) = Inr (Some [9])"
proof -
  have known: "map_of (tb_namespaces (live_tables demo_written)) 1 = Some (1, 0)" by (simp add: demo_written_tables)
  obtain r s' where reg: "register_useful_peer True 7 8 1 9 demo_written = (r, s')" by fastforce
  obtain got s'' where got: "get_sync_peers True 8 1 s' = (got, s'')" by fastforce
  have rows: "peers_of (live_tables demo_written) 1 = []" by (simp add: demo_written_tables peers_of_def)
  obtain peers where peers: "r = Inr ()" "got = Inr (Some peers)" "9 \<in> set peers"
    using useful_peer_registered [OF demo_written_reached known reg got] by blast
  have "live_tables s' = snd (register_useful_peer_tables 8 1 9 (live_tables demo_written))"
    using reg peers(1) by (auto simp: register_useful_peer_def modify_def current_write_transaction_def demo_written_tables(4)
      take_transaction_def MAX_COMMIT_DELAY_def Let_def split: prod.splits)
  then have "got = Inr (Some [9])"
    using got reg by (auto simp: register_useful_peer_def modify_def current_write_transaction_def demo_written_tables(4)
      take_transaction_def MAX_COMMIT_DELAY_def Let_def register_useful_peer_tables_def rows known get_sync_peers_def
      read_tables_def peers_of_def insert_peer_def demo_written_tables(1) split: prod.splits)
  then show ?thesis using known reg got peers by simp
qed

text \<open>
  C36: removing a closed replica drops its records, its capability and its peers, and counts a write, but
  leaves its authors' latest timestamps: asked of any heads, the emptied replica answers as it did before.
\<close>

theorem removed_replica_heads:
  assumes "store_ok s" "ns \<notin> st_open s" and rm: "remove_replica True now ns s = (removed, s')"
  shows "removed = Inr () \<and> map_of (tb_records (live_tables s')) (ns, author, key) = None \<and> map_of (tb_namespaces (live_tables s')) ns = None \<and>
    peers_of (live_tables s') ns = [] \<and> writes_of s' ns = writes_of s ns + 1 \<and>
    fst (has_news_for_us True now' ns heads s') = fst (has_news_for_us True now' ns heads s)"
proof -
  obtain r s1 where m: "modify True now (\<lambda>t. (Inr () :: StoreError + unit, remove_replica_tables ns t)) s = (r, s1)" by fastforce
  note ml = modify_live [OF assms(1) m]
  have r: "r = Inr ()" "live_tables s1 = remove_replica_tables ns (live_tables s)" using ml(4) by auto
  have s': "removed = Inr ()" "s' = wrote ns s1" using assms(2) rm m r(1) by (simp_all add: remove_replica_def)
  have news: "fst (has_news_for_us True now' ns heads x) = Inr (has_news_for heads
      (fold (\<lambda>(author, timestamp, key) heads. heads_insert author timestamp heads) (latest_for_each_author (live_tables x) ns) []))"
    if "store_ok x" for x
  proof -
    obtain got x' where rd: "read_tables True now' x = (got, x')" by fastforce
    then have "got = Inr (live_tables x)" using read_tables_live(4,6) [OF that rd] by blast
    then show ?thesis using rd by (simp add: has_news_for_us_def Let_def)
  qed
  have "latest_for_each_author (live_tables s1) ns = latest_for_each_author (live_tables s) ns"
    by (simp add: r(2) latest_for_each_author_def remove_replica_tables_def)
  moreover have "writes_of s' ns = writes_of s ns + 1"
    by (simp add: s' wrote_def writes_of_def ml(2) hget_or_hmodify)
  ultimately show ?thesis
    using news [OF assms(1)] news [of s'] ml(1)
    by (simp add: s' r(2) remove_replica_tables_def table_simps namespace_bounds_exact peers_of_def filter_empty_conv)
qed

theorem removed_replica_heads_witness:
  "store_ok demo_written \<and> 1 \<notin> st_open demo_written \<and>
   fst (has_news_for_us True 9 1 [(2, 6)] (snd (remove_replica True 7 1 demo_written))) = Inr None \<and>
   map_of (tb_records (live_tables (snd (remove_replica True 7 1 demo_written)))) (1, 2, [3]) = None"
proof -
  have ok: "store_ok demo_written" using store_reaches_inv [OF demo_written_reached] by (simp add: store_inv_def)
  have "fst (has_news_for_us True 9 1 [(2, 6)] demo_written) = Inr None"
    by (simp add: has_news_for_us_def read_tables_def current_write_transaction_def demo_written_tables take_transaction_def
      MAX_COMMIT_DELAY_def latest_for_each_author_def tbl_range_def in_bounds_def heads_insert_def has_news_for_def Let_def)
  then show ?thesis
    using removed_replica_heads [OF ok _ prod.collapse [symmetric], where ns = 1 and now = 7 and author = 2 and key = "[3]"
      and now' = 9 and heads = "[(2, 6)]"] ok
    by (simp add: demo_written_tables)
qed



end
