(* ===== verification/Ranger.thy ===== *)
theory Ranger
  imports Store_Entry
begin

text \<open>
  Range-based set reconciliation, \<^verbatim>\<open>crates/pdn-store/src/ranger.rs\<close>, over signed entries: ranges of
  identifiers, fingerprints, messages, and the processing of a message against a store.

  The trait \<open>Store\<close> is the record \<open>range_store\<close> of its required methods, each passing the store's state
  along and able to fail; its provided methods are functions over that record. A panic of the code is the
  error \<open>MissingEntry\<close>. Iterators are lists: a failure in the middle of one is not modelled.
\<close>

unbundle bit_operations_syntax

declare split_paired_All [simp del] split_paired_Ex [simp del]

subsection \<open>Ranges and fingerprints\<close>

datatype 'k Range = Range (range_x: 'k) (range_y: 'k)

definition is_all :: "'k Range \<Rightarrow> bool" where
  "is_all r \<longleftrightarrow> range_x r = range_y r"

fun range_contains :: "'k::linorder Range \<Rightarrow> 'k \<Rightarrow> bool" where
  "range_contains (Range x y) t =
     (if x = y then True else if x < y then x \<le> t \<and> t < y else x \<le> t \<or> t < y)"

type_synonym Fingerprint = "256 word"

definition fingerprint_empty :: "'x store_crypto_scheme \<Rightarrow> Fingerprint" where
  "fingerprint_empty c = blake3 c []"

text \<open>The fingerprint both stores compute of the entries a range iterates.\<close>

definition fingerprint_of :: "'x store_crypto_scheme \<Rightarrow> SignedEntry list \<Rightarrow> Fingerprint" where
  "fingerprint_of c entries = fold (\<lambda>e fp. fp XOR as_fingerprint c e) entries (fingerprint_empty c)"

subsection \<open>Messages\<close>

datatype MessagePart =
    RangeFingerprint "RecordIdentifier Range" Fingerprint
  | RangeItem "RecordIdentifier Range" "(SignedEntry \<times> ContentStatus) list" bool

type_synonym Message = "MessagePart list"

fun part_values :: "MessagePart \<Rightarrow> (SignedEntry \<times> ContentStatus) list option" where
  "part_values (RangeFingerprint rng fp) = None"
| "part_values (RangeItem rng vs have_local) = Some vs"

definition message_values :: "Message \<Rightarrow> (SignedEntry \<times> ContentStatus) list" where
  "message_values message = concat (List.map_filter part_values message)"

definition value_count :: "Message \<Rightarrow> nat" where
  "value_count message = length (message_values message)"

subsection \<open>Computations that pass a state along and may fail\<close>

type_synonym ('s, 'x, 'a) exec = "'s \<Rightarrow> ('x + 'a) \<times> 's"

definition ret :: "'a \<Rightarrow> ('s, 'x, 'a) exec" where
  "ret a s = (Inr a, s)"

definition fail :: "'x \<Rightarrow> ('s, 'x, 'a) exec" where
  "fail x s = (Inl x, s)"

definition bind :: "('s, 'x, 'a) exec \<Rightarrow> ('a \<Rightarrow> ('s, 'x, 'b) exec) \<Rightarrow> ('s, 'x, 'b) exec" where
  "bind m f s = (case m s of (Inl x, s1) \<Rightarrow> (Inl x, s1) | (Inr a, s1) \<Rightarrow> f a s1)"

primrec each :: "('a \<Rightarrow> ('s, 'x, 'b list) exec) \<Rightarrow> 'a list \<Rightarrow> ('s, 'x, 'b list) exec" where
  "each f [] = ret []"
| "each f (a # as) = bind (f a) (\<lambda>bs. bind (each f as) (\<lambda>cs. ret (bs @ cs)))"

subsection \<open>The store a session reads and writes\<close>

datatype 'x RangerError = StoreFailed 'x | MissingEntry

record ('s, 'x) range_store =
  rs_get_first :: "('s, 'x RangerError, RecordIdentifier) exec"
  rs_get_range :: "RecordIdentifier Range \<Rightarrow> ('s, 'x RangerError, SignedEntry list) exec"
  rs_get_fingerprint :: "RecordIdentifier Range \<Rightarrow> ('s, 'x RangerError, Fingerprint) exec"
  rs_entry_get :: "RecordIdentifier \<Rightarrow> ('s, 'x RangerError, SignedEntry option) exec"
  rs_entry_put :: "SignedEntry \<Rightarrow> ('s, 'x RangerError, unit) exec"

definition get_range_len :: "('s, 'x) range_store \<Rightarrow> RecordIdentifier Range \<Rightarrow> ('s, 'x RangerError, nat) exec" where
  "get_range_len st rng = bind (rs_get_range st rng) (\<lambda>entries. ret (length entries))"

definition initial_message :: "('s, 'x) range_store \<Rightarrow> ('s, 'x RangerError, Message) exec" where
  "initial_message st =
     bind (rs_get_first st) (\<lambda>x.
     bind (rs_get_fingerprint st (Range x x)) (\<lambda>fingerprint.
     ret [RangeFingerprint (Range x x) fingerprint]))"

datatype InsertOutcome = NotInserted | Inserted nat

definition put :: "('s, 'x) range_store \<Rightarrow> SignedEntry \<Rightarrow> ('s, 'x RangerError, InsertOutcome) exec" where
  "put st e =
     bind (rs_entry_get st (se_id e)) (\<lambda>previous.
     if (case previous of Some p \<Rightarrow> se_rank e \<le> se_rank p | None \<Rightarrow> False) then ret NotInserted
     else bind (rs_entry_put st e) (\<lambda>_. ret (Inserted (if previous = None then 0 else 1))))"

subsection \<open>Processing a message\<close>

record SyncConfig =
  max_set_size :: nat
  split_factor :: nat

definition default_config :: SyncConfig where
  "default_config = \<lparr>max_set_size = 1, split_factor = 2\<rparr>"

type_synonym validate_cb = "SignedEntry \<Rightarrow> ContentStatus \<Rightarrow> ValidateOutcome"
type_synonym content_status_cb = "SignedEntry \<Rightarrow> ContentStatus"

text \<open>The entries of a range the peer's values do not already cover.\<close>

definition not_covered :: "(SignedEntry \<times> ContentStatus) list \<Rightarrow> SignedEntry \<Rightarrow> bool" where
  "not_covered vs ours \<longleftrightarrow>
     \<not> (\<exists>v\<in>set vs. se_id ours = se_id (fst v) \<and> se_rank ours \<le> se_rank (fst v))"

definition with_status :: "content_status_cb \<Rightarrow> SignedEntry list \<Rightarrow> (SignedEntry \<times> ContentStatus) list" where
  "with_status status entries = map (\<lambda>e. (e, status e)) entries"

text \<open>
  Storing the incoming values: the callback for an inserted entry is the list beside the store's state it
  is appended to.
\<close>

type_synonym 's tracked = "'s \<times> (SignedEntry \<times> ContentStatus) list"

definition on_store :: "('s, 'x, 'a) exec \<Rightarrow> ('s tracked, 'x, 'a) exec" where
  "on_store m st = (let (r, s1) = m (fst st) in (r, (s1, snd st)))"

primrec store_values ::
    "('s, 'x) range_store \<Rightarrow> validate_cb \<Rightarrow> (SignedEntry \<times> ContentStatus) list \<Rightarrow>
      ('s tracked, 'x RangerError, unit) exec" where
  "store_values st validate [] = ret ()"
| "store_values st validate (v # vs) =
     (case validate (fst v) (snd v) of
        Drop \<Rightarrow> store_values st validate vs
      | Accept \<Rightarrow>
          bind (on_store (put st (fst v))) (\<lambda>insert.
          bind (\<lambda>(s, inserted). (Inr (), (s, if insert = NotInserted then inserted else inserted @ [v]))) (\<lambda>_.
          store_values st validate vs)))"

definition process_item ::
    "('s, 'x) range_store \<Rightarrow> validate_cb \<Rightarrow> content_status_cb \<Rightarrow> RecordIdentifier Range \<Rightarrow>
      (SignedEntry \<times> ContentStatus) list \<Rightarrow> bool \<Rightarrow> ('s tracked, 'x RangerError, MessagePart list) exec" where
  "process_item st validate status rng vs have_local =
     bind (if have_local then ret [] else on_store
         (bind (rs_get_range st rng) (\<lambda>ours. ret (with_status status (filter (not_covered vs) ours))))) (\<lambda>diff.
     bind (store_values st validate vs) (\<lambda>_.
     ret (if diff = [] then [] else [RangeItem rng diff True])))"

definition pivot ::
    "('s, 'x) range_store \<Rightarrow> SyncConfig \<Rightarrow> RecordIdentifier Range \<Rightarrow> nat \<Rightarrow> nat \<Rightarrow> nat \<Rightarrow>
      ('s, 'x RangerError, RecordIdentifier) exec" where
  "pivot st config rng num_local_values start_index i =
     (let i = i mod split_factor config;
          offset = (num_local_values * (i + 1)) div split_factor config;
          offset = (start_index + offset) mod num_local_values
      in bind (rs_get_range st rng) (\<lambda>entries.
           if offset < length entries then ret (se_id (entries ! offset)) else fail MissingEntry))"

definition pivot_ranges ::
    "('s, 'x) range_store \<Rightarrow> SyncConfig \<Rightarrow> RecordIdentifier Range \<Rightarrow> nat \<Rightarrow> nat \<Rightarrow> nat list \<Rightarrow>
      ('s, 'x RangerError, RecordIdentifier Range list) exec" where
  "pivot_ranges st config rng n start = each (\<lambda>i.
     bind (pivot st config rng n start i) (\<lambda>x.
     bind (pivot st config rng n start (i + 1)) (\<lambda>y.
     ret (if x \<noteq> y then [Range x y] else []))))"

definition split_range ::
    "('s, 'x) range_store \<Rightarrow> SyncConfig \<Rightarrow> RecordIdentifier Range \<Rightarrow> nat \<Rightarrow>
      ('s, 'x RangerError, RecordIdentifier Range list) exec" where
  "split_range st config rng n =
     bind (rs_get_range st rng) (\<lambda>entries.
     let start = length (takeWhile (\<lambda>e. \<not> range_x rng \<le> se_id e) entries)
     in if is_all rng then pivot_ranges st config rng n start [0..<split_factor config]
        else
          bind (pivot st config rng n start 0) (\<lambda>first.
          bind (pivot_ranges st config rng n start [0..<split_factor config - 2]) (\<lambda>middle.
          bind (pivot st config rng n start (split_factor config - 2)) (\<lambda>final.
          ret (Range (range_x rng) first # middle @ [Range final (range_y rng)])))))"

definition chunk_part ::
    "('s, 'x) range_store \<Rightarrow> SyncConfig \<Rightarrow> content_status_cb \<Rightarrow> RecordIdentifier Range \<Rightarrow>
      ('s, 'x RangerError, MessagePart list) exec" where
  "chunk_part st config status rng =
     bind (rs_get_range st rng) (\<lambda>chunk.
     bind (rs_get_fingerprint st rng) (\<lambda>fingerprint.
     ret (if max_set_size config < length chunk then [RangeFingerprint rng fingerprint]
          else [RangeItem rng (with_status status chunk) False])))"

definition process_fingerprint ::
    "'x store_crypto_scheme \<Rightarrow> ('s, 'e) range_store \<Rightarrow> SyncConfig \<Rightarrow> content_status_cb \<Rightarrow>
      RecordIdentifier Range \<Rightarrow> Fingerprint \<Rightarrow> ('s, 'e RangerError, MessagePart list) exec" where
  "process_fingerprint c st config status rng fingerprint =
     bind (rs_get_fingerprint st rng) (\<lambda>local_fingerprint.
     if local_fingerprint = fingerprint then ret []
     else
       bind (get_range_len st rng) (\<lambda>num_local_values.
       if num_local_values \<le> 1 \<or> fingerprint = fingerprint_empty c then
         bind (rs_get_range st rng) (\<lambda>entries. ret [RangeItem rng (with_status status entries) False])
       else bind (split_range st config rng num_local_values) (each (chunk_part st config status))))"

fun process_part ::
    "'x store_crypto_scheme \<Rightarrow> ('s, 'e) range_store \<Rightarrow> SyncConfig \<Rightarrow> validate_cb \<Rightarrow> content_status_cb \<Rightarrow>
      MessagePart \<Rightarrow> ('s tracked, 'e RangerError, MessagePart list) exec" where
  "process_part c st config validate status (RangeItem rng vs have_local) =
     process_item st validate status rng vs have_local"
| "process_part c st config validate status (RangeFingerprint rng fingerprint) =
     on_store (process_fingerprint c st config status rng fingerprint)"

fun is_item :: "MessagePart \<Rightarrow> bool" where
  "is_item (RangeItem rng vs have_local) = True"
| "is_item (RangeFingerprint rng fingerprint) = False"

definition process_message ::
    "'x store_crypto_scheme \<Rightarrow> ('s, 'e) range_store \<Rightarrow> SyncConfig \<Rightarrow> validate_cb \<Rightarrow> content_status_cb \<Rightarrow>
      Message \<Rightarrow> ('s tracked, 'e RangerError, Message option) exec" where
  "process_message c st config validate status message =
     bind (each (process_part c st config validate status)
         (filter is_item message @ filter (\<lambda>part. \<not> is_item part) message)) (\<lambda>parts.
     ret (if parts = [] then None else Some parts))"

end
