(* ===== verification/Ranger_Split.thy ===== *)
theory Ranger_Split
  imports Ranger
begin

text \<open>
  What a store answers to one part of a message, as a function of the entries its session reads, and that
  the ranges a fingerprint is split into partition it into smaller ones.
\<close>

declare split_paired_All [simp del] split_paired_Ex [simp del]

subsection \<open>Answers as functions of the entries read\<close>

definition entries_in :: "RecordIdentifier Range \<Rightarrow> SignedEntry list \<Rightarrow> SignedEntry list" where
  "entries_in r entries = filter (\<lambda>e. range_contains r (se_id e)) entries"

definition ordered :: "SignedEntry list \<Rightarrow> bool" where
  "ordered entries \<longleftrightarrow> sorted_wrt (<) (map se_id entries)"

definition start_index :: "RecordIdentifier Range \<Rightarrow> SignedEntry list \<Rightarrow> nat" where
  "start_index r vals = length (takeWhile (\<lambda>e. \<not> range_x r \<le> se_id e) vals)"

definition pivot_of :: "SyncConfig \<Rightarrow> RecordIdentifier Range \<Rightarrow> SignedEntry list \<Rightarrow> nat \<Rightarrow> RecordIdentifier" where
  "pivot_of config r vals i =
     se_id (vals ! ((start_index r vals + (length vals * (i mod split_factor config + 1)) div split_factor config)
       mod length vals))"

definition pivot_pairs :: "SyncConfig \<Rightarrow> RecordIdentifier Range \<Rightarrow> SignedEntry list \<Rightarrow> nat list \<Rightarrow> RecordIdentifier Range list" where
  "pivot_pairs config r vals is =
     concat (map (\<lambda>i. if pivot_of config r vals i \<noteq> pivot_of config r vals (i + 1)
        then [Range (pivot_of config r vals i) (pivot_of config r vals (i + 1))] else []) is)"

definition split_of :: "SyncConfig \<Rightarrow> RecordIdentifier Range \<Rightarrow> SignedEntry list \<Rightarrow> RecordIdentifier Range list" where
  "split_of config r vals =
     (if is_all r then pivot_pairs config r vals [0..<split_factor config]
      else Range (range_x r) (pivot_of config r vals 0) # pivot_pairs config r vals [0..<split_factor config - 2] @
        [Range (pivot_of config r vals (split_factor config - 2)) (range_y r)])"

definition chunk_of ::
    "'x store_crypto_scheme \<Rightarrow> SyncConfig \<Rightarrow> content_status_cb \<Rightarrow> SignedEntry list \<Rightarrow> RecordIdentifier Range \<Rightarrow> MessagePart" where
  "chunk_of c config status V r =
     (if max_set_size config < length (entries_in r V) then RangeFingerprint r (fingerprint_of c (entries_in r V))
      else RangeItem r (with_status status (entries_in r V)) False)"

fun respond ::
    "'x store_crypto_scheme \<Rightarrow> SyncConfig \<Rightarrow> content_status_cb \<Rightarrow> SignedEntry list \<Rightarrow> MessagePart \<Rightarrow> MessagePart list" where
  "respond c config status V (RangeItem r vs have_local) =
     (let diff = filter (not_covered vs) (entries_in r V)
      in if have_local \<or> diff = [] then [] else [RangeItem r (with_status status diff) True])"
| "respond c config status V (RangeFingerprint r fp) =
     (let vals = entries_in r V
      in if fingerprint_of c vals = fp then []
         else if length vals \<le> 1 \<or> fp = fingerprint_empty c then [RangeItem r (with_status status vals) False]
         else map (chunk_of c config status V) (split_of config r vals))"

subsection \<open>Ranges on the circle of identifiers\<close>

lemma range_split:
  assumes "range_contains (Range x y) p" "p \<noteq> x" "x \<noteq> y"
  shows "range_contains (Range x y) t \<longleftrightarrow> range_contains (Range x p) t \<or> range_contains (Range p y) t"
    and "p \<noteq> y"
  using assms by (auto split: if_splits)

lemma range_both: "p \<noteq> q \<Longrightarrow> range_contains (Range p q) t \<or> range_contains (Range q p) t"
  by auto

lemma range_disjoint:
  assumes "p \<noteq> q" "range_contains (Range p q) t"
  shows "\<not> range_contains (Range q p) t"
  using assms by (auto split: if_splits)

lemma range_disjoint_split:
  assumes "range_contains (Range x y) p" "p \<noteq> x" "x \<noteq> y" "range_contains (Range x p) t"
  shows "\<not> range_contains (Range p y) t"
  using assms by (auto split: if_splits)

lemma range_own_start: "x \<noteq> y \<Longrightarrow> range_contains (Range x y) x"
  by auto

lemma entries_in_sub:
  assumes "\<And>t. range_contains r t \<Longrightarrow> range_contains r' t"
  shows "entries_in r (entries_in r' V) = entries_in r V" "length (entries_in r V) \<le> length (entries_in r' V)"
proof -
  show *: "entries_in r (entries_in r' V) = entries_in r V"
    using assms by (auto simp: entries_in_def intro!: filter_cong)
  show "length (entries_in r V) \<le> length (entries_in r' V)"
    unfolding * [symmetric] by (subst entries_in_def) (rule length_filter_le)
qed

lemma ordered_entries_in: "ordered V \<Longrightarrow> ordered (entries_in r V)"
  unfolding ordered_def entries_in_def by (induction V) auto

lemma ordered_nth_less: "ordered V \<Longrightarrow> i < j \<Longrightarrow> j < length V \<Longrightarrow> se_id (V ! i) < se_id (V ! j)"
  unfolding ordered_def using sorted_wrt_nth_less [of "(<)" "map se_id V" i j] by simp

lemma ordered_nth_eq:
  "ordered V \<Longrightarrow> i < length V \<Longrightarrow> j < length V \<Longrightarrow> se_id (V ! i) = se_id (V ! j) \<longleftrightarrow> i = j"
  using ordered_nth_less [of V i j] ordered_nth_less [of V j i] by (cases i j rule: linorder_cases) auto

subsection \<open>The two pivots\<close>

lemma start_index_le: "start_index r vals \<le> length vals"
  unfolding start_index_def by (rule length_takeWhile_le)

lemma start_index_below: "i < start_index r vals \<Longrightarrow> se_id (vals ! i) < range_x r"
  unfolding start_index_def by (metis nth_mem set_takeWhileD takeWhile_nth not_le)

lemma start_index_at: "start_index r vals < length vals \<Longrightarrow> range_x r \<le> se_id (vals ! start_index r vals)"
  unfolding start_index_def using nth_length_takeWhile by blast

lemma start_index_from:
  assumes "ordered vals" "start_index r vals \<le> i" "i < length vals"
  shows "range_x r \<le> se_id (vals ! i)"
proof (cases "i = start_index r vals")
  case True
  then show ?thesis using start_index_at assms(3) by simp
next
  case False
  then have "se_id (vals ! start_index r vals) < se_id (vals ! i)"
    using assms ordered_nth_less by simp
  then show ?thesis using start_index_at [of r vals] assms by (meson le_less_trans less_imp_le)
qed

text \<open>
  The pivot of the default configuration's split is the entry half the circle after the first one at or
  after the range's start: another entry, so both halves hold one.
\<close>

definition half_index :: "RecordIdentifier Range \<Rightarrow> SignedEntry list \<Rightarrow> nat" where
  "half_index r vals = (start_index r vals + length vals div 2) mod length vals"

definition first_index :: "RecordIdentifier Range \<Rightarrow> SignedEntry list \<Rightarrow> nat" where
  "first_index r vals = start_index r vals mod length vals"

lemma pivot_default:
  "pivot_of default_config r vals 0 = se_id (vals ! half_index r vals)"
  "pivot_of default_config r vals (Suc 0) = se_id (vals ! first_index r vals)"
  "pivot_of default_config r vals 2 = se_id (vals ! half_index r vals)"
  by (simp_all add: pivot_of_def default_config_def half_index_def first_index_def numeral_2_eq_2 [symmetric])

lemma split_default:
  "split_of default_config r vals =
     (let p = se_id (vals ! half_index r vals); q = se_id (vals ! first_index r vals)
      in if is_all r then (if p \<noteq> q then [Range p q, Range q p] else [])
         else [Range (range_x r) p, Range p (range_y r)])"
proof -
  have two: "[0..<split_factor default_config] = [0, 1]" "[0..<split_factor default_config - 2] = []"
    "split_factor default_config - 2 = 0"
    by (simp_all add: default_config_def upt_rec numeral_2_eq_2)
  show ?thesis
    unfolding split_of_def pivot_pairs_def two
    using pivot_default [of r vals] by (auto simp: Let_def numeral_2_eq_2)
qed

lemma half_first_differ:
  assumes "2 \<le> length vals"
  shows "half_index r vals \<noteq> first_index r vals"
proof
  let ?n = "length vals"
  assume "half_index r vals = first_index r vals"
  then have "(start_index r vals + ?n div 2) mod ?n = start_index r vals mod ?n"
    by (simp add: half_index_def first_index_def)
  then have "?n dvd ?n div 2" using mod_eq_dvd_iff_nat [of "start_index r vals" "start_index r vals + ?n div 2" ?n] by simp
  moreover have "0 < ?n div 2" "?n div 2 < ?n" using assms by auto
  ultimately show False using dvd_imp_le by fastforce
qed

lemma index_bounds:
  assumes "2 \<le> length vals"
  shows "half_index r vals < length vals" "first_index r vals < length vals"
  unfolding half_index_def first_index_def using assms by (auto intro!: mod_less_divisor)

lemma first_before_half:
  fixes r vals
  assumes "ordered vals" "2 \<le> length vals"
  defines "p \<equiv> se_id (vals ! half_index r vals)" and "q \<equiv> se_id (vals ! first_index r vals)"
  shows "p \<noteq> range_x r" "range_contains (Range (range_x r) p) q"
proof -
  let ?n = "length vals" and ?s = "start_index r vals"
  have h: "half_index r vals < ?n" using assms(2) by (rule index_bounds)
  have "p \<noteq> range_x r \<and> range_contains (Range (range_x r) p) q"
  proof (cases "?s < ?n")
    case True
    then have f: "first_index r vals = ?s" by (simp add: first_index_def)
    then have x: "range_x r \<le> q" using start_index_at True by (simp add: q_def)
    have "half_index r vals \<noteq> ?s" using half_first_differ [OF assms(2), of r] f by simp
    then consider "?s < half_index r vals" | "half_index r vals < ?s" by linarith
    then show ?thesis
    proof cases
      case 1
      then have "q < p" using ordered_nth_less [OF assms(1) _ h] f by (simp add: p_def q_def)
      then show ?thesis using x by auto
    next
      case 2
      then have "p < range_x r" using start_index_below by (simp add: p_def)
      then show ?thesis using x by auto
    qed
  next
    case False
    then have s: "?s = ?n" using start_index_le [of r vals] by simp
    have "?n div 2 < ?n" using assms(2) by auto
    then have i: "first_index r vals = 0" "half_index r vals = ?n div 2"
      using s by (simp_all add: first_index_def half_index_def)
    have "p < range_x r" using start_index_below [of "half_index r vals" r vals] h s by (simp add: p_def)
    moreover have "q < p" using ordered_nth_less [OF assms(1), of 0 "?n div 2"] assms(2) i h by (simp add: p_def q_def)
    ultimately show ?thesis by auto
  qed
  then show "p \<noteq> range_x r" "range_contains (Range (range_x r) p) q" by auto
qed

text \<open>One of two ranges that share the entries of a range holds fewer of them.\<close>

lemma fewer_in_half:
  assumes "\<And>t. range_contains r' t \<Longrightarrow> range_contains r t" "e \<in> set (entries_in r V)" "\<not> range_contains r' (se_id e)"
  shows "length (entries_in r' V) < length (entries_in r V)"
proof -
  have "length (entries_in r' (entries_in r V)) < length (entries_in r V)"
    using length_filter_less [where P = "\<lambda>e. range_contains r' (se_id e)", OF assms(2,3)]
    by (subst entries_in_def) simp
  then show ?thesis using entries_in_sub(1) [of r' r V] assms(1) by simp
qed

definition boundaries :: "RecordIdentifier Range \<Rightarrow> RecordIdentifier set" where
  "boundaries r = (if is_all r then {} else {range_x r, range_y r})"

lemma split_two:
  assumes "ordered V" "2 \<le> length (entries_in r V)"
  obtains r1 r2 p q where "split_of default_config r (entries_in r V) = [r1, r2]"
    "\<And>t. range_contains r t \<longleftrightarrow> range_contains r1 t \<or> range_contains r2 t"
    "p \<in> set (entries_in r V)" "range_contains r1 (se_id p)" "\<not> range_contains r2 (se_id p)"
    "q \<in> set (entries_in r V)" "range_contains r2 (se_id q)" "\<not> range_contains r1 (se_id q)"
    "boundaries r1 \<union> boundaries r2 \<subseteq> boundaries r \<union> se_id ` set V"
proof -
  let ?vals = "entries_in r V"
  define ep eq where "ep = ?vals ! half_index r ?vals" and "eq = ?vals ! first_index r ?vals"
  have o: "ordered ?vals" using assms(1) by (rule ordered_entries_in)
  have i: "half_index r ?vals < length ?vals" "first_index r ?vals < length ?vals"
    using index_bounds [OF assms(2)] by blast+
  have e: "ep \<in> set ?vals" "eq \<in> set ?vals" using i by (simp_all add: ep_def eq_def)
  then have V: "ep \<in> set V" "eq \<in> set V" "range_contains r (se_id ep)" by (auto simp: entries_in_def)
  have pq: "se_id ep \<noteq> se_id eq"
    using half_first_differ [OF assms(2), of r] ordered_nth_eq [OF o i] by (simp add: ep_def eq_def)
  show thesis
  proof (cases "is_all r")
    case True
    have "split_of default_config r ?vals = [Range (se_id ep) (se_id eq), Range (se_id eq) (se_id ep)]"
      using True pq by (simp add: split_default Let_def ep_def eq_def)
    moreover have "range_contains r t" for t using True by (cases r) (simp add: is_all_def)
    ultimately show ?thesis
      using pq e V range_both [OF pq] range_own_start [OF pq] range_own_start [OF pq [symmetric]]
        range_disjoint [OF pq] range_disjoint [OF pq [symmetric]]
      by (intro that [of "Range (se_id ep) (se_id eq)" "Range (se_id eq) (se_id ep)" ep eq])
        (auto simp: boundaries_def simp del: range_contains.simps)
  next
    case False
    let ?x = "range_x r" and ?y = "range_y r"
    have xy: "?x \<noteq> ?y" using False by (simp add: is_all_def)
    have r: "r = Range ?x ?y" by simp
    have x: "se_id ep \<noteq> ?x" "range_contains (Range ?x (se_id ep)) (se_id eq)"
      using first_before_half [OF o assms(2), of r] by (simp_all add: ep_def eq_def)
    have in_r: "range_contains (Range ?x ?y) (se_id ep)" using V(3) r by metis
    note cut = range_split [OF in_r x(1) xy] and apart = range_disjoint_split [OF in_r x(1) xy]
    have own: "range_contains (Range (se_id ep) ?y) (se_id ep)" using cut(2) by (rule range_own_start)
    have "split_of default_config r ?vals = [Range ?x (se_id ep), Range (se_id ep) ?y]"
      using False by (simp add: split_default Let_def ep_def)
    then show ?thesis
      using e V x own cut(1) apart False
      by (intro that [of "Range ?x (se_id ep)" "Range (se_id ep) ?y" eq ep])
        (auto simp: boundaries_def r [symmetric] simp del: range_contains.simps)
  qed
qed

lemma split_partition:
  assumes "ordered V" "2 \<le> length (entries_in r V)"
  shows "range_contains r t \<longleftrightarrow> (\<exists>r'\<in>set (split_of default_config r (entries_in r V)). range_contains r' t)"
    and "r' \<in> set (split_of default_config r (entries_in r V)) \<Longrightarrow>
      length (entries_in r' V) < length (entries_in r V) \<and> entries_in r' V \<noteq> [] \<and>
      boundaries r' \<subseteq> boundaries r \<union> se_id ` set V"
proof -
  obtain r1 r2 p q where s: "split_of default_config r (entries_in r V) = [r1, r2]"
    and cover: "\<And>t. range_contains r t \<longleftrightarrow> range_contains r1 t \<or> range_contains r2 t"
    and p: "p \<in> set (entries_in r V)" "range_contains r1 (se_id p)" "\<not> range_contains r2 (se_id p)"
    and q: "q \<in> set (entries_in r V)" "range_contains r2 (se_id q)" "\<not> range_contains r1 (se_id q)"
    and b: "boundaries r1 \<union> boundaries r2 \<subseteq> boundaries r \<union> se_id ` set V"
    using split_two [OF assms] by blast
  show "range_contains r t \<longleftrightarrow> (\<exists>r'\<in>set (split_of default_config r (entries_in r V)). range_contains r' t)"
    using s cover by simp
  have "length (entries_in r1 V) < length (entries_in r V)" "length (entries_in r2 V) < length (entries_in r V)"
    using fewer_in_half [of r1 r q V] fewer_in_half [of r2 r p V] cover p q by blast+
  moreover have "entries_in r1 V \<noteq> []" "entries_in r2 V \<noteq> []"
    using p q by (auto simp: entries_in_def filter_empty_conv)
  ultimately show "r' \<in> set (split_of default_config r (entries_in r V)) \<Longrightarrow>
      length (entries_in r' V) < length (entries_in r V) \<and> entries_in r' V \<noteq> [] \<and>
      boundaries r' \<subseteq> boundaries r \<union> se_id ` set V"
    using s b by auto
qed

end
