(* ===== verification/Ranger_Exchange.thy ===== *)
theory Ranger_Exchange
  imports Ranger_Split
begin

text \<open>
  A whole exchange of two sessions, each reading the frozen list of entries its side serves: which parts
  are sent, that every part is smaller than the one it answers, that only entries served are sent, and
  that every entry the other side lacks is delivered.
\<close>

declare split_paired_All [simp del] split_paired_Ex [simp del]

subsection \<open>The parts sent\<close>

datatype Side = Dialer | Acceptor

primrec other_side :: "Side \<Rightarrow> Side" where
  "other_side Dialer = Acceptor"
| "other_side Acceptor = Dialer"

lemma other_other [simp]: "other_side (other_side s) = s" "other_side s \<noteq> s" "s \<noteq> other_side s"
  by (cases s; simp)+

lemma side_eq: "t = s \<or> t = other_side s"
  by (cases s; cases t) simp_all

definition first_id :: "SignedEntry list \<Rightarrow> RecordIdentifier" where
  "first_id V = (case V of [] \<Rightarrow> rid_default | e # es \<Rightarrow> se_id e)"

definition opening_part :: "'x store_crypto_scheme \<Rightarrow> SignedEntry list \<Rightarrow> MessagePart" where
  "opening_part c V = RangeFingerprint (Range (first_id V) (first_id V)) (fingerprint_of c V)"

text \<open>\<open>reaches c status V s p\<close>: part \<open>p\<close> reaches side \<open>s\<close> in the exchange the dialer opens.\<close>

inductive reaches ::
    "'x store_crypto_scheme \<Rightarrow> (Side \<Rightarrow> content_status_cb) \<Rightarrow> (Side \<Rightarrow> SignedEntry list) \<Rightarrow> Side \<Rightarrow> MessagePart \<Rightarrow> bool"
  for c status V where
    opened: "reaches c status V Acceptor (opening_part c (V Dialer))"
  | answered: "reaches c status V s p \<Longrightarrow> q \<in> set (respond c default_config (status s) (V s) p) \<Longrightarrow>
      reaches c status V (other_side s) q"

definition delivered ::
    "'x store_crypto_scheme \<Rightarrow> (Side \<Rightarrow> content_status_cb) \<Rightarrow> (Side \<Rightarrow> SignedEntry list) \<Rightarrow> Side \<Rightarrow> SignedEntry \<Rightarrow> bool" where
  "delivered c status V s e \<longleftrightarrow>
     (\<exists>r vs have_local. reaches c status V s (RangeItem r vs have_local) \<and> e \<in> fst ` set vs)"

definition covered_by :: "SignedEntry list \<Rightarrow> SignedEntry \<Rightarrow> bool" where
  "covered_by W e \<longleftrightarrow> (\<exists>e'\<in>set W. se_id e' = se_id e \<and> se_rank e \<le> se_rank e')"

text \<open>
  What the exchange relies on of the hash: two views of a range with one fingerprint hold, for every entry
  of one, an entry of the other at the same identifier that is not older; and no view that holds an entry
  a peer would have to send has the fingerprint of an empty one.
\<close>

definition fingerprints_tell ::
    "'x store_crypto_scheme \<Rightarrow> SignedEntry list \<Rightarrow> SignedEntry list \<Rightarrow> bool" where
  "fingerprints_tell c A B \<longleftrightarrow>
     (\<forall>r. fingerprint_of c (entries_in r A) = fingerprint_of c (entries_in r B) \<longrightarrow>
        (\<forall>e\<in>set (entries_in r A). covered_by B e) \<and> (\<forall>e\<in>set (entries_in r B). covered_by A e))"

lemma fingerprints_tell_sym: "fingerprints_tell c A B \<Longrightarrow> fingerprints_tell c B A"
  unfolding fingerprints_tell_def by metis

subsection \<open>Every answer is smaller\<close>

fun part_size :: "(Side \<Rightarrow> SignedEntry list) \<Rightarrow> MessagePart \<Rightarrow> nat" where
  "part_size V (RangeFingerprint r fp) =
     length (entries_in r (V Dialer)) + length (entries_in r (V Acceptor)) + 2"
| "part_size V (RangeItem r vs have_local) = (if have_local then 0 else 1)"

lemma respond_smaller:
  assumes "\<And>s. ordered (V s)" "q \<in> set (respond c default_config (status s) (V s) p)"
  shows "part_size V q < part_size V p"
proof (cases p)
  case (RangeItem r vs have_local)
  then show ?thesis using assms(2) by (auto simp: Let_def split: if_splits)
next
  case (RangeFingerprint r fp)
  note p = this
  show ?thesis
  proof (cases "length (entries_in r (V s)) \<le> 1 \<or> fp = fingerprint_empty c")
    case True
    then show ?thesis using p assms(2) by (auto simp: Let_def split: if_splits)
  next
    case False
    then have two: "2 \<le> length (entries_in r (V s))" by simp
    then obtain r' where r': "r' \<in> set (split_of default_config r (entries_in r (V s)))"
      and q: "q = chunk_of c default_config (status s) (V s) r'"
      using p assms(2) False by (auto simp: Let_def split: if_splits)
    have less: "length (entries_in r' (V s)) < length (entries_in r (V s))"
      using split_partition(2) [OF assms(1) two r'] by blast
    have "\<And>t. range_contains r' t \<Longrightarrow> range_contains r t"
      using split_partition(1) [OF assms(1) two] r' by blast
    then have le: "length (entries_in r' (V t)) \<le> length (entries_in r (V t))" for t
      using entries_in_sub(2) by blast
    show ?thesis using p q less le [of Dialer] le [of Acceptor] by (cases s) (auto simp: chunk_of_def)
  qed
qed

subsection \<open>What the parts hold\<close>

lemma fst_with_status [simp]: "fst ` set (with_status status es) = set es" "map fst (with_status status es) = es"
  by (auto simp: with_status_def image_image comp_def)

lemma entries_in_all [simp]: "is_all r \<Longrightarrow> entries_in r V = V"
  by (cases r) (auto simp: is_all_def entries_in_def)

lemma respond_fingerprint:
  assumes "q \<in> set (respond c config status V (RangeFingerprint r fp))"
  obtains "q = RangeItem r (with_status status (entries_in r V)) False"
    | r' where "r' \<in> set (split_of config r (entries_in r V))" "q = chunk_of c config status V r'"
  using assms by (fastforce simp: Let_def split: if_split_asm)

lemma chunk_fingerprint: "chunk_of c config status V r = RangeFingerprint r' fp \<Longrightarrow> fp = fingerprint_of c (entries_in r' V)"
  by (simp add: chunk_of_def split: if_split_asm) metis

lemma chunk_item: "chunk_of c config status V r = RangeItem r' vs have_local \<Longrightarrow>
    vs = with_status status (entries_in r' V) \<and> \<not> have_local"
  by (simp add: chunk_of_def split: if_split_asm) metis

lemma respond_item:
  assumes "q \<in> set (respond c config status V (RangeItem r vs have_local))"
  shows "q = RangeItem r (with_status status (filter (not_covered vs) (entries_in r V))) True"
  using assms by (simp add: Let_def split: if_split_asm)

lemma answer_fingerprint:
  assumes "RangeFingerprint r fp \<in> set (respond c config status V p)"
  shows "fp = fingerprint_of c (entries_in r V)"
proof (cases p)
  case (RangeItem r1 vs have_local)
  then show ?thesis using respond_item assms by blast
next
  case (RangeFingerprint r1 fp1)
  show ?thesis using assms unfolding RangeFingerprint
    by (rule respond_fingerprint) (simp, metis chunk_fingerprint)
qed

lemma answer_item:
  assumes "RangeItem r vs have_local \<in> set (respond c config status V p)"
  shows "fst ` set vs \<subseteq> set (entries_in r V)" "\<not> have_local \<Longrightarrow> vs = with_status status (entries_in r V)"
proof -
  have "fst ` set vs \<subseteq> set (entries_in r V) \<and> (\<not> have_local \<longrightarrow> vs = with_status status (entries_in r V))"
  proof (cases p)
    case (RangeItem r1 vs1 have_local1)
    then have "RangeItem r vs have_local = RangeItem r1 (with_status status (filter (not_covered vs1) (entries_in r1 V))) True"
      using respond_item assms by blast
    then show ?thesis by auto
  next
    case (RangeFingerprint r1 fp1)
    show ?thesis using assms unfolding RangeFingerprint
      by (rule respond_fingerprint) (simp, metis chunk_item fst_with_status(1) order_refl)
  qed
  then show "fst ` set vs \<subseteq> set (entries_in r V)" "\<not> have_local \<Longrightarrow> vs = with_status status (entries_in r V)"
    by blast+
qed

lemma reaches_cases:
  assumes "reaches c status V s p"
  shows "s = Acceptor \<and> p = opening_part c (V Dialer) \<or>
    (\<exists>q. p \<in> set (respond c default_config (status (other_side s)) (V (other_side s)) q))"
  using assms by cases (simp, metis other_other(1))

lemma reaches_fingerprint:
  assumes "reaches c status V s (RangeFingerprint r fp)"
  shows "fp = fingerprint_of c (entries_in r (V (other_side s)))"
  using reaches_cases [OF assms]
proof
  assume "s = Acceptor \<and> RangeFingerprint r fp = opening_part c (V Dialer)"
  then show ?thesis by (simp add: opening_part_def is_all_def)
qed (use answer_fingerprint in blast)

lemma reaches_item:
  assumes "reaches c status V s (RangeItem r vs have_local)"
  shows "fst ` set vs \<subseteq> set (entries_in r (V (other_side s)))"
    "\<not> have_local \<Longrightarrow> vs = with_status (status (other_side s)) (entries_in r (V (other_side s)))"
proof -
  obtain q where q: "RangeItem r vs have_local \<in> set (respond c default_config (status (other_side s)) (V (other_side s)) q)"
    using reaches_cases [OF assms] by (auto simp: opening_part_def)
  show "fst ` set vs \<subseteq> set (entries_in r (V (other_side s)))"
    "\<not> have_local \<Longrightarrow> vs = with_status (status (other_side s)) (entries_in r (V (other_side s)))"
    using answer_item [OF q] .
qed

subsection \<open>Delivery\<close>

lemma item_delivers:
  assumes item: "reaches c status V s (RangeItem r vs False)" and "range_contains r (se_id e)"
    and e: "e \<in> set (V (other_side t))" "\<not> covered_by (V t) e"
  shows "delivered c status V t e"
proof -
  have vs: "vs = with_status (status (other_side s)) (entries_in r (V (other_side s)))"
    using reaches_item(2) [OF item] by simp
  consider "t = s" | "t = other_side s" using side_eq by blast
  then show ?thesis
  proof cases
    case 1
    then have "e \<in> fst ` set vs" using e assms(2) by (simp add: vs entries_in_def)
    then show ?thesis using item 1 unfolding delivered_def by blast
  next
    case 2
    let ?diff = "filter (not_covered vs) (entries_in r (V s))"
    have "not_covered vs e"
      using e(2) 2 by (auto simp: not_covered_def covered_by_def vs with_status_def entries_in_def)
    then have diff: "e \<in> set ?diff" using e(1) 2 assms(2) by (simp add: entries_in_def)
    then have "?diff \<noteq> []" by (metis empty_iff list.set(1))
    then have "RangeItem r (with_status (status s) ?diff) True \<in> set (respond c default_config (status s) (V s) (RangeItem r vs False))"
      by (simp only: respond.simps Let_def) simp
    then have "reaches c status V t (RangeItem r (with_status (status s) ?diff) True)"
      using answered [OF item] 2 by blast
    moreover have "e \<in> fst ` set (with_status (status s) ?diff)" using diff by (simp only: fst_with_status)
    ultimately show ?thesis unfolding delivered_def by blast
  qed
qed

lemma fingerprint_delivers:
  assumes "\<And>s. ordered (V s)" and tell: "fingerprints_tell c (V Dialer) (V Acceptor)"
    and "reaches c status V s (RangeFingerprint r fp)" "range_contains r (se_id e)"
    and e: "e \<in> set (V (other_side t))" "\<not> covered_by (V t) e"
  shows "delivered c status V t e"
  using assms(3,4)
proof (induction "part_size V (RangeFingerprint r fp)" arbitrary: r fp s rule: less_induct)
  case less
  let ?vals = "entries_in r (V s)"
  have tells: "fingerprints_tell c (V s) (V (other_side s))"
    using tell fingerprints_tell_sym by (cases s) auto
  have fp: "fp = fingerprint_of c (entries_in r (V (other_side s)))"
    using reaches_fingerprint [OF less.prems(1)] .
  have in_e: "e \<in> set (entries_in r (V (other_side t)))" using e(1) less.prems(2) by (simp add: entries_in_def)
  have differ: "fingerprint_of c ?vals \<noteq> fp"
  proof
    assume "fingerprint_of c ?vals = fp"
    then have "covered_by (V t) e"
      using tells in_e side_eq [of t s] fp unfolding fingerprints_tell_def by auto
    then show False using e(2) by simp
  qed
  show ?case
  proof (cases "length ?vals \<le> 1 \<or> fp = fingerprint_empty c")
    case True
    then have "RangeItem r (with_status (status s) ?vals) False \<in> set (respond c default_config (status s) (V s) (RangeFingerprint r fp))"
      using differ by (simp add: Let_def)
    then have "reaches c status V (other_side s) (RangeItem r (with_status (status s) ?vals) False)"
      using answered [OF less.prems(1)] by blast
    then show ?thesis using item_delivers less.prems(2) e by blast
  next
    case False
    then have two: "2 \<le> length ?vals" by simp
    obtain r' where r': "r' \<in> set (split_of default_config r ?vals)" "range_contains r' (se_id e)"
      using split_partition(1) [OF assms(1) two] less.prems(2) by blast
    let ?q = "chunk_of c default_config (status s) (V s) r'"
    have q: "?q \<in> set (respond c default_config (status s) (V s) (RangeFingerprint r fp))"
      using differ False r'(1) by (simp add: Let_def)
    note sent = answered [OF less.prems(1) q]
    show ?thesis
    proof (cases ?q)
      case (RangeItem r1 vs have_local)
      then show ?thesis using sent item_delivers [of c status V "other_side s" r1 vs e t] r'(2) e
        by (auto simp: chunk_of_def split: if_splits)
    next
      case (RangeFingerprint r1 fp1)
      then have r1: "range_contains r1 (se_id e)" using r'(2) by (auto simp: chunk_of_def split: if_splits)
      have "part_size V (RangeFingerprint r1 fp1) < part_size V (RangeFingerprint r fp)"
        using respond_smaller [of V "chunk_of c default_config (status s) (V s) r'" c status s, OF assms(1) q] RangeFingerprint by (simp only:)
      moreover have "reaches c status V (other_side s) (RangeFingerprint r1 fp1)"
        using sent RangeFingerprint by (simp only:)
      ultimately show ?thesis using r1 by (rule less.hyps)
    qed
  qed
qed

end
