(* ===== verification/Ranger_Session.thy ===== *)
theory Ranger_Session
  imports Ranger_Exchange
begin

text \<open>
  The contract of the store a sync session works on, and what the message processing of
  \<^verbatim>\<open>crates/pdn-store/src/ranger.rs\<close> does on any store that keeps it: the answers depend on the entries the
  session serves alone, and the entries the peer sent and the session accepted are held afterwards.
\<close>

declare split_paired_All [simp del] split_paired_Ex [simp del]

subsection \<open>Entries taken over\<close>

type_synonym held = "RecordIdentifier \<Rightarrow> SignedEntry option"

definition holds_newer :: "held \<Rightarrow> SignedEntry \<Rightarrow> bool" where
  "holds_newer h e \<longleftrightarrow> (\<exists>p. h (se_id e) = Some p \<and> se_rank e \<le> se_rank p)"

definition take_over :: "SignedEntry \<Rightarrow> held \<Rightarrow> held" where
  "take_over e h = (if holds_newer h e then h else h(se_id e \<mapsto> e))"

definition absorb :: "validate_cb \<Rightarrow> (SignedEntry \<times> ContentStatus) list \<Rightarrow> held \<Rightarrow> held" where
  "absorb validate vs = fold take_over (map fst (filter (\<lambda>v. validate (fst v) (snd v) = Accept) vs))"

definition answers ::
    "'x store_crypto_scheme \<Rightarrow> content_status_cb \<Rightarrow> SignedEntry list \<Rightarrow> Message \<Rightarrow> Message" where
  "answers c status V m =
     concat (map (respond c default_config status V) (filter is_item m @ filter (\<lambda>part. \<not> is_item part) m))"

lemma absorb_simps [simp]:
  "absorb validate [] h = h"
  "absorb validate (v # vs) h =
     absorb validate vs (if validate (fst v) (snd v) = Accept then take_over (fst v) h else h)"
  "absorb validate (us @ vs) h = absorb validate vs (absorb validate us h)"
  by (simp_all add: absorb_def)

lemma take_over_newer: "holds_newer (take_over e h) e"
  by (auto simp: take_over_def holds_newer_def)

lemma take_over_keeps: "holds_newer h e' \<Longrightarrow> holds_newer (take_over e h) e'"
  unfolding take_over_def holds_newer_def by (cases "se_id e' = se_id e") (auto dest: order_trans)

lemma absorb_keeps: "holds_newer h e \<Longrightarrow> holds_newer (absorb validate vs h) e"
  by (induction vs arbitrary: h) (auto intro: take_over_keeps)

lemma absorb_newer:
  assumes "v \<in> set vs" "validate (fst v) (snd v) = Accept"
  shows "holds_newer (absorb validate vs h) (fst v)"
  using assms by (induction vs arbitrary: h) (auto intro: absorb_keeps take_over_newer)

lemma absorb_from:
  "absorb validate vs h k = Some e \<Longrightarrow>
     h k = Some e \<or> (\<exists>v\<in>set vs. fst v = e \<and> validate (fst v) (snd v) = Accept)"
proof (induction vs arbitrary: h)
  case (Cons v vs)
  then show ?case by (fastforce simp: take_over_def split: if_splits)
qed simp

lemma each_reads:
  "(\<And>a. a \<in> set as \<Longrightarrow> f a s = (Inr (g a), s)) \<Longrightarrow> each f as s = (Inr (concat (map g as)), s)"
  by (induction as) (simp_all add: bind_def ret_def bind_def)

text \<open>A part whose boundaries are the session's own, as every part of an honest exchange.\<close>

fun part_range :: "MessagePart \<Rightarrow> RecordIdentifier Range" where
  "part_range (RangeFingerprint r fp) = r"
| "part_range (RangeItem r vs have_local) = r"

fun values_of :: "MessagePart \<Rightarrow> (SignedEntry \<times> ContentStatus) list" where
  "values_of (RangeFingerprint r fp) = []"
| "values_of (RangeItem r vs have_local) = vs"

definition only_own :: "(RecordIdentifier \<Rightarrow> bool) \<Rightarrow> validate_cb \<Rightarrow> bool" where
  "only_own mine validate \<longleftrightarrow> (\<forall>e status. validate e status = Accept \<longrightarrow> mine (se_id e))"

lemma only_ownD: "only_own mine validate \<Longrightarrow> validate e status = Accept \<Longrightarrow> mine (se_id e)"
  unfolding only_own_def by blast

text \<open>
  A part the session can answer: one with its own boundaries, or items that ask for nothing in return.
\<close>

fun readable :: "(RecordIdentifier \<Rightarrow> bool) \<Rightarrow> MessagePart \<Rightarrow> bool" where
  "readable mine (RangeFingerprint r fp) = Ball (boundaries r) mine"
| "readable mine (RangeItem r vs have_local) = (have_local \<or> Ball (boundaries r) mine)"

lemma readableI: "Ball (boundaries (part_range p)) mine \<Longrightarrow> readable mine p"
  by (cases p) simp_all

subsection \<open>The contract\<close>

locale session_store =
  fixes c :: "'x store_crypto_scheme"
    and st :: "('s, 'e) range_store"
    and inv :: "'s \<Rightarrow> bool"
    and view :: "'s \<Rightarrow> SignedEntry list"
    and held_in :: "'s \<Rightarrow> held"
    and mine :: "RecordIdentifier \<Rightarrow> bool"
    and foreign :: "'e RangerError"
  assumes view_ordered: "inv s \<Longrightarrow> ordered (view s)"
    and view_own: "inv s \<Longrightarrow> e \<in> set (view s) \<Longrightarrow> mine (se_id e)"
    and get_first: "inv s \<Longrightarrow> rs_get_first st s = (Inr (first_id (view s)), s)"
    and get_range: "inv s \<Longrightarrow> Ball (boundaries r) mine \<Longrightarrow> rs_get_range st r s = (Inr (entries_in r (view s)), s)"
    and get_fingerprint: "inv s \<Longrightarrow> Ball (boundaries r) mine \<Longrightarrow>
      rs_get_fingerprint st r s = (Inr (fingerprint_of c (entries_in r (view s))), s)"
    and foreign_range: "inv s \<Longrightarrow> \<not> Ball (boundaries r) mine \<Longrightarrow> rs_get_range st r s = (Inl foreign, s)"
    and foreign_fingerprint: "inv s \<Longrightarrow> \<not> Ball (boundaries r) mine \<Longrightarrow> rs_get_fingerprint st r s = (Inl foreign, s)"
    and entry_get: "inv s \<Longrightarrow> mine k \<Longrightarrow>
      \<exists>s'. rs_entry_get st k s = (Inr (held_in s k), s') \<and> inv s' \<and> view s' = view s \<and> held_in s' = held_in s"
    and entry_put: "inv s \<Longrightarrow> mine (se_id e) \<Longrightarrow>
      \<exists>s'. rs_entry_put st e s = (Inr (), s') \<and> inv s' \<and> view s' = view s \<and> held_in s' = (held_in s)(se_id e \<mapsto> e)"
begin

lemma initial: "inv s \<Longrightarrow> initial_message st s = (Inr [opening_part c (view s)], s)"
  using get_first get_fingerprint [of s "Range (first_id (view s)) (first_id (view s))"]
  by (simp add: initial_message_def bind_def ret_def opening_part_def boundaries_def is_all_def)

lemma put_takes_over:
  assumes "inv s" "mine (se_id e)"
  shows "\<exists>s' out. put st e s = (Inr out, s') \<and> inv s' \<and> view s' = view s \<and>
    held_in s' = take_over e (held_in s) \<and> out = (if holds_newer (held_in s) e then NotInserted else Inserted (if held_in s (se_id e) = None then 0 else 1))"
proof -
  obtain s1 where s1: "rs_entry_get st (se_id e) s = (Inr (held_in s (se_id e)), s1)" "inv s1" "view s1 = view s"
    "held_in s1 = held_in s"
    using entry_get [OF assms] by blast
  have newer: "(case held_in s (se_id e) of Some p \<Rightarrow> se_rank e \<le> se_rank p | None \<Rightarrow> False) = holds_newer (held_in s) e"
    by (auto simp: holds_newer_def split: option.split)
  obtain s2 where s2: "rs_entry_put st e s1 = (Inr (), s2)" "inv s2" "view s2 = view s1"
    "held_in s2 = (held_in s1)(se_id e \<mapsto> e)"
    using entry_put [OF s1(2) assms(2)] by blast
  show ?thesis
    using s1 s2 by (cases "holds_newer (held_in s) e") (simp_all add: put_def bind_def ret_def newer take_over_def)
qed

lemma store_values_absorbs:
  assumes "inv s" "only_own mine validate"
  shows "\<exists>s' log'. store_values st validate vs (s, log) = (Inr (), (s', log')) \<and> inv s' \<and> view s' = view s \<and>
    held_in s' = absorb validate vs (held_in s)"
  using assms(1)
proof (induction vs arbitrary: s log)
  case Nil
  then show ?case by (simp add: bind_def ret_def)
next
  case (Cons v vs)
  show ?case
  proof (cases "validate (fst v) (snd v)")
    case Drop
    then show ?thesis using Cons.IH [OF Cons.prems] by simp
  next
    case Accept
    obtain s1 out where s1: "put st (fst v) s = (Inr out, s1)" "inv s1" "view s1 = view s"
      "held_in s1 = take_over (fst v) (held_in s)"
      using put_takes_over [OF Cons.prems only_ownD [OF assms(2) Accept]] by blast
    let ?log = "if out = NotInserted then log else log @ [v]"
    obtain s' log' where "store_values st validate vs (s1, ?log) = (Inr (), (s', log'))" "inv s'" "view s' = view s1"
      "held_in s' = absorb validate vs (held_in s1)"
      using Cons.IH [OF s1(2)] by blast
    then show ?thesis using s1 Accept by (simp add: bind_def on_store_def)
  qed
qed

lemma pivot_reads:
  assumes "inv s" "Ball (boundaries r) mine" "entries_in r (view s) \<noteq> []"
  shows "pivot st config r (length (entries_in r (view s))) (start_index r (entries_in r (view s))) i s =
    (Inr (pivot_of config r (entries_in r (view s)) i), s)"
  using assms(3) by (simp add: pivot_def Let_def get_range [OF assms(1,2)] bind_def ret_def pivot_of_def)

lemma pivot_ranges_reads:
  assumes "inv s" "Ball (boundaries r) mine" "entries_in r (view s) \<noteq> []"
  shows "pivot_ranges st config r (length (entries_in r (view s))) (start_index r (entries_in r (view s))) is s =
    (Inr (pivot_pairs config r (entries_in r (view s)) is), s)"
  unfolding pivot_ranges_def pivot_pairs_def
  by (rule each_reads) (simp add: pivot_reads [OF assms] bind_def ret_def)

lemma split_range_reads:
  assumes "inv s" "Ball (boundaries r) mine" "entries_in r (view s) \<noteq> []"
  shows "split_range st config r (length (entries_in r (view s))) s = (Inr (split_of config r (entries_in r (view s))), s)"
  unfolding split_range_def
  by (simp add: bind_def get_range [OF assms(1,2)] Let_def start_index_def [symmetric] split_of_def
      pivot_ranges_reads [OF assms] pivot_reads [OF assms] ret_def del: entries_in_all)

lemma chunk_reads:
  assumes "inv s" "Ball (boundaries r) mine"
  shows "chunk_part st config status r s = (Inr [chunk_of c config status (view s) r], s)"
  by (simp add: chunk_part_def get_range [OF assms] get_fingerprint [OF assms]
      bind_def ret_def chunk_of_def)

lemma fingerprint_answered:
  assumes "inv s" "Ball (boundaries r) mine"
  shows "process_fingerprint c st default_config status r fp s =
    (Inr (respond c default_config status (view s) (RangeFingerprint r fp)), s)"
proof -
  let ?vals = "entries_in r (view s)"
  have len: "get_range_len st r s = (Inr (length ?vals), s)"
    by (simp add: get_range_len_def get_range [OF assms] bind_def ret_def)
  show ?thesis
  proof (cases "fingerprint_of c ?vals = fp \<or> length ?vals \<le> 1 \<or> fp = fingerprint_empty c")
    case True
    then show ?thesis
      by (auto simp: process_fingerprint_def get_fingerprint [OF assms] len
          get_range [OF assms] bind_def ret_def Let_def)
  next
    case False
    then have two: "2 \<le> length ?vals" by simp
    then have ne: "?vals \<noteq> []" by auto
    have "each (chunk_part st default_config status) (split_of default_config r ?vals) s =
        (Inr (concat (map (\<lambda>r. [chunk_of c default_config status (view s) r]) (split_of default_config r ?vals))), s)"
    proof (rule each_reads, rule chunk_reads [OF assms(1)])
      fix r' assume "r' \<in> set (split_of default_config r ?vals)"
      then have "boundaries r' \<subseteq> boundaries r \<union> se_id ` set (view s)"
        using split_partition(2) [OF view_ordered [OF assms(1)] two] by blast
      then show "Ball (boundaries r') mine" using assms(2) view_own [OF assms(1)] by blast
    qed
    moreover have "concat (map (\<lambda>r. [f r]) rs) = map f rs" for f :: "RecordIdentifier Range \<Rightarrow> MessagePart" and rs
      by (induction rs) auto
    ultimately show ?thesis using False
      by (simp add: process_fingerprint_def bind_def get_fingerprint [OF assms] len
          split_range_reads [OF assms ne] Let_def)
  qed
qed

lemma part_processed:
  assumes "inv s" "readable mine p" "only_own mine validate"
  shows "\<exists>s' log'. process_part c st default_config validate status p (s, log) =
      (Inr (respond c default_config status (view s) p), (s', log')) \<and> inv s' \<and> view s' = view s \<and>
      held_in s' = absorb validate (values_of p) (held_in s)"
proof (cases p)
  case (RangeFingerprint r fp)
  then show ?thesis using fingerprint_answered [OF assms(1), of r status fp] assms(1,2) by (simp add: on_store_def)
next
  case (RangeItem r vs have_local)
  let ?diff = "if have_local then [] else with_status status (filter (not_covered vs) (entries_in r (view s)))"
  have diff: "(if have_local then ret [] else on_store
      (bind (rs_get_range st r) (\<lambda>ours. ret (with_status status (filter (not_covered vs) ours))))) (s, log) = (Inr ?diff, (s, log))"
    using get_range [OF assms(1), of r] assms(2) RangeItem by (cases have_local) (simp_all add: bind_def ret_def on_store_def)
  obtain s' log' where s': "store_values st validate vs (s, log) = (Inr (), (s', log'))" "inv s'" "view s' = view s"
    "held_in s' = absorb validate vs (held_in s)"
    using store_values_absorbs [OF assms(1,3)] by blast
  have empty: "with_status status xs = [] \<longleftrightarrow> xs = []" for xs by (simp add: with_status_def)
  show ?thesis using s' RangeItem
    by (auto simp: process_item_def diff s'(1) bind_def ret_def Let_def empty)
qed

lemma parts_processed:
  assumes "inv s" "\<And>p. p \<in> set ps \<Longrightarrow> readable mine p"
    "only_own mine validate"
  shows "\<exists>s' log'. each (process_part c st default_config validate status) ps (s, log) =
      (Inr (concat (map (respond c default_config status (view s)) ps)), (s', log')) \<and> inv s' \<and> view s' = view s \<and>
      held_in s' = absorb validate (concat (map values_of ps)) (held_in s)"
  using assms(1,2)
proof (induction ps arbitrary: s log)
  case Nil
  then show ?case by (simp add: bind_def ret_def)
next
  case (Cons p ps)
  obtain s1 log1 where s1: "process_part c st default_config validate status p (s, log) =
      (Inr (respond c default_config status (view s) p), (s1, log1))" "inv s1" "view s1 = view s"
      "held_in s1 = absorb validate (values_of p) (held_in s)"
    using part_processed [OF Cons.prems(1) _ assms(3), of p status log] Cons.prems(2) by auto
  obtain s2 log2 where s2: "each (process_part c st default_config validate status) ps (s1, log1) =
      (Inr (concat (map (respond c default_config status (view s1)) ps)), (s2, log2))" "inv s2" "view s2 = view s1"
      "held_in s2 = absorb validate (concat (map values_of ps)) (held_in s1)"
    using Cons.IH [OF s1(2), of log1] Cons.prems(2) by auto
  show ?case using s1(3,4) s2(2-4)
    by (simp add: s1(1) s2(1) bind_def ret_def)
qed

lemma message_processed:
  assumes "inv s" "\<And>p. p \<in> set m \<Longrightarrow> readable mine p"
    "only_own mine validate"
  shows "\<exists>s' log'. process_message c st default_config validate status m (s, log) =
      (Inr (if answers c status (view s) m = [] then None else Some (answers c status (view s) m)), (s', log')) \<and>
      inv s' \<and> view s' = view s \<and> held_in s' = absorb validate (message_values m) (held_in s)"
proof -
  let ?ps = "filter is_item m @ filter (\<lambda>part. \<not> is_item part) m"
  obtain s' log' where s': "each (process_part c st default_config validate status) ?ps (s, log) =
      (Inr (answers c status (view s) m), (s', log'))" "inv s'" "view s' = view s"
      "held_in s' = absorb validate (concat (map values_of ?ps)) (held_in s)"
    using parts_processed [OF assms(1) _ assms(3), of ?ps status log] assms(2) unfolding answers_def by auto
  have "concat (map values_of ?ps) = message_values m"
    unfolding message_values_def List.map_filter_def
  proof (induction m)
    case (Cons p m)
    then show ?case by (cases p) (auto simp: comp_def)
  qed simp
  then show ?thesis using s'(2-4) by (simp add: process_message_def s'(1) bind_def ret_def)
qed

lemma part_refused:
  assumes "inv s" "\<not> readable mine p"
  shows "process_part c st default_config validate status p (s, log) = (Inl foreign, (s, log))"
proof (cases p)
  case (RangeFingerprint r fp)
  then show ?thesis using foreign_fingerprint [OF assms(1), of r] assms(2)
    by (simp add: on_store_def process_fingerprint_def bind_def)
next
  case (RangeItem r vs have_local)
  then show ?thesis using foreign_range [OF assms(1), of r] assms(2)
    by (simp add: process_item_def on_store_def bind_def)
qed

lemma parts_refused:
  assumes "inv s" "p \<in> set ps" "\<not> readable mine p" "only_own mine validate"
  shows "\<exists>s' log'. each (process_part c st default_config validate status) ps (s, log) = (Inl foreign, (s', log')) \<and>
    inv s' \<and> view s' = view s"
  using assms(1,2)
proof (induction ps arbitrary: s log)
  case (Cons q ps)
  show ?case
  proof (cases "readable mine q")
    case True
    obtain s1 log1 where s1: "process_part c st default_config validate status q (s, log) =
        (Inr (respond c default_config status (view s) q), (s1, log1))" "inv s1" "view s1 = view s"
      using part_processed [OF Cons.prems(1) True assms(4)] by blast
    have "p \<in> set ps" using Cons.prems(2) True assms(3) by auto
    then show ?thesis using Cons.IH [OF s1(2), of log1] s1 by (auto simp: bind_def)
  next
    case False
    then show ?thesis using part_refused [OF Cons.prems(1)] Cons.prems(1) by (simp add: bind_def)
  qed
qed simp

text \<open>What a message is answered with: a function of the entries the session serves.\<close>

lemma message_answer:
  assumes "inv s" "only_own mine validate"
  shows "fst (process_message c st default_config validate status m (s, log)) =
    (if list_all (readable mine) m
     then Inr (if answers c status (view s) m = [] then None else Some (answers c status (view s) m))
     else Inl foreign)"
proof (cases "list_all (readable mine) m")
  case True
  then have "\<And>p. p \<in> set m \<Longrightarrow> readable mine p" by (simp add: list_all_iff)
  from message_processed [where m = m and status = status and log = log, OF assms(1) this assms(2)] True show ?thesis by auto
next
  case False
  then obtain p where p: "p \<in> set m" "\<not> readable mine p" by (auto simp: list_all_iff)
  let ?ps = "filter is_item m @ filter (\<lambda>part. \<not> is_item part) m"
  have "p \<in> set ?ps" using p(1) by auto
  from parts_refused [OF assms(1) this p(2) assms(2), of status log] False show ?thesis
    by (auto simp: process_message_def bind_def)
qed

end

end
