(* ===== verification/Ranger_Dialog.thy ===== *)
theory Ranger_Dialog
  imports Ranger_Session
begin

text \<open>
  The two message loops of \<^verbatim>\<open>crates/pdn-store/src/net/codec.rs\<close> against each other over a transport that
  loses nothing: \<open>dialog\<close> hands each side's reply to the other until one has none. On two stores that keep
  the session contract it ends within a number of rounds the served entries bound, and each side then
  holds every entry the other served and it accepted.
\<close>

declare split_paired_All [simp del] split_paired_Ex [simp del]

text \<open>
  \<open>step n s m\<close> processes message \<open>m\<close> on side \<open>s\<close>, with \<open>n\<close> rounds left; \<open>None\<close> is a dialog that did not
  end within the rounds given.
\<close>

fun dialog ::
    "(nat \<Rightarrow> Side \<Rightarrow> Message \<Rightarrow> ('s, 'e, Message option) exec) \<Rightarrow> nat \<Rightarrow> Side \<Rightarrow> Message \<Rightarrow> (Side \<Rightarrow> 's) \<Rightarrow>
      ('e + unit) option \<times> (Side \<Rightarrow> 's)" where
  "dialog step 0 side m S = (None, S)"
| "dialog step (Suc n) side m S =
     (case step n side m (S side) of
        (Inl e, s) \<Rightarrow> (Some (Inl e), S(side := s))
      | (Inr None, s) \<Rightarrow> (Some (Inr ()), S(side := s))
      | (Inr (Some reply), s) \<Rightarrow> dialog step n (other_side side) reply (S(side := s)))"

text \<open>\<open>follows c status V s0 m s p\<close>: part \<open>p\<close> reaches side \<open>s\<close> in the exchange that message \<open>m\<close> to \<open>s0\<close> starts.\<close>

inductive follows ::
    "'x store_crypto_scheme \<Rightarrow> (Side \<Rightarrow> content_status_cb) \<Rightarrow> (Side \<Rightarrow> SignedEntry list) \<Rightarrow> Side \<Rightarrow> Message \<Rightarrow>
      Side \<Rightarrow> MessagePart \<Rightarrow> bool"
  for c status V s0 m where
    sent: "p \<in> set m \<Longrightarrow> follows c status V s0 m s0 p"
  | replied: "follows c status V s0 m s p \<Longrightarrow> q \<in> set (respond c default_config (status s) (V s) p) \<Longrightarrow>
      follows c status V s0 m (other_side s) q"

lemma set_answers: "set (answers c status V m) = (\<Union>p\<in>set m. set (respond c default_config status V p))"
  by (auto simp: answers_def)

lemma follows_next:
  assumes "follows c status V s0 m s p"
  shows "s = s0 \<and> p \<in> set m \<or> follows c status V (other_side s0) (answers c (status s0) (V s0) m) s p"
  using assms
proof induction
  case (replied s p q)
  from replied.IH show ?case
  proof
    assume "s = s0 \<and> p \<in> set m"
    then have "q \<in> set (answers c (status s0) (V s0) m)" "s = s0" using replied.hyps(2) by (auto simp: set_answers)
    then show ?thesis using follows.sent by blast
  next
    assume "follows c status V (other_side s0) (answers c (status s0) (V s0) m) s p"
    then show ?thesis using replied.hyps(2) follows.replied by blast
  qed
qed simp

lemma reaches_follows: "reaches c status V s p \<Longrightarrow> follows c status V Acceptor [opening_part c (V Dialer)] s p"
  by (induction rule: reaches.induct) (auto intro: follows.intros)

lemma follows_reaches: "follows c status V Acceptor [opening_part c (V Dialer)] s p \<Longrightarrow> reaches c status V s p"
  by (induction rule: follows.induct) (auto intro: reaches.intros)

lemma respond_boundaries:
  assumes "ordered V" "q \<in> set (respond c default_config status V p)"
  shows "boundaries (part_range q) \<subseteq> boundaries (part_range p) \<union> se_id ` set V"
proof (cases p)
  case (RangeItem r vs have_local)
  then have "q = RangeItem r (with_status status (filter (not_covered vs) (entries_in r V))) True"
    using respond_item assms(2) by blast
  then show ?thesis using RangeItem by auto
next
  case (RangeFingerprint r fp)
  note p = this
  show ?thesis
  proof (cases "length (entries_in r V) \<le> 1")
    case True
    then have "q = RangeItem r (with_status status (entries_in r V)) False"
      using p assms(2) by (simp add: Let_def split: if_split_asm)
    then show ?thesis using p by simp
  next
    case False
    then have two: "2 \<le> length (entries_in r V)" by simp
    have chunk: "part_range (chunk_of c default_config status V r') = r'" for r'
      by (simp add: chunk_of_def)
    have q: "q \<in> set (respond c default_config status V (RangeFingerprint r fp))" using assms(2) unfolding p .
    show ?thesis using q
    proof (rule respond_fingerprint)
      fix r' assume r': "r' \<in> set (split_of default_config r (entries_in r V))" "q = chunk_of c default_config status V r'"
      have "boundaries r' \<subseteq> boundaries r \<union> se_id ` set V" using split_partition(2) [OF assms(1) two r'(1)] by blast
      then show ?thesis using r'(2) chunk p by simp
    qed (simp add: p)
  qed
qed

lemma message_values_iff: "v \<in> set (message_values m) \<longleftrightarrow> (\<exists>p\<in>set m. v \<in> set (values_of p))"
proof (induction m)
  case (Cons p m)
  then show ?case by (cases p) (auto simp: message_values_def List.map_filter_def)
qed (simp add: message_values_def List.map_filter_def)

lemma follows_step:
  "follows c status V (other_side s0) (answers c (status s0) (V s0) m) s p \<Longrightarrow> follows c status V s0 m s p"
proof (induction rule: follows.induct)
  case (sent q)
  then show ?case by (auto simp: set_answers intro: follows.intros)
qed (rule follows.replied)

lemma follows_nothing: "\<not> follows c status V s0 [] s p"
proof
  assume "follows c status V s0 [] s p"
  then show False by induction auto
qed

text \<open>
  Between the states \<open>S\<close> and \<open>S'\<close> of an exchange that message \<open>m\<close> to \<open>side\<close> starts: nothing held is lost to an
  older entry, the accepted values of the parts \<open>P\<close> are held, and whatever came to be held was sent and accepted.
\<close>

definition taken ::
    "'x store_crypto_scheme \<Rightarrow> (Side \<Rightarrow> content_status_cb) \<Rightarrow> (Side \<Rightarrow> SignedEntry list) \<Rightarrow> (nat \<Rightarrow> Side \<Rightarrow> validate_cb) \<Rightarrow>
      (Side \<Rightarrow> 's \<Rightarrow> held) \<Rightarrow> Side \<Rightarrow> Message \<Rightarrow> (Side \<Rightarrow> 's) \<Rightarrow> (Side \<Rightarrow> 's) \<Rightarrow> (Side \<Rightarrow> MessagePart \<Rightarrow> bool) \<Rightarrow> bool" where
  "taken c status V validate held_in side m S S' P \<longleftrightarrow>
     (\<forall>s e. holds_newer (held_in s (S s)) e \<longrightarrow> holds_newer (held_in s (S' s)) e) \<and>
     (\<forall>s p v. P s p \<and> v \<in> set (values_of p) \<and> (\<forall>n. validate n s (fst v) (snd v) = Accept) \<longrightarrow>
        holds_newer (held_in s (S' s)) (fst v)) \<and>
     (\<forall>s k e. held_in s (S' s) k = Some e \<longrightarrow> held_in s (S s) k = Some e \<or>
        (\<exists>p v n. follows c status V side m s p \<and> v \<in> set (values_of p) \<and> fst v = e \<and> validate n s e (snd v) = Accept))"

lemma taken_mono:
  "taken c status V validate held_in side m S S' P \<Longrightarrow> (\<And>s p. Q s p \<Longrightarrow> P s p) \<Longrightarrow>
    taken c status V validate held_in side m S S' Q"
  unfolding taken_def by blast

lemma takenD:
  assumes "taken c status V validate held_in side m S S' P"
  shows "holds_newer (held_in s (S s)) e \<Longrightarrow> holds_newer (held_in s (S' s)) e"
    "P s p \<Longrightarrow> v \<in> set (values_of p) \<Longrightarrow> \<forall>n. validate n s (fst v) (snd v) = Accept \<Longrightarrow>
       holds_newer (held_in s (S' s)) (fst v)"
    "held_in s (S' s) k = Some e \<Longrightarrow> held_in s (S s) k = Some e \<or>
       (\<exists>p v n. follows c status V side m s p \<and> v \<in> set (values_of p) \<and> fst v = e \<and> validate n s e (snd v) = Accept)"
  using assms unfolding taken_def by blast+

lemma taken_trans:
  assumes "taken c status V validate held_in side m S S1 (\<lambda>s p. s = side \<and> p \<in> set m)"
    "taken c status V validate held_in (other_side side) (answers c (status side) (V side) m) S1 S2
      (follows c status V (other_side side) (answers c (status side) (V side) m))"
  shows "taken c status V validate held_in side m S S2 (follows c status V side m)"
  unfolding taken_def
proof (intro conjI allI impI; (elim conjE)?)
  fix s e assume "holds_newer (held_in s (S s)) e"
  then show "holds_newer (held_in s (S2 s)) e" by (intro takenD(1) [OF assms(2)] takenD(1) [OF assms(1)])
next
  fix s p v assume v: "follows c status V side m s p" "v \<in> set (values_of p)" "\<forall>n. validate n s (fst v) (snd v) = Accept"
  from follows_next [OF v(1)] show "holds_newer (held_in s (S2 s)) (fst v)"
  proof
    assume "s = side \<and> p \<in> set m"
    then show ?thesis by (intro takenD(1) [OF assms(2)] takenD(2) [OF assms(1) _ v(2,3)])
  qed (rule takenD(2) [OF assms(2) _ v(2,3)])
next
  fix s k e assume "held_in s (S2 s) k = Some e"
  from takenD(3) [OF assms(2) this]
  show "held_in s (S s) k = Some e \<or> (\<exists>p v n. follows c status V side m s p \<and> v \<in> set (values_of p) \<and>
      fst v = e \<and> validate n s e (snd v) = Accept)"
  proof
    assume "held_in s (S1 s) k = Some e"
    then show ?thesis by (rule takenD(3) [OF assms(1)])
  next
    assume "\<exists>p v n. follows c status V (other_side side) (answers c (status side) (V side) m) s p \<and>
      v \<in> set (values_of p) \<and> fst v = e \<and> validate n s e (snd v) = Accept"
    then show ?thesis using follows_step [of c status V side m s] by metis
  qed
qed

lemma holds_newer_older:
  assumes "holds_newer h e'" "se_id e' = se_id e" "se_rank e \<le> se_rank e'"
  shows "holds_newer h e"
proof -
  obtain p where "h (se_id e') = Some p" "se_rank e' \<le> se_rank p" using assms(1) by (auto simp: holds_newer_def)
  then show ?thesis using assms(2) order_trans [OF assms(3)] unfolding holds_newer_def by (intro exI [of _ p]) simp
qed

lemma reaches_value: "reaches c status V s p \<Longrightarrow> v \<in> set (values_of p) \<Longrightarrow> fst v \<in> set (V (other_side s))"
proof (cases p)
  case (RangeItem r vs have_local)
  assume "reaches c status V s p" "v \<in> set (values_of p)"
  then show ?thesis using reaches_item(1) [of c status V s r vs have_local] RangeItem by (force simp: entries_in_def)
qed simp

lemma taken_now:
  assumes held: "held_in side s' = absorb (validate n side) (message_values m) (held_in side (S side))"
  shows "taken c status V validate held_in side m S (S(side := s')) (\<lambda>s p. s = side \<and> p \<in> set m)"
  unfolding taken_def
proof (intro conjI allI impI; (elim conjE)?)
  fix s e assume "holds_newer (held_in s (S s)) e"
  then show "holds_newer (held_in s ((S(side := s')) s)) e"
    using absorb_keeps held by (cases "s = side") simp_all
next
  fix s p v assume "v \<in> set (values_of p)" "\<forall>n. validate n s (fst v) (snd v) = Accept" "s = side" "p \<in> set m"
  then show "holds_newer (held_in s ((S(side := s')) s)) (fst v)"
    using absorb_newer [of v "message_values m" "validate n side"] message_values_iff held by auto
next
  fix s k e assume k: "held_in s ((S(side := s')) s) k = Some e"
  show "held_in s (S s) k = Some e \<or> (\<exists>p v n. follows c status V side m s p \<and> v \<in> set (values_of p) \<and>
      fst v = e \<and> validate n s e (snd v) = Accept)"
  proof (cases "s = side")
    case True
    then show ?thesis
      using absorb_from [of "validate n side" "message_values m" "held_in side (S side)" k e] k held
        follows.sent [of _ m c status V side] message_values_iff [of _ m] by (metis fun_upd_same)
  next
    case False
    then show ?thesis using k by simp
  qed
qed

locale exchange =
  fixes c :: "'x store_crypto_scheme"
    and st :: "Side \<Rightarrow> ('s, 'e) range_store"
    and inv :: "Side \<Rightarrow> 's \<Rightarrow> bool"
    and view :: "Side \<Rightarrow> 's \<Rightarrow> SignedEntry list"
    and held_in :: "Side \<Rightarrow> 's \<Rightarrow> held"
    and mine :: "RecordIdentifier \<Rightarrow> bool"
    and foreign :: "'e RangerError"
    and status :: "Side \<Rightarrow> content_status_cb"
    and validate :: "nat \<Rightarrow> Side \<Rightarrow> validate_cb"
    and proj :: "'b \<Rightarrow> 's"
    and step :: "nat \<Rightarrow> Side \<Rightarrow> Message \<Rightarrow> ('b, 'f, Message option) exec"
  assumes store: "session_store c (st side) (inv side) (view side) (held_in side) mine foreign"
    and only_mine: "only_own mine (validate n side)"
    and steps: "process_message c (st side) default_config (validate n side) (status side) m (proj s, []) =
      (Inr reply, (s', log)) \<Longrightarrow> fst (step n side m s) = Inr reply \<and> proj (snd (step n side m s)) = s'"
begin

lemma stepped:
  assumes "inv side (proj s)" "\<And>p. p \<in> set m \<Longrightarrow> Ball (boundaries (part_range p)) mine"
  defines "replies \<equiv> answers c (status side) (view side (proj s)) m"
  obtains s' where "step n side m s = (Inr (if replies = [] then None else Some replies), s')" "inv side (proj s')"
    "view side (proj s') = view side (proj s)"
    "held_in side (proj s') = absorb (validate n side) (message_values m) (held_in side (proj s))"
proof -
  obtain s' log' where p: "process_message c (st side) default_config (validate n side) (status side) m (proj s, []) =
      (Inr (if replies = [] then None else Some replies), (s', log'))"
    and s': "inv side s'" "view side s' = view side (proj s)"
      "held_in side s' = absorb (validate n side) (message_values m) (held_in side (proj s))"
    using session_store.message_processed [where m = m and log = "[]" and status = "status side", OF store assms(1) readableI [OF assms(2)] only_mine]
    unfolding replies_def by blast
  show thesis using steps [OF p] s' that [of "snd (step n side m s)"] by (simp add: prod_eq_iff)
qed

lemma replies_fit:
  assumes "\<And>s. inv s (proj (S s))" "\<And>s. view s (proj (S s)) = V s" "\<And>p. p \<in> set m \<Longrightarrow> part_size V p < Suc n"
    "\<And>p. p \<in> set m \<Longrightarrow> Ball (boundaries (part_range p)) mine" "q \<in> set (answers c (status side) (V side) m)"
  shows "part_size V q < n" "Ball (boundaries (part_range q)) mine"
proof -
  obtain p where p: "p \<in> set m" "q \<in> set (respond c default_config (status side) (V side) p)"
    using assms(5) by (auto simp: set_answers)
  have ord: "ordered (V s)" for s
    using session_store.view_ordered [OF store assms(1)] assms(2) by metis
  have own_view: "e \<in> set (V s) \<Longrightarrow> mine (se_id e)" for s e
    using session_store.view_own [OF store assms(1)] assms(2) by metis
  show "part_size V q < n" using respond_smaller [of V q c status side p, OF ord p(2)] assms(3) [OF p(1)] by simp
  show "Ball (boundaries (part_range q)) mine"
    using respond_boundaries [OF ord p(2)] assms(4) [OF p(1)] own_view by blast
qed

lemma dialog_ends:
  assumes "m \<noteq> []" "\<And>s. inv s (proj (S s))" "\<And>s. view s (proj (S s)) = V s" "\<And>p. p \<in> set m \<Longrightarrow> part_size V p < n"
    "\<And>p. p \<in> set m \<Longrightarrow> Ball (boundaries (part_range p)) mine"
  shows "\<exists>S'. dialog step n side m S = (Some (Inr ()), S') \<and>
    taken c status V validate (\<lambda>s x. held_in s (proj x)) side m S S' (follows c status V side m)"
  using assms
proof (induction n arbitrary: side m S)
  case 0
  then show ?case by (metis ex_in_conv not_less0 set_empty)
next
  case (Suc n)
  let ?replies = "answers c (status side) (V side) m"
  obtain s' where s': "step n side m (S side) = (Inr (if ?replies = [] then None else Some ?replies), s')"
    "inv side (proj s')" "view side (proj s') = V side"
    "held_in side (proj s') = absorb (validate n side) (message_values m) (held_in side (proj (S side)))"
    using stepped [of side "S side" m n] Suc.prems(2,3,5) by metis
  note now = taken_now [where held_in = "\<lambda>s x. held_in s (proj x)" and c = c and status = status and V = V and S = S and validate = validate and n = n and m = m and side = side, OF s'(4)]
  have S1: "inv s (proj ((S(side := s')) s))" "view s (proj ((S(side := s')) s)) = V s" for s
    using s' Suc.prems(2,3) by auto
  show ?case
  proof (cases "?replies = []")
    case True
    have "s = side \<and> p \<in> set m" if "follows c status V side m s p" for s p
      using follows_next [OF that] follows_nothing [of c status V "other_side side" s p] unfolding True by blast
    then have "taken c status V validate (\<lambda>s x. held_in s (proj x)) side m S (S(side := s')) (follows c status V side m)"
      using taken_mono [OF now] by blast
    then show ?thesis using s'(1) True by simp
  next
    case False
    obtain S' where S': "dialog step n (other_side side) ?replies (S(side := s')) = (Some (Inr ()), S')"
      "taken c status V validate (\<lambda>s x. held_in s (proj x)) (other_side side) ?replies (S(side := s')) S'
        (follows c status V (other_side side) ?replies)"
      using Suc.IH [OF False, of "S(side := s')" "other_side side"] S1 replies_fit [OF Suc.prems(2-5)] by blast
    show ?thesis using s'(1) False S'(1) taken_trans [OF now S'(2)] by simp
  qed
qed

lemma exchange_settles:
  assumes inv: "\<And>s. inv s (proj (S s))"
    and served_held: "\<And>s e. e \<in> set (view s (proj (S s))) \<Longrightarrow> holds_newer (held_in s (proj (S s))) e"
    and tell: "fingerprints_tell c (view Dialer (proj (S Dialer))) (view Acceptor (proj (S Acceptor)))"
    and rounds: "length (view Dialer (proj (S Dialer))) + length (view Acceptor (proj (S Acceptor))) + 3 \<le> n"
  shows "\<exists>S'. dialog step n Acceptor [opening_part c (view Dialer (proj (S Dialer)))] S = (Some (Inr ()), S') \<and>
    (\<forall>s e. e \<in> set (view (other_side s) (proj (S (other_side s)))) \<longrightarrow> (\<forall>n x. validate n s e x = Accept) \<longrightarrow>
       holds_newer (held_in s (proj (S' s))) e) \<and>
    (\<forall>s k e. held_in s (proj (S' s)) k = Some e \<longrightarrow> held_in s (proj (S s)) k = Some e \<or>
       e \<in> set (view (other_side s) (proj (S (other_side s)))) \<and> (\<exists>n x. validate n s e x = Accept))"
proof -
  define V where "V = (\<lambda>s. view s (proj (S s)))"
  let ?m = "[opening_part c (V Dialer)]"
  have V: "view s (proj (S s)) = V s" for s by (simp add: V_def)
  have "part_size V (opening_part c (V Dialer)) < n" "Ball (boundaries (part_range (opening_part c (V Dialer)))) mine"
    using rounds unfolding V by (simp_all add: opening_part_def is_all_def boundaries_def)
  then obtain S' where S': "dialog step n Acceptor ?m S = (Some (Inr ()), S')"
    "taken c status V validate (\<lambda>s x. held_in s (proj x)) Acceptor ?m S S' (follows c status V Acceptor ?m)"
    using dialog_ends [of ?m S V n Acceptor] inv V by auto
  have ord: "ordered (V s)" for s using session_store.view_ordered [OF store inv] V by metis
  have takes: "holds_newer (held_in s (proj (S' s))) e" if e: "e \<in> set (V (other_side s))" "\<forall>n x. validate n s e x = Accept" for s e
  proof (cases "covered_by (V s) e")
    case True
    then obtain e' where "e' \<in> set (V s)" "se_id e' = se_id e" "se_rank e \<le> se_rank e'" by (auto simp: covered_by_def)
    then have "holds_newer (held_in s (proj (S s))) e"
      using served_held [of e' s] holds_newer_older V by metis
    then show ?thesis by (rule takenD(1) [OF S'(2)])
  next
    case False
    have opened: "reaches c status V Acceptor (RangeFingerprint (Range (first_id (V Dialer)) (first_id (V Dialer))) (fingerprint_of c (V Dialer)))"
      using reaches.opened [of c status V] by (simp add: opening_part_def)
    have "range_contains (Range (first_id (V Dialer)) (first_id (V Dialer))) (se_id e)" by simp
    then have "delivered c status V s e"
      by (rule fingerprint_delivers [OF ord tell [unfolded V] opened _ e(1) False])
    then obtain r vs hl x where "reaches c status V s (RangeItem r vs hl)" "(e, x) \<in> set vs"
      by (auto simp: delivered_def)
    then show ?thesis using takenD(2) [OF S'(2) reaches_follows, of s "RangeItem r vs hl" "(e, x)"] e(2) by simp
  qed
  have sources: "held_in s (proj (S s)) k = Some e \<or> e \<in> set (V (other_side s)) \<and> (\<exists>n x. validate n s e x = Accept)"
    if "held_in s (proj (S' s)) k = Some e" for s k e
    using takenD(3) [OF S'(2) that]
  proof
    assume "\<exists>p v n. follows c status V Acceptor ?m s p \<and> v \<in> set (values_of p) \<and> fst v = e \<and> validate n s e (snd v) = Accept"
    then show ?thesis using reaches_value [OF follows_reaches] by blast
  qed simp
  show ?thesis unfolding V by (intro exI [of _ S'] conjI allI impI S'(1)) (rule takes, assumption+, erule sources)
qed

end

end
