(* ===== verification/Store_Instance.thy ===== *)
theory Store_Instance
  imports Store_Claims Ranger_Dialog
begin

text \<open>
  One namespace's view of the store, \<open>StoreInstance\<close> of \<^verbatim>\<open>crates/pdn-store/src/store/fs.rs\<close>, and the store a
  session narrows it to, \<open>SessionStore\<close> of \<^verbatim>\<open>crates/pdn-store/src/filter.rs\<close>: both implement the operations
  the message processing works on. An instance that reads through a session's snapshot, filtered or not,
  keeps the contract \<open>session_store\<close>.

  The state is the store and the number of accesses to the database so far: \<open>env\<close> says of each access
  whether the commit it may have to make succeeds, and its time.
\<close>

declare split_paired_All [simp del] split_paired_Ex [simp del]

subsection \<open>The instance\<close>

type_synonym environment = "nat \<Rightarrow> bool \<times> nat"
type_synonym live = "Store \<times> nat"

record StoreInstance =
  si_namespace :: NamespaceId
  si_snapshot :: "Tables option"

definition accessing ::
    "environment \<Rightarrow> (bool \<Rightarrow> nat \<Rightarrow> Store \<Rightarrow> (StoreError + 'a) \<times> Store) \<Rightarrow> (live, StoreError RangerError, 'a) exec" where
  "accessing env f s =
     (case f (fst (env (snd s))) (snd (env (snd s))) (fst s) of
        (Inl e, s1) \<Rightarrow> (Inl (StoreFailed e), (s1, Suc (snd s)))
      | (Inr a, s1) \<Rightarrow> (Inr a, (s1, Suc (snd s))))"

definition ensure_own_namespace ::
    "StoreInstance \<Rightarrow> RecordIdentifier \<Rightarrow> (live, StoreError RangerError, unit) exec" where
  "ensure_own_namespace inst k =
     (if rid_namespace k = si_namespace inst then ret () else fail (StoreFailed ForeignNamespace))"

definition first_record :: "Tables \<Rightarrow> RecordsId bounds \<Rightarrow> RecordIdentifier option" where
  "first_record t b =
     (case tbl_range b (tb_records t) of [] \<Rightarrow> None | row # rows \<Rightarrow> Some (se_id (into_entry row)))"

definition range_pair :: "Tables \<Rightarrow> RecordsId bounds \<Rightarrow> RecordsId bounds option \<Rightarrow> SignedEntry list" where
  "range_pair t b wrap =
     map into_entry (tbl_range b (tb_records t)) @
     (case wrap of None \<Rightarrow> [] | Some w \<Rightarrow> map into_entry (tbl_range w (tb_records t)))"

definition reading :: "environment \<Rightarrow> StoreInstance \<Rightarrow> (live, StoreError RangerError, Tables) exec" where
  "reading env inst = (case si_snapshot inst of Some t \<Rightarrow> ret t | None \<Rightarrow> accessing env read_tables)"

definition instance_get_first ::
    "environment \<Rightarrow> StoreInstance \<Rightarrow> (live, StoreError RangerError, RecordIdentifier) exec" where
  "instance_get_first env inst =
     bind (reading env inst) (\<lambda>t.
     ret (case first_record t (namespace_bounds (si_namespace inst)) of Some k \<Rightarrow> k | None \<Rightarrow> rid_default))"

definition range_bounds :: "NamespaceId \<Rightarrow> RecordIdentifier Range \<Rightarrow> RecordsId bounds \<times> RecordsId bounds option" where
  "range_bounds namespace r =
     (let x = range_x r; y = range_y r
      in if x = y then (namespace_bounds namespace, None)
         else if x < y then ((Included (rid_tuple x), Excluded (rid_tuple y)), None)
         else (bounds_from_start namespace (Excluded (rid_tuple y)),
           Some (bounds_to_end namespace (Included (rid_tuple x)))))"

definition instance_get_range ::
    "environment \<Rightarrow> StoreInstance \<Rightarrow> RecordIdentifier Range \<Rightarrow> (live, StoreError RangerError, SignedEntry list) exec" where
  "instance_get_range env inst r =
     (if range_x r \<noteq> range_y r \<and>
        \<not> (rid_namespace (range_x r) = si_namespace inst \<and> rid_namespace (range_y r) = si_namespace inst)
      then fail (StoreFailed ForeignNamespace)
      else
        let (b, wrap) = range_bounds (si_namespace inst) r
        in bind (reading env inst) (\<lambda>t. ret (range_pair t b wrap)))"

definition instance_get_fingerprint ::
    "'x store_crypto_scheme \<Rightarrow> environment \<Rightarrow> StoreInstance \<Rightarrow> RecordIdentifier Range \<Rightarrow>
      (live, StoreError RangerError, Fingerprint) exec" where
  "instance_get_fingerprint c env inst r =
     bind (instance_get_range env inst r) (\<lambda>elements. ret (fingerprint_of c elements))"

definition instance_entry_put ::
    "environment \<Rightarrow> StoreInstance \<Rightarrow> SignedEntry \<Rightarrow> (live, StoreError RangerError, unit) exec" where
  "instance_entry_put env inst e =
     bind (ensure_own_namespace inst (se_id e)) (\<lambda>_.
     bind (\<lambda>s. (Inr (), (wrote (se_namespace e) (fst s), snd s))) (\<lambda>_.
     accessing env (\<lambda>io now. modify io now (\<lambda>t. (Inr (), entry_put_tables e t)))))"

definition instance_entry_get ::
    "'x store_crypto_scheme \<Rightarrow> environment \<Rightarrow> StoreInstance \<Rightarrow> RecordIdentifier \<Rightarrow>
      (live, StoreError RangerError, SignedEntry option) exec" where
  "instance_entry_get c env inst k =
     bind (ensure_own_namespace inst k) (\<lambda>_.
     accessing env (\<lambda>io now. get_exact c io now (rid_namespace k) (rid_author k) (rid_key k) True))"

definition instance_store ::
    "'x store_crypto_scheme \<Rightarrow> environment \<Rightarrow> StoreInstance \<Rightarrow> (live, StoreError) range_store" where
  "instance_store c env inst =
     \<lparr>rs_get_first = instance_get_first env inst, rs_get_range = instance_get_range env inst,
      rs_get_fingerprint = instance_get_fingerprint c env inst, rs_entry_get = instance_entry_get c env inst,
      rs_entry_put = instance_entry_put env inst\<rparr>"

subsection \<open>The store of a session\<close>

definition admitted :: "EntryFilter option \<Rightarrow> SignedEntry \<Rightarrow> bool" where
  "admitted f e = (case f of None \<Rightarrow> True | Some admits \<Rightarrow> admits e)"

text \<open>\<open>FilteredIter\<close>: the entries of the inner iterator the filter admits.\<close>

definition filtered_iter :: "EntryFilter option \<Rightarrow> SignedEntry list \<Rightarrow> SignedEntry list" where
  "filtered_iter f entries = filter (admitted f) entries"

definition session_get_range ::
    "('s, 'e) range_store \<Rightarrow> EntryFilter option \<Rightarrow> RecordIdentifier Range \<Rightarrow> ('s, 'e RangerError, SignedEntry list) exec" where
  "session_get_range inner f r = bind (rs_get_range inner r) (\<lambda>entries. ret (filtered_iter f entries))"

definition session_get_first ::
    "('s, 'e) range_store \<Rightarrow> EntryFilter option \<Rightarrow> ('s, 'e RangerError, RecordIdentifier) exec" where
  "session_get_first inner f =
     (case f of
        None \<Rightarrow> rs_get_first inner
      | Some admits \<Rightarrow>
          bind (rs_get_range inner (Range rid_default rid_default)) (\<lambda>entries.
          ret (case find admits entries of Some e \<Rightarrow> se_id e | None \<Rightarrow> rid_default)))"

definition session_get_fingerprint ::
    "'x store_crypto_scheme \<Rightarrow> ('s, 'e) range_store \<Rightarrow> EntryFilter option \<Rightarrow> RecordIdentifier Range \<Rightarrow>
      ('s, 'e RangerError, Fingerprint) exec" where
  "session_get_fingerprint c inner f r =
     (case f of
        None \<Rightarrow> rs_get_fingerprint inner r
      | Some admits \<Rightarrow> bind (session_get_range inner f r) (\<lambda>entries. ret (fingerprint_of c entries)))"

definition session_store_of ::
    "'x store_crypto_scheme \<Rightarrow> ('s, 'e) range_store \<Rightarrow> EntryFilter option \<Rightarrow> ('s, 'e) range_store" where
  "session_store_of c inner f =
     \<lparr>rs_get_first = session_get_first inner f, rs_get_range = session_get_range inner f,
      rs_get_fingerprint = session_get_fingerprint c inner f, rs_entry_get = rs_entry_get inner,
      rs_entry_put = rs_entry_put inner\<rparr>"

subsection \<open>What an instance reads\<close>

lemma rid_eq_tuple: "rid_tuple a = rid_tuple b \<longleftrightarrow> a = b"
  by (cases a; cases b) (simp add: rid_tuple_def)

definition namespace_entries :: "NamespaceId \<Rightarrow> Tables \<Rightarrow> SignedEntry list" where
  "namespace_entries ns t = map into_entry (tbl_range (namespace_bounds ns) (tb_records t))"

lemma into_entry_id: "rid_tuple (se_id (into_entry row)) = fst row"
  by (cases row rule: into_entry.cases) (simp add: rid_tuple_def)

lemma rid_tuple_less: "rid_tuple a < rid_tuple b \<longleftrightarrow> a < b" "rid_tuple a \<le> rid_tuple b \<longleftrightarrow> a \<le> b"
  by (simp_all add: less_RecordIdentifier_def less_eq_RecordIdentifier_def)

lemma namespace_rows: "in_bounds (namespace_bounds ns) (fst row) \<longleftrightarrow> rid_namespace (se_id (into_entry row)) = ns"
  using namespace_bounds_exact by (cases row rule: into_entry.cases) simp

lemma namespace_entries_filter:
  "namespace_entries ns t = filter (\<lambda>e. se_namespace e = ns) (map into_entry (tb_records t))"
  by (simp add: namespace_entries_def tbl_range_def namespace_rows filter_map comp_def)

lemma ordered_rows: "tbl_ok rows \<Longrightarrow> ordered (map into_entry rows)"
  by (simp add: ordered_def tbl_ok_def sorted_wrt_map into_entry_id [symmetric] rid_tuple_less comp_def)

lemma ordered_filter: "ordered V \<Longrightarrow> ordered (filter P V)"
  unfolding ordered_def by (induction V) auto

lemma ordered_namespace: "tables_ok t \<Longrightarrow> ordered (namespace_entries ns t)"
  unfolding namespace_entries_filter by (intro ordered_filter ordered_rows) (simp add: tables_ok_def)

lemma rows_between: "map into_entry (tbl_range b rows) = filter (\<lambda>e. in_bounds b (rid_tuple (se_id e))) (map into_entry rows)"
  by (simp add: tbl_range_def filter_map comp_def into_entry_id)

lemma between_namespace:
  fixes x y k :: RecordIdentifier
  assumes "rid_namespace x = ns" "rid_namespace y = ns" "x \<le> k" "k \<le> y"
  shows "rid_namespace k = ns"
  using assms by (cases x; cases y; cases k) (auto simp: less_eq_RecordIdentifier_def rid_tuple_def)

lemma filter_two_ends:
  assumes "ordered V" "y < x"
  shows "filter (\<lambda>e. se_id e < y) V @ filter (\<lambda>e. x \<le> se_id e) V = filter (\<lambda>e. x \<le> se_id e \<or> se_id e < y) V"
  using assms(1)
proof (induction V)
  case (Cons e V)
  have later: "\<And>e'. e' \<in> set V \<Longrightarrow> se_id e < se_id e'" and V: "ordered V" using Cons.prems by (auto simp: ordered_def)
  show ?case
  proof (cases "x \<le> se_id e")
    case True
    then have none: "filter (\<lambda>e. se_id e < y) V = []"
      using later assms(2) by (fastforce simp: filter_empty_conv)
    then show ?thesis using Cons.IH [OF V] True assms(2) by auto
  next
    case False
    then show ?thesis using Cons.IH [OF V] by auto
  qed
qed simp

lemma range_rows:
  assumes "tables_ok t" "\<And>k. k \<in> boundaries r \<Longrightarrow> rid_namespace k = ns"
  shows "(case range_bounds ns r of (b, wrap) \<Rightarrow> range_pair t b wrap) = entries_in r (namespace_entries ns t)"
proof -
  obtain x y where r: "r = Range x y" by (cases r)
  let ?E = "map into_entry (tb_records t)"
  have o: "ordered ?E" using assms(1) ordered_rows by (simp add: tables_ok_def)
  have own: "x \<noteq> y \<Longrightarrow> rid_namespace x = ns \<and> rid_namespace y = ns"
    using assms(2) by (simp add: boundaries_def is_all_def r)
  have start: "after_start (namespace_start ns) (rid_tuple k) \<longleftrightarrow> ns \<le> rid_namespace k" for k
    by (auto simp: namespace_start_def rid_tuple_def)
  have end_ns: "before_end (namespace_end ns) (rid_tuple k) \<longleftrightarrow> rid_namespace k \<le> ns" for k
    using word_less_Suc [of ns "rid_namespace k"] by (auto simp: namespace_end_def increment_array rid_tuple_def Let_def)
  consider "x = y" | "x < y" | "y < x" by fastforce
  then show ?thesis
  proof cases
    case 1
    then show ?thesis by (simp add: r range_bounds_def range_pair_def namespace_entries_def entries_in_def)
  next
    case 2
    then have "rid_namespace x = ns" "rid_namespace y = ns" "x \<noteq> y" using own by auto
    then have "in_bounds (Included (rid_tuple x), Excluded (rid_tuple y)) (rid_tuple k) \<longleftrightarrow>
        range_contains r k \<and> rid_namespace k = ns" for k
      using 2 between_namespace [of x ns y k] by (auto simp: in_bounds_def rid_tuple_less r)
    then show ?thesis using 2
      by (auto simp: r range_bounds_def range_pair_def rows_between namespace_entries_filter entries_in_def Let_def
          simp del: filter_map range_contains.simps intro!: filter_cong)
  next
    case 3
    then have ns: "rid_namespace x = ns" "rid_namespace y = ns" "x \<noteq> y" using own by auto
    have le: "rid_namespace a \<le> rid_namespace b" if "a \<le> b" for a b :: RecordIdentifier
      using that by (auto simp: less_eq_RecordIdentifier_def rid_tuple_def)
    have low: "in_bounds (bounds_from_start ns (Excluded (rid_tuple y))) (rid_tuple k) \<longleftrightarrow> rid_namespace k = ns \<and> k < y" for k
      using ns le [of k y] by (auto simp: in_bounds_def bounds_from_start_def start rid_tuple_less)
    have high: "in_bounds (bounds_to_end ns (Included (rid_tuple x))) (rid_tuple k) \<longleftrightarrow> rid_namespace k = ns \<and> x \<le> k" for k
      using ns le [of x k] by (auto simp: in_bounds_def bounds_to_end_def end_ns rid_tuple_less)
    let ?N = "filter (\<lambda>e. se_namespace e = ns) ?E"
    have "(case range_bounds ns r of (b, wrap) \<Rightarrow> range_pair t b wrap) =
        filter (\<lambda>e. se_id e < y) ?N @ filter (\<lambda>e. x \<le> se_id e) ?N"
      using 3 by (simp add: r range_bounds_def range_pair_def rows_between low high Let_def del: filter_map)
    also have "\<dots> = filter (\<lambda>e. x \<le> se_id e \<or> se_id e < y) ?N"
      by (rule filter_two_ends [OF ordered_filter [OF o] 3])
    also have "\<dots> = entries_in r (namespace_entries ns t)"
      using 3 by (auto simp: entries_in_def namespace_entries_filter r simp del: filter_map intro!: filter_cong)
    finally show ?thesis .
  qed
qed

subsection \<open>A session's store keeps the contract\<close>

definition session_instance :: "NamespaceId \<Rightarrow> Tables \<Rightarrow> StoreInstance" where
  "session_instance ns snap = \<lparr>si_namespace = ns, si_snapshot = Some snap\<rparr>"

text \<open>An environment in which no commit fails.\<close>

definition healthy :: "(nat \<Rightarrow> nat) \<Rightarrow> environment" where
  "healthy clock n = (True, clock n)"

definition session_inv :: "Tables \<Rightarrow> live \<Rightarrow> bool" where
  "session_inv snap s \<longleftrightarrow> tables_ok snap \<and> store_inv (fst s)"

definition session_view :: "NamespaceId \<Rightarrow> Tables \<Rightarrow> EntryFilter option \<Rightarrow> live \<Rightarrow> SignedEntry list" where
  "session_view ns snap f s = filter (admitted f) (namespace_entries ns snap)"

definition session_held :: "'x store_crypto_scheme \<Rightarrow> live \<Rightarrow> held" where
  "session_held c s k = get_exact_in c (live_tables (fst s)) (rid_namespace k) (rid_author k) (rid_key k) True"

lemma entries_in_filter: "entries_in r (filter P V) = filter P (entries_in r V)"
  by (simp add: entries_in_def conj_commute)

lemma instance_range:
  assumes "tables_ok snap" "\<And>k. k \<in> boundaries r \<Longrightarrow> rid_namespace k = ns"
  shows "instance_get_range env (session_instance ns snap) r s = (Inr (entries_in r (namespace_entries ns snap)), s)"
proof -
  have own: "\<not> (range_x r \<noteq> range_y r \<and> \<not> (rid_namespace (range_x r) = ns \<and> rid_namespace (range_y r) = ns))"
    using assms(2) by (auto simp: boundaries_def is_all_def split: if_splits)
  have rows: "(case range_bounds ns r of (b, wrap) \<Rightarrow> range_pair snap b wrap) = entries_in r (namespace_entries ns snap)"
    using range_rows [OF assms] .
  show ?thesis
    unfolding instance_get_range_def session_instance_def StoreInstance.simps if_not_P [OF own]
    using rows by (simp add: reading_def bind_def ret_def split: prod.splits)
qed

lemma instance_range_foreign:
  assumes "k \<in> boundaries r" "rid_namespace k \<noteq> ns"
  shows "instance_get_range env (session_instance ns snap) r s = (Inl (StoreFailed ForeignNamespace), s)"
  using assms by (auto simp: instance_get_range_def session_instance_def fail_def boundaries_def is_all_def split: if_splits)

lemma accessing_healthy:
  "accessing (healthy clock) g (s, n) =
     (case g True (clock n) s of (Inl e, s1) \<Rightarrow> (Inl (StoreFailed e), (s1, Suc n)) | (Inr a, s1) \<Rightarrow> (Inr a, (s1, Suc n)))"
  by (simp add: accessing_def healthy_def split: prod.split sum.split)

lemma held_simp: "session_held c s k = map_option (\<lambda>v. into_entry (rid_tuple k, v)) (map_of (tb_records (live_tables (fst s))) (rid_tuple k))"
  by (simp add: session_held_def get_exact_in_def rid_tuple_def Let_def split: option.split)

lemma into_entry_value: "into_entry (rid_tuple (se_id e), entry_value e) = e"
  by (cases e) (auto simp: entry_value_def rid_tuple_def intro!: SignedEntry.equality EntrySignature.equality Entry.equality Record.equality)

lemma records_put:
  "tbl_ok (tb_records t) \<Longrightarrow> map_of (tb_records (entry_put_tables e t)) = (map_of (tb_records t))(rid_tuple (se_id e) \<mapsto> entry_value e)"
  by (simp add: entry_put_tables_def Let_def table_simps rid_tuple_def)

lemma first_id_find: "first_id (filter P V) = (case find P V of Some e \<Rightarrow> se_id e | None \<Rightarrow> rid_default)"
  by (induction V) (simp_all add: first_id_def)

lemma first_id_record: "first_id (namespace_entries ns t) =
    (case first_record t (namespace_bounds ns) of Some k \<Rightarrow> k | None \<Rightarrow> rid_default)"
  by (simp add: first_id_def first_record_def namespace_entries_def split: list.split)

lemma admitted_all: "filter (admitted None) V = V"
  by (simp add: admitted_def)

lemma entry_get_live:
  assumes "session_inv snap s" "rid_namespace k = ns"
  shows "\<exists>s'. instance_entry_get c (healthy clock) (session_instance ns snap) k s = (Inr (session_held c s k), s') \<and>
    session_inv snap s' \<and> session_held c s' = session_held c s"
proof -
  obtain st n where s: "s = (st, n)" by (cases s)
  obtain r st' where rd: "read_tables True (clock n) st = (r, st')" by fastforce
  have ok: "store_ok st" using assms(1) by (simp add: session_inv_def store_inv_def s)
  have r: "r = Inr (live_tables st)" "live_tables st' = live_tables st"
    using read_tables_live(4,6) [OF ok rd] by blast+
  have "store_inv st'" using read_inv [of st True "clock n"] assms(1) rd by (simp add: session_inv_def s)
  then show ?thesis using assms r rd
    by (simp add: instance_entry_get_def bind_def ensure_own_namespace_def session_instance_def ret_def s accessing_healthy
        get_exact_def session_inv_def session_held_def fun_eq_iff)
qed

lemma entry_put_live:
  assumes "session_inv snap s" "se_namespace e = ns"
  shows "\<exists>s'. instance_entry_put (healthy clock) (session_instance ns snap) e s = (Inr (), s') \<and>
    session_inv snap s' \<and> session_held c s' = (session_held c s)(se_id e \<mapsto> e)"
proof -
  obtain st n where s: "s = (st, n)" by (cases s)
  let ?put = "\<lambda>t. (Inr () :: StoreError + unit, entry_put_tables e t)"
  obtain r st' where m: "modify True (clock n) ?put (wrote (se_namespace e) st) = (r, st')" by fastforce
  have inv: "store_inv (wrote (se_namespace e) st)" using assms(1) by (simp add: session_inv_def s)
  then have ok: "store_ok (wrote (se_namespace e) st)" by (simp add: store_inv_def)
  have r: "r = Inr ()" "live_tables st' = entry_put_tables e (live_tables st)"
    using modify_live(4) [OF ok m] by simp_all
  have inv': "store_inv st'" using modify_inv [OF inv, of ?put True "clock n"] tables_ok_entry m by simp
  have "tbl_ok (tb_records (live_tables st))" using assms(1) by (simp add: session_inv_def s store_inv_def contents_def tables_ok_def)
  then have "session_held c (st', Suc n) = (session_held c (st, n))(se_id e \<mapsto> e)"
    by (simp add: fun_eq_iff held_simp r(2) records_put rid_eq_tuple into_entry_value)
  then show ?thesis using assms r m inv'
    by (simp add: instance_entry_put_def bind_def ensure_own_namespace_def session_instance_def ret_def s accessing_healthy
        session_inv_def)
qed

interpretation filtered_session: session_store c
    "session_store_of c (instance_store c (healthy clock) (session_instance ns snap)) f"
    "session_inv snap" "session_view ns snap f" "session_held c" "\<lambda>k. rid_namespace k = ns" "StoreFailed ForeignNamespace"
  for c clock ns snap f
proof
  fix s assume inv: "session_inv snap s"
  then have snap: "tables_ok snap" by (simp add: session_inv_def)
  let ?st = "session_store_of c (instance_store c (healthy clock) (session_instance ns snap)) f"
  show "ordered (session_view ns snap f s)"
    unfolding session_view_def using ordered_filter ordered_namespace [OF snap] by blast
  show "rid_namespace (se_id e) = ns" if "e \<in> set (session_view ns snap f s)" for e
    using that by (simp add: session_view_def namespace_entries_filter)
  have rng: "rs_get_range ?st r s = (Inr (entries_in r (session_view ns snap f s)), s)"
    if "Ball (boundaries r) (\<lambda>k. rid_namespace k = ns)" for r
    using instance_range [OF snap, of r ns "healthy clock" s] that
    by (simp add: session_store_of_def instance_store_def session_get_range_def bind_def ret_def filtered_iter_def
        session_view_def entries_in_filter)
  then show "rs_get_range ?st r s = (Inr (entries_in r (session_view ns snap f s)), s)"
    if "Ball (boundaries r) (\<lambda>k. rid_namespace k = ns)" for r using that .
  show "rs_get_fingerprint ?st r s = (Inr (fingerprint_of c (entries_in r (session_view ns snap f s))), s)"
    if own: "Ball (boundaries r) (\<lambda>k. rid_namespace k = ns)" for r
  proof (cases f)
    case None
    then show ?thesis using instance_range [OF snap, of r ns "healthy clock" s] own
      by (simp add: session_store_of_def instance_store_def session_get_fingerprint_def instance_get_fingerprint_def
          bind_def ret_def session_view_def admitted_all)
  next
    case (Some admits)
    then show ?thesis using rng [OF own]
      by (simp add: session_store_of_def session_get_fingerprint_def bind_def ret_def)
  qed
  have refused: "rs_get_range ?st r s = (Inl (StoreFailed ForeignNamespace), s)"
    if "\<not> Ball (boundaries r) (\<lambda>k. rid_namespace k = ns)" for r
    using that instance_range_foreign [of _ r ns "healthy clock" snap s]
    by (auto simp: session_store_of_def instance_store_def session_get_range_def bind_def)
  then show "rs_get_range ?st r s = (Inl (StoreFailed ForeignNamespace), s)"
    if "\<not> Ball (boundaries r) (\<lambda>k. rid_namespace k = ns)" for r using that .
  show "rs_get_fingerprint ?st r s = (Inl (StoreFailed ForeignNamespace), s)"
    if "\<not> Ball (boundaries r) (\<lambda>k. rid_namespace k = ns)" for r
    using refused [OF that] that instance_range_foreign [of _ r ns "healthy clock" snap s]
    by (auto simp: session_store_of_def instance_store_def session_get_fingerprint_def instance_get_fingerprint_def
        session_get_range_def bind_def split: option.split)
  show "rs_get_first ?st s = (Inr (first_id (session_view ns snap f s)), s)"
  proof (cases f)
    case None
    then show ?thesis
      by (simp add: session_store_of_def instance_store_def session_get_first_def instance_get_first_def reading_def
          session_instance_def bind_def ret_def session_view_def admitted_all first_id_record)
  next
    case (Some admits)
    have "admitted f = admits" by (simp add: Some admitted_def fun_eq_iff)
    then show ?thesis using instance_range [OF snap, of "Range rid_default rid_default" ns "healthy clock" s] Some
      by (simp add: session_store_of_def instance_store_def session_get_first_def bind_def ret_def session_view_def
          boundaries_def is_all_def first_id_find)
  qed
  show "\<exists>s'. rs_entry_get ?st k s = (Inr (session_held c s k), s') \<and> session_inv snap s' \<and>
      session_view ns snap f s' = session_view ns snap f s \<and> session_held c s' = session_held c s"
    if "rid_namespace k = ns" for k
    using entry_get_live [OF inv that, of c clock] by (simp add: session_store_of_def instance_store_def session_view_def)
  show "\<exists>s'. rs_entry_put ?st e s = (Inr (), s') \<and> session_inv snap s' \<and>
      session_view ns snap f s' = session_view ns snap f s \<and> session_held c s' = (session_held c s)(se_id e \<mapsto> e)"
    if "rid_namespace (se_id e) = ns" for e
    using entry_put_live [OF inv that, of clock c] by (simp add: session_store_of_def instance_store_def session_view_def)
qed

end
