(* ===== verification/Replica.thy ===== *)
theory Replica
  imports Store_Instance
begin

text \<open>
  The replica of one namespace, \<open>Replica\<close> and \<open>ReplicaInfo\<close> of \<^verbatim>\<open>crates/pdn-store/src/sync.rs\<close>: inserting and
  deleting an author's entry, and the two steps of a sync session, its first message and the processing
  of the peer's messages.

  The state is the live store with the events sent to the replica's subscribers so far. The times the
  code reads from the system clock are arguments.
\<close>

declare split_paired_All [simp del] split_paired_Ex [simp del]

subsection \<open>Replicas\<close>

datatype Event =
    LocalInsert NamespaceId SignedEntry
  | RemoteInsert NamespaceId SignedEntry PeerIdBytes ContentStatus
  | Lagged NamespaceId

fun lagged :: "Event \<Rightarrow> Event" where
  "lagged (LocalInsert namespace entry) = Lagged namespace"
| "lagged (RemoteInsert namespace entry peer status) = Lagged namespace"
| "lagged (Lagged namespace) = Lagged namespace"

record ReplicaInfo =
  ri_capability :: Capability
  ri_content_status :: "(Hash \<Rightarrow> ContentStatus) option"
  ri_closed :: bool

definition replica_info_new :: "Capability \<Rightarrow> ReplicaInfo" where
  "replica_info_new capability = \<lparr>ri_capability = capability, ri_content_status = None, ri_closed = False\<rparr>"

definition set_content_status_callback :: "(Hash \<Rightarrow> ContentStatus) \<Rightarrow> ReplicaInfo \<Rightarrow> bool \<times> ReplicaInfo" where
  "set_content_status_callback cb info =
     (if ri_content_status info \<noteq> None then (False, info)
      else (True, info\<lparr>ri_content_status := Some cb\<rparr>))"

datatype InsertError =
    StoreProblem "StoreError RangerError"
  | Validation ValidationFailure
  | NewerEntryExists
  | EntryIsEmpty
  | ReplicaClosed

definition ensure_open :: "ReplicaInfo \<Rightarrow> ('s, InsertError, unit) exec" where
  "ensure_open info = (if ri_closed info then fail ReplicaClosed else ret ())"

record SyncOutcome =
  so_heads_received :: AuthorHeads
  so_num_recv :: nat
  so_num_sent :: nat
  so_snapshot_writes :: nat

definition sync_outcome_default :: SyncOutcome where
  "sync_outcome_default = \<lparr>so_heads_received = [], so_num_recv = 0, so_num_sent = 0, so_snapshot_writes = 0\<rparr>"

type_synonym replica = "live \<times> Event list"

definition on_live :: "(live, StoreError RangerError, 'a) exec \<Rightarrow> (replica, InsertError, 'a) exec" where
  "on_live m s =
     (case m (fst s) of (Inl e, s1) \<Rightarrow> (Inl (StoreProblem e), (s1, snd s)) | (Inr a, s1) \<Rightarrow> (Inr a, (s1, snd s)))"

definition send_event :: "Event \<Rightarrow> (replica, InsertError, unit) exec" where
  "send_event event s = (Inr (), (fst s, snd s @ [event]))"

definition replica_id :: "('x) crypto_scheme \<Rightarrow> ReplicaInfo \<Rightarrow> NamespaceId" where
  "replica_id c info = capability_id c (ri_capability info)"

fun insert_event :: "NamespaceId \<Rightarrow> SignedEntry \<Rightarrow> InsertOrigin \<Rightarrow> Event" where
  "insert_event namespace entry Local = LocalInsert namespace entry"
| "insert_event namespace entry (FromPeer peer status) = RemoteInsert namespace entry peer status"

definition insert_entry ::
    "'x store_crypto_scheme \<Rightarrow> environment \<Rightarrow> StoreInstance \<Rightarrow> ReplicaInfo \<Rightarrow> 64 word \<Rightarrow> SignedEntry \<Rightarrow> InsertOrigin \<Rightarrow>
      (replica, InsertError, nat) exec" where
  "insert_entry c env inst info now entry origin =
     (case validate_entry c now (replica_id c info) entry origin None of
        Inl failure \<Rightarrow> fail (Validation failure)
      | Inr _ \<Rightarrow>
          bind (on_live (put (instance_store c env inst) entry)) (\<lambda>outcome.
          case outcome of
            NotInserted \<Rightarrow> fail NewerEntryExists
          | Inserted removed \<Rightarrow>
              bind (send_event (insert_event (replica_id c info) entry origin)) (\<lambda>_. ret removed)))"

definition sign_entry :: "('x) crypto_scheme \<Rightarrow> ReplicaInfo \<Rightarrow> Author \<Rightarrow> bytes \<Rightarrow> Record \<Rightarrow> SignedEntry" where
  "sign_entry c info author key record =
     signed_from_entry c
       \<lparr>ent_id = RecordIdentifier (replica_id c info) (author_id c author) key, ent_record = record\<rparr>
       (capability_secret_key (ri_capability info)) author"

definition replica_insert ::
    "'x store_crypto_scheme \<Rightarrow> environment \<Rightarrow> StoreInstance \<Rightarrow> ReplicaInfo \<Rightarrow> 64 word \<Rightarrow> 64 word \<Rightarrow> bytes \<Rightarrow> Author \<Rightarrow>
      Hash \<Rightarrow> 64 word \<Rightarrow> (replica, InsertError, nat) exec" where
  "replica_insert c env inst info stamped checked key author hash len =
     (if len = 0 \<or> hash = hash_EMPTY c then fail EntryIsEmpty
      else
        bind (ensure_open info) (\<lambda>_.
        insert_entry c env inst info checked
          (sign_entry c info author key \<lparr>rec_len = len, rec_hash = hash, rec_timestamp = stamped\<rparr>) Local))"

definition replica_delete ::
    "'x store_crypto_scheme \<Rightarrow> environment \<Rightarrow> StoreInstance \<Rightarrow> ReplicaInfo \<Rightarrow> 64 word \<Rightarrow> 64 word \<Rightarrow> bytes \<Rightarrow> Author \<Rightarrow>
      (replica, InsertError, nat) exec" where
  "replica_delete c env inst info stamped checked key author =
     bind (ensure_open info) (\<lambda>_.
     insert_entry c env inst info checked (sign_entry c info author key (record_empty c stamped)) Local)"

subsection \<open>Sync sessions\<close>

definition sync_initial_message ::
    "'x store_crypto_scheme \<Rightarrow> environment \<Rightarrow> StoreInstance \<Rightarrow> ReplicaInfo \<Rightarrow> EntryFilter option \<Rightarrow>
      (replica, InsertError, Message) exec" where
  "sync_initial_message c env inst info f =
     bind (ensure_open info) (\<lambda>_. on_live (initial_message (session_store_of c (instance_store c env inst) f)))"

definition session_validate ::
    "'x store_crypto_scheme \<Rightarrow> ReplicaInfo \<Rightarrow> 64 word \<Rightarrow> PeerIdBytes \<Rightarrow> SessionIngest option \<Rightarrow> validate_cb" where
  "session_validate c info now from_peer ingest entry status =
     (case validate_entry c now (replica_id c info) entry (FromPeer from_peer status) ingest of
        Inr _ \<Rightarrow> Accept
      | Inl _ \<Rightarrow> Drop)"

definition session_status :: "ReplicaInfo \<Rightarrow> content_status_cb" where
  "session_status info entry = (case ri_content_status info of Some cb \<Rightarrow> cb (se_hash entry) | None \<Rightarrow> Missing)"

text \<open>One round of a session: the state beside the replica's is the outcome the rounds accumulate.\<close>

definition sync_process_message ::
    "'x store_crypto_scheme \<Rightarrow> environment \<Rightarrow> StoreInstance \<Rightarrow> ReplicaInfo \<Rightarrow> 64 word \<Rightarrow> Message \<Rightarrow> PeerIdBytes \<Rightarrow>
      EntryFilter option \<Rightarrow> SessionIngest option \<Rightarrow>
      (replica \<times> SyncOutcome, InsertError, Message option) exec" where
  "sync_process_message c env inst info now message from_peer f ingest s =
     (if ri_closed info then (Inl ReplicaClosed, s)
      else
        let ((st, events), outcome) = s;
            received = outcome\<lparr>so_num_recv := so_num_recv outcome + value_count message\<rparr>;
            (r, (st', inserted)) =
              process_message c (session_store_of c (instance_store c env inst) f) default_config
                (session_validate c info now from_peer ingest) (session_status info) message (st, []);
            events' = events @ map (\<lambda>(e, status). RemoteInsert (replica_id c info) e from_peer status) inserted;
            taken = received\<lparr>so_heads_received :=
              fold (\<lambda>(e, status). heads_insert (se_author e) (se_timestamp e)) inserted (so_heads_received received)\<rparr>
        in case r of
             Inl e \<Rightarrow> (Inl (StoreProblem e), ((st', events'), taken))
           | Inr reply \<Rightarrow>
               (Inr reply, ((st', events'),
                  case reply of
                    None \<Rightarrow> taken
                  | Some m \<Rightarrow> taken\<lparr>so_num_sent := so_num_sent taken + value_count m\<rparr>)))"

subsection \<open>Sessions of two open replicas of one namespace\<close>

definition open_info :: "Capability \<Rightarrow> (Hash \<Rightarrow> ContentStatus) option \<Rightarrow> ReplicaInfo" where
  "open_info capability cb = \<lparr>ri_capability = capability, ri_content_status = cb, ri_closed = False\<rparr>"

lemma open_info_simps [simp]: "\<not> ri_closed (open_info capability cb)" "replica_id c (open_info capability cb) = capability_id c capability"
  by (simp_all add: open_info_def replica_id_def)

lemma validated_own: "session_validate c info now peer ingest e status = Accept \<Longrightarrow> se_namespace e = replica_id c info"
  by (simp add: session_validate_def validate_entry_def split: if_splits sum.splits)

lemma session_validate_own: "only_own (\<lambda>k. rid_namespace k = replica_id c info) (session_validate c info now peer ingest)"
  unfolding only_own_def using validated_own by blast

lemma processed_round:
  assumes "\<not> ri_closed info"
    and "process_message c (session_store_of c (instance_store c env inst) f) default_config
      (session_validate c info now peer ingest) (session_status info) m (fst (fst s), []) = (r, (s', log))"
  shows "fst (sync_process_message c env inst info now m peer f ingest s) = map_sum StoreProblem (\<lambda>x. x) r"
    "fst (fst (snd (sync_process_message c env inst info now m peer f ingest s))) = s'"
proof -
  obtain st events outcome where s: "s = ((st, events), outcome)" by (cases s) auto
  show "fst (sync_process_message c env inst info now m peer f ingest s) = map_sum StoreProblem (\<lambda>x. x) r"
    "fst (fst (snd (sync_process_message c env inst info now m peer f ingest s))) = s'"
    using assms by (auto simp: sync_process_message_def s Let_def split: sum.split option.split)
qed

interpretation replica_sessions: exchange c
    "\<lambda>s. session_store_of c (instance_store c (healthy (clock s)) (session_instance (capability_id c capability) (snap s))) (filt s)"
    "\<lambda>s. session_inv (snap s)" "\<lambda>s. session_view (capability_id c capability) (snap s) (filt s)" "\<lambda>s. session_held c"
    "\<lambda>k. rid_namespace k = capability_id c capability" "StoreFailed ForeignNamespace"
    "\<lambda>s. session_status (open_info capability (cb s))"
    "\<lambda>n s. session_validate c (open_info capability (cb s)) (now n s) (peer s) (ingest s)"
    "\<lambda>x. fst (fst x)"
    "\<lambda>n s m. sync_process_message c (healthy (clock s)) (session_instance (capability_id c capability) (snap s))
      (open_info capability (cb s)) (now n s) m (peer s) (filt s) (ingest s)"
  for c clock capability snap filt cb now peer ingest
proof
  fix side n m reply s' log and s :: "replica \<times> SyncOutcome"
  show "only_own (\<lambda>k. rid_namespace k = capability_id c capability)
      (session_validate c (open_info capability (cb side)) (now n side) (peer side) (ingest side))"
    using session_validate_own [of c "open_info capability (cb side)"] by simp
  assume "process_message c
      (session_store_of c (instance_store c (healthy (clock side)) (session_instance (capability_id c capability) (snap side))) (filt side))
      default_config (session_validate c (open_info capability (cb side)) (now n side) (peer side) (ingest side))
      (session_status (open_info capability (cb side))) m (fst (fst s), []) = (Inr reply, (s', log))"
  from processed_round [OF open_info_simps(1) this]
  show "fst (sync_process_message c (healthy (clock side)) (session_instance (capability_id c capability) (snap side))
      (open_info capability (cb side)) (now n side) m (peer side) (filt side) (ingest side) s) = Inr reply \<and>
    fst (fst (snd (sync_process_message c (healthy (clock side)) (session_instance (capability_id c capability) (snap side))
      (open_info capability (cb side)) (now n side) m (peer side) (filt side) (ingest side) s))) = s'" by simp
qed

end
