(* ===== verification/Ranger_Keeps.thy ===== *)
theory Ranger_Keeps
  imports Ranger
begin

text \<open>
  Invariants of the message processing: what the reads of a store and its writes of accepted entries keep
  true of the store's state, the processing of any message keeps, whether it succeeds or fails.
\<close>

named_theorems keeps_intros

definition keeps :: "('s \<Rightarrow> bool) \<Rightarrow> ('s, 'x, 'a) exec \<Rightarrow> bool" where
  "keeps P m \<longleftrightarrow> (\<forall>s. P s \<longrightarrow> P (snd (m s)))"

lemma keepsD: "keeps P m \<Longrightarrow> P s \<Longrightarrow> m s = (r, s') \<Longrightarrow> P s'"
  unfolding keeps_def by (metis snd_conv)

lemma keeps_ret [keeps_intros]: "keeps P (ret a)"
  by (simp add: keeps_def ret_def)

lemma keeps_fail [keeps_intros]: "keeps P (fail x)"
  by (simp add: keeps_def fail_def)

lemma keeps_bind [keeps_intros]: "keeps P m \<Longrightarrow> (\<And>a. keeps P (f a)) \<Longrightarrow> keeps P (bind m f)"
  by (auto simp: keeps_def bind_def split: prod.split sum.split)

lemma keeps_each [keeps_intros]: "(\<And>a. a \<in> set as \<Longrightarrow> keeps P (f a)) \<Longrightarrow> keeps P (each f as)"
proof (induction as)
  case (Cons a as)
  have "keeps P (f a)" "keeps P (each f as)" using Cons by simp_all
  then show ?case by (simp add: keeps_intros)
qed (simp add: keeps_ret)

lemma keeps_on_store [keeps_intros]: "keeps P m \<Longrightarrow> keeps (\<lambda>s. P (fst s)) (on_store m)"
  by (simp add: keeps_def on_store_def split_beta Let_def)

lemma keeps_if [keeps_intros]: "(b \<Longrightarrow> keeps P m) \<Longrightarrow> (\<not> b \<Longrightarrow> keeps P m') \<Longrightarrow> keeps P (if b then m else m')"
  by simp

text \<open>Reading and writing a store.\<close>

definition store_keeps :: "('s, 'e) range_store \<Rightarrow> ('s \<Rightarrow> bool) \<Rightarrow> (SignedEntry \<Rightarrow> bool) \<Rightarrow> bool" where
  "store_keeps st P ok \<longleftrightarrow>
     (\<forall>r. keeps P (rs_get_range st r)) \<and> (\<forall>r. keeps P (rs_get_fingerprint st r)) \<and> (\<forall>k. keeps P (rs_entry_get st k)) \<and>
     (\<forall>e. ok e \<longrightarrow> keeps P (rs_entry_put st e))"

lemma keeps_put: "store_keeps st P ok \<Longrightarrow> ok e \<Longrightarrow> keeps P (put st e)"
  unfolding put_def store_keeps_def by (intro keeps_intros) auto

lemma keeps_store_values:
  assumes "store_keeps st P ok" "\<And>e status. validate e status = Accept \<Longrightarrow> ok e"
  shows "keeps (\<lambda>s. P (fst s)) (store_values st validate vs)"
proof (induction vs)
  case (Cons v vs)
  have log: "keeps (\<lambda>s. P (fst s)) (\<lambda>(s, inserted). (Inr (), (s, if out = NotInserted then inserted else inserted @ [v])))"
    for out by (simp add: keeps_def split_beta)
  show ?case
  proof (cases "validate (fst v) (snd v)")
    case Accept
    have "keeps (\<lambda>s. P (fst s)) (on_store (put st (fst v)))"
      by (intro keeps_on_store keeps_put [OF assms(1) assms(2) [OF Accept]])
    then show ?thesis unfolding store_values.simps Accept ValidateOutcome.case
      by (intro keeps_bind log Cons)
  qed (simp add: Cons)
qed (simp add: keeps_ret)

lemma keeps_process_part:
  assumes "store_keeps st P ok" "\<And>e status. validate e status = Accept \<Longrightarrow> ok e"
  shows "keeps (\<lambda>s. P (fst s)) (process_part c st config validate status p)"
proof -
  have reads: "keeps P (rs_get_range st r)" "keeps P (rs_get_fingerprint st r)" for r
    using assms(1) by (simp_all add: store_keeps_def)
  have "keeps P (pivot st config r n start i)" for r n start i
    unfolding pivot_def Let_def by (intro keeps_intros reads)
  then have pivots: "keeps P (pivot_ranges st config r n start is)" "keeps P (pivot st config r n start i)" for r n start "is" i
    unfolding pivot_ranges_def by (auto intro!: keeps_intros)
  have "keeps P (split_range st config r n)" for r n
    unfolding split_range_def Let_def by (intro keeps_intros reads pivots)
  moreover have "keeps P (chunk_part st config status r)" for r
    unfolding chunk_part_def by (intro keeps_intros reads)
  ultimately have "keeps P (process_fingerprint c st config status r fp)" for r fp
    unfolding process_fingerprint_def get_range_len_def by (intro keeps_intros reads) auto
  moreover have "keeps (\<lambda>s. P (fst s)) (process_item st validate status r vs have_local)" for r vs have_local
    unfolding process_item_def by (intro keeps_intros reads keeps_store_values [OF assms])
  ultimately show ?thesis by (cases p) (simp_all add: keeps_intros)
qed

lemma keeps_process_message:
  assumes "store_keeps st P ok" "\<And>e status. validate e status = Accept \<Longrightarrow> ok e"
  shows "keeps (\<lambda>s. P (fst s)) (process_message c st config validate status m)"
  unfolding process_message_def by (intro keeps_intros keeps_process_part [OF assms])

end
