(* ===== verification/Replica_Claims.thy ===== *)
theory Replica_Claims
  imports Replica Ranger_Keeps
begin

text \<open>
  The properties of a replica and its sessions: what a session serves and to whom it depends on, that two
  sessions exchange everything they serve, that whatever a replica holds was signed for it, and the
  outcomes of inserting and deleting.
\<close>

declare split_paired_All [simp del] split_paired_Ex [simp del]

subsection \<open>What a session answers\<close>

definition served :: "NamespaceId \<Rightarrow> Tables \<Rightarrow> EntryFilter option \<Rightarrow> SignedEntry list" where
  "served ns snap f = filter (admitted f) (namespace_entries ns snap)"

lemma session_view_served: "session_view ns snap f s = served ns snap f"
  by (simp add: session_view_def served_def)

lemma initial_served:
  assumes "session_inv snap (fst s)" "\<not> ri_closed info"
  shows "sync_initial_message c (healthy clock) (session_instance ns snap) info f s = (Inr [opening_part c (served ns snap f)], s)"
  using filtered_session.initial [OF assms(1), of c clock ns f] assms(2)
  by (cases s) (simp add: sync_initial_message_def ensure_open_def on_live_def bind_def ret_def session_view_served)

text \<open>
  C28: a session's first message and its answer to any message of the peer are functions of the entries
  its filter admits in its snapshot, and of their content status: no other entry of the replica, of
  another replica or written since has any influence on what is sent. A message that asks for a range
  with a boundary outside the namespace is refused whole.
\<close>

theorem session_reveals_admitted:
  assumes "tables_ok snap" "store_inv (fst (fst (fst s)))" "\<not> ri_closed info" "replica_id c info = ns"
  shows "fst (sync_initial_message c (healthy clock) (session_instance ns snap) info f (fst s)) =
      Inr [opening_part c (served ns snap f)] \<and>
    fst (sync_process_message c (healthy clock) (session_instance ns snap) info now m peer f ingest s) =
      (if list_all (readable (\<lambda>k. rid_namespace k = ns)) m
       then Inr (let reply = answers c (session_status info) (served ns snap f) m in if reply = [] then None else Some reply)
       else Inl (StoreProblem (StoreFailed ForeignNamespace)))"
proof -
  have inv: "session_inv snap (fst (fst s))" using assms(1,2) by (simp add: session_inv_def)
  obtain r s' log where p: "process_message c (session_store_of c (instance_store c (healthy clock) (session_instance ns snap)) f)
      default_config (session_validate c info now peer ingest) (session_status info) m (fst (fst s), []) = (r, (s', log))"
    by (metis prod.collapse)
  have "only_own (\<lambda>k. rid_namespace k = ns) (session_validate c info now peer ingest)"
    using session_validate_own [of c info] assms(4) by simp
  from filtered_session.message_answer [OF inv this, of c clock f "session_status info" m "[]"] p
  have "r = (if list_all (readable (\<lambda>k. rid_namespace k = ns)) m
      then Inr (if answers c (session_status info) (served ns snap f) m = [] then None
        else Some (answers c (session_status info) (served ns snap f) m))
      else Inl (StoreFailed ForeignNamespace))"
    by (simp add: session_view_served)
  then show ?thesis
    using processed_round(1) [OF assms(3) p] initial_served [OF _ assms(3), of snap "fst s" c clock ns f] inv
    by (simp add: Let_def)
qed

text \<open>
  C27: two sessions on replicas of one namespace, each over the entries its filter admits in its snapshot,
  end after at most as many rounds as they serve entries, and three. Then each side holds, for every entry
  the other served and it validates, that entry or a newer one at its key; and it holds nothing it did not
  hold before but entries the other side's filter admitted and that it validated.
\<close>

theorem sessions_exchange_served:
  fixes S :: "Side \<Rightarrow> replica \<times> SyncOutcome" and c :: "'x store_crypto_scheme" and capability snap filt cb now peer ingest
  defines "V \<equiv> \<lambda>s. served (capability_id c capability) (snap s) (filt s)"
    and "held \<equiv> \<lambda>(x :: replica \<times> SyncOutcome). session_held c (fst (fst x))"
    and "valid \<equiv> \<lambda>n s. session_validate c (open_info capability (cb s)) (now n s) (peer s) (ingest s)"
  assumes inv: "\<And>s. tables_ok (snap s)" "\<And>s. store_inv (fst (fst (fst (S s))))"
    and kept: "\<And>s e. e \<in> set (V s) \<Longrightarrow> holds_newer (held (S s)) e"
    and tell: "fingerprints_tell c (V Dialer) (V Acceptor)"
    and rounds: "length (V Dialer) + length (V Acceptor) + 3 \<le> n"
  shows "\<exists>msg S'. sync_initial_message c (healthy (clock Dialer)) (session_instance (capability_id c capability) (snap Dialer))
        (open_info capability (cb Dialer)) (filt Dialer) (fst (S Dialer)) = (Inr msg, fst (S Dialer)) \<and>
    dialog (\<lambda>n s m. sync_process_message c (healthy (clock s)) (session_instance (capability_id c capability) (snap s))
        (open_info capability (cb s)) (now n s) m (peer s) (filt s) (ingest s)) n Acceptor msg S = (Some (Inr ()), S') \<and>
    (\<forall>s e. e \<in> set (V (other_side s)) \<longrightarrow> (\<forall>n x. valid n s e x = Accept) \<longrightarrow> holds_newer (held (S' s)) e) \<and>
    (\<forall>s k e. held (S' s) k = Some e \<longrightarrow> held (S s) k = Some e \<or>
       e \<in> set (V (other_side s)) \<and> (\<exists>n x. valid n s e x = Accept))"
proof -
  have si: "\<And>s. session_inv (snap s) (fst (fst (S s)))" using inv by (simp add: session_inv_def)
  note settle = replica_sessions.exchange_settles [where S = S and snap = snap and filt = filt and c = c and
      capability = capability and clock = clock and cb = cb and now = now and peer = peer and ingest = ingest and n = n,
      unfolded session_view_served, OF si _ _ rounds [unfolded V_def]]
  show ?thesis
    using settle kept tell initial_served [of "snap Dialer" "fst (S Dialer)" "open_info capability (cb Dialer)" c "clock Dialer"
        "capability_id c capability" "filt Dialer"] si
    by (simp add: V_def held_def valid_def)
qed

subsection \<open>Entries a replica holds are sound\<close>

definition entry_sound :: "'x store_crypto_scheme \<Rightarrow> NamespaceId \<Rightarrow> SignedEntry \<Rightarrow> bool" where
  "entry_sound c ns e \<longleftrightarrow> se_namespace e = ns \<and> length (se_key e) \<le> MAX_KEY_BYTES \<and>
     validate_empty c (se_entry e) = Inr () \<and> signed_verify c e = Inr ()"

definition tables_sound :: "'x store_crypto_scheme \<Rightarrow> NamespaceId \<Rightarrow> Tables \<Rightarrow> bool" where
  "tables_sound c ns t \<longleftrightarrow> (\<forall>e\<in>set (namespace_entries ns t). entry_sound c ns e)"

definition replica_sound :: "'x store_crypto_scheme \<Rightarrow> NamespaceId \<Rightarrow> live \<Rightarrow> bool" where
  "replica_sound c ns x \<longleftrightarrow> store_inv (fst x) \<and> (\<forall>t\<in>contents (fst x). tables_sound c ns t)"

text \<open>
  A step of the replica of a namespace: an operation of it in any environment and at any time, with any
  message of a peer, a flush or a snapshot, or a restart.
\<close>

inductive replica_step :: "'x store_crypto_scheme \<Rightarrow> NamespaceId \<Rightarrow> live \<Rightarrow> live \<Rightarrow> bool" for c ns where
  inserted: "si_namespace inst = ns \<Longrightarrow> replica_id c info = ns \<Longrightarrow>
    replica_step c ns x (fst (snd (replica_insert c env inst info stamped checked key author hash len (x, events))))"
| deleted: "si_namespace inst = ns \<Longrightarrow> replica_id c info = ns \<Longrightarrow>
    replica_step c ns x (fst (snd (replica_delete c env inst info stamped checked key author (x, events))))"
| synced: "si_namespace inst = ns \<Longrightarrow> replica_id c info = ns \<Longrightarrow>
    replica_step c ns x (fst (fst (snd (sync_process_message c env inst info now m peer f ingest ((x, events), outcome)))))"
| flushed_to_disk: "replica_step c ns x (snd (flush io now (fst x)), n)"
| session_opened: "replica_step c ns x (snd (snapshot_owned io now (fst x)), n)"
| started_again: "replica_step c ns x (new_store (st_disk (fst x)), n)"

lemma entry_row: "(rid_tuple (se_id (into_entry row)), entry_value (into_entry row)) = row"
  by (cases row rule: into_entry.cases) (simp add: rid_tuple_def entry_value_def)

lemma entry_of_rows: "e \<in> into_entry ` rows \<longleftrightarrow> (rid_tuple (se_id e), entry_value e) \<in> rows"
proof
  assume "e \<in> into_entry ` rows"
  then obtain row where row: "row \<in> rows" "e = into_entry row" by (rule imageE)
  show "(rid_tuple (se_id e), entry_value e) \<in> rows" unfolding row(2) entry_row by (rule row(1))
next
  assume row: "(rid_tuple (se_id e), entry_value e) \<in> rows"
  show "e \<in> into_entry ` rows" using imageI [OF row, of into_entry] by (simp only: into_entry_value)
qed

lemma namespace_entry:
  assumes "tbl_ok (tb_records t)"
  shows "e \<in> set (namespace_entries ns t) \<longleftrightarrow> se_namespace e = ns \<and> map_of (tb_records t) (rid_tuple (se_id e)) = Some (entry_value e)"
proof -
  have "e \<in> set (namespace_entries ns t) \<longleftrightarrow> e \<in> into_entry ` set (tb_records t) \<and> se_namespace e = ns"
    by (simp only: namespace_entries_filter set_filter list.set_map mem_Collect_eq)
  then show ?thesis unfolding entry_of_rows tbl_row [OF assms] by (simp only: conj_commute)
qed

lemma tables_sound_put:
  assumes "tables_ok t" "tables_sound c ns t" "entry_sound c ns e"
  shows "tables_sound c ns (entry_put_tables e t)"
  unfolding tables_sound_def
proof
  fix e' assume e': "e' \<in> set (namespace_entries ns (entry_put_tables e t))"
  have tk: "tbl_ok (tb_records t)" "tbl_ok (tb_records (entry_put_tables e t))"
    using assms(1) tables_ok_entry [OF assms(1)] by (simp_all add: tables_ok_def)
  show "entry_sound c ns e'"
  proof (cases "se_id e' = se_id e")
    case True
    then have "entry_value e' = entry_value e" using e' tk by (simp add: namespace_entry records_put)
    then have "e' = e" using True into_entry_value by metis
    then show ?thesis using assms(3) by simp
  next
    case False
    then have "e' \<in> set (namespace_entries ns t)" using e' tk by (simp add: namespace_entry records_put rid_eq_tuple)
    then show ?thesis using assms(2) by (simp add: tables_sound_def)
  qed
qed

lemma sound_contents:
  "replica_sound c ns x \<Longrightarrow> store_inv st \<Longrightarrow> contents st \<subseteq> contents (fst x) \<Longrightarrow> replica_sound c ns (st, n)"
  by (auto simp: replica_sound_def)

lemma keeps_accessing:
  assumes "\<And>io now s. P s \<Longrightarrow> P (snd (g io now s))"
  shows "keeps (\<lambda>x. P (fst x)) (accessing env g)"
  unfolding keeps_def accessing_def
proof (intro allI impI)
  fix s :: live assume "P (fst s)"
  then have "P (snd (g (fst (env (snd s))) (snd (env (snd s))) (fst s)))" by (rule assms)
  then show "P (fst (snd (case g (fst (env (snd s))) (snd (env (snd s))) (fst s) of
      (Inl e, s1) \<Rightarrow> (Inl (StoreFailed e), s1, Suc (snd s)) | (Inr a, s1) \<Rightarrow> (Inr a, s1, Suc (snd s)))))"
    by (auto split: prod.split sum.split)
qed

abbreviation store_sound :: "'x store_crypto_scheme \<Rightarrow> NamespaceId \<Rightarrow> Store \<Rightarrow> bool" where
  "store_sound c ns st \<equiv> store_inv st \<and> (\<forall>t\<in>contents st. tables_sound c ns t)"

lemma read_sound: "store_sound c ns st \<Longrightarrow> store_sound c ns (snd (read_tables io now st))"
  using read_inv [of st io now] read_tables_contents [of st io now] by (metis prod.collapse store_inv_def subset_iff)

lemma put_sound:
  assumes "store_sound c ns st" "entry_sound c ns e"
  shows "store_sound c ns (snd (modify io now (\<lambda>t. (Inr () :: StoreError + unit, entry_put_tables e t)) st))"
proof -
  let ?f = "\<lambda>t. (Inr () :: StoreError + unit, entry_put_tables e t)"
  have live: "tables_ok (live_tables st)" "tables_sound c ns (live_tables st)"
    using assms(1) by (auto simp: store_inv_def contents_def)
  have "contents (snd (modify io now ?f st)) \<subseteq> insert (entry_put_tables e (live_tables st)) (contents st)"
    using modify_contents [of st io now ?f] assms(1) by (metis prod.collapse snd_conv store_inv_def)
  then show ?thesis
    using modify_inv [of st ?f io now] assms(1) tables_ok_entry tables_sound_put [OF live assms(2)] by auto
qed

lemma instance_store_sound:
  assumes "si_namespace inst = ns"
  shows "store_keeps (instance_store c env inst) (replica_sound c ns) (entry_sound c ns)"
proof -
  have eq: "replica_sound c ns = (\<lambda>x. store_sound c ns (fst x))" by (simp add: fun_eq_iff replica_sound_def)
  have reading: "keeps (replica_sound c ns) (reading env inst)"
    unfolding reading_def eq by (auto split: option.split intro!: keeps_intros keeps_accessing read_sound)
  have rng: "keeps (replica_sound c ns) (instance_get_range env inst r)" for r
    unfolding instance_get_range_def by (auto simp: Let_def split: prod.split intro!: keeps_intros reading)
  have exact: "snd (get_exact c io now k1 k2 k3 b s) = snd (read_tables io now s)" for io now k1 k2 k3 b s
    by (simp add: get_exact_def split: prod.split sum.split)
  have get: "keeps (replica_sound c ns) (instance_entry_get c env inst k)" for k
    unfolding instance_entry_get_def ensure_own_namespace_def eq
    by (intro keeps_intros keeps_accessing) (unfold exact, erule read_sound)
  have put: "keeps (replica_sound c ns) (instance_entry_put env inst e)" if "entry_sound c ns e" for e
    unfolding instance_entry_put_def ensure_own_namespace_def eq
    by (intro keeps_intros keeps_accessing put_sound [OF _ that]) (auto simp: keeps_def)
  show ?thesis using rng get put
    by (auto simp: store_keeps_def instance_store_def instance_get_fingerprint_def intro!: keeps_intros)
qed

lemma session_store_sound:
  assumes "si_namespace inst = ns"
  shows "store_keeps (session_store_of c (instance_store c env inst) f) (replica_sound c ns) (entry_sound c ns)"
proof -
  let ?in = "instance_store c env inst"
  have inner: "keeps (replica_sound c ns) (rs_get_range ?in r)" "keeps (replica_sound c ns) (rs_get_fingerprint ?in r)" for r
    using instance_store_sound [OF assms, of c env] by (simp_all add: store_keeps_def)
  have rng: "keeps (replica_sound c ns) (session_get_range ?in f r)" for f r
    unfolding session_get_range_def by (intro keeps_intros inner)
  have print: "keeps (replica_sound c ns) (session_get_fingerprint c ?in f r)" for r
    unfolding session_get_fingerprint_def by (cases f) (auto intro!: keeps_intros rng inner)
  show ?thesis using instance_store_sound [OF assms, of c env] rng print
    by (simp add: store_keeps_def session_store_of_def)
qed

lemma accepted_sound:
  "session_validate c info now peer ingest e status = Accept \<Longrightarrow> entry_sound c (replica_id c info) e"
  by (auto simp: session_validate_def validate_entry_def entry_sound_def split: if_splits sum.splits)

lemma local_sound:
  assumes "sign_correct (crypto.truncate c)" "validate_entry c now (replica_id c info) (sign_entry c info author key r) Local None = Inr v"
  shows "entry_sound c (replica_id c info) (sign_entry c info author key r)"
proof -
  have "signed_verify c (sign_entry c info author key r) = Inr ()"
    using assms(1) by (cases "ri_capability info")
      (simp add: signed_verify_def sign_entry_def signed_from_entry_def signature_from_entry_def signature_verify_def Let_def
        sign_correct_def crypto.truncate_def replica_id_def author_id_def namespace_id_def)
  then show ?thesis using assms(2) by (auto simp: validate_entry_def entry_sound_def split: if_splits sum.splits)
qed

lemma keeps_on_live: "keeps P m \<Longrightarrow> keeps (\<lambda>s. P (fst s)) (on_live m)"
  by (auto simp: keeps_def on_live_def split: prod.split sum.split)

lemma insert_entry_sound:
  assumes "sign_correct (crypto.truncate c)" "si_namespace inst = replica_id c info"
  shows "keeps (\<lambda>s. replica_sound c (replica_id c info) (fst s))
    (insert_entry c env inst info now (sign_entry c info author key r) Local)"
proof (cases "validate_entry c now (replica_id c info) (sign_entry c info author key r) Local None")
  case (Inl failure)
  then show ?thesis by (simp add: insert_entry_def keeps_intros)
next
  case (Inr v)
  have "entry_sound c (replica_id c info) (sign_entry c info author key r)" using local_sound [OF assms(1) Inr] .
  then have put: "keeps (\<lambda>s. replica_sound c (replica_id c info) (fst s))
      (on_live (put (instance_store c env inst) (sign_entry c info author key r)))"
    by (intro keeps_on_live keeps_put [OF instance_store_sound [OF assms(2)]])
  have event: "keeps (\<lambda>s. replica_sound c (replica_id c info) (fst s)) (send_event ev)" for ev
    by (simp add: keeps_def send_event_def)
  show ?thesis unfolding insert_entry_def Inr
    by (auto intro!: keeps_intros put event split: InsertOutcome.split)
qed

lemma replica_step_sound:
  assumes "sign_correct (crypto.truncate c)" "replica_step c ns x x'" "replica_sound c ns x"
  shows "replica_sound c ns x'"
  using assms(2)
proof cases
  case (inserted inst info env stamped checked key author hash len events)
  have "keeps (\<lambda>s. replica_sound c ns (fst s)) (replica_insert c env inst info stamped checked key author hash len)"
    using insert_entry_sound [OF assms(1), of inst info] inserted
    by (auto simp: replica_insert_def ensure_open_def intro!: keeps_intros)
  then show ?thesis using assms(3) inserted(1) by (simp add: keeps_def)
next
  case (deleted inst info env stamped checked key author events)
  have "keeps (\<lambda>s. replica_sound c ns (fst s)) (replica_delete c env inst info stamped checked key author)"
    using insert_entry_sound [OF assms(1), of inst info] deleted
    by (auto simp: replica_delete_def ensure_open_def intro!: keeps_intros)
  then show ?thesis using assms(3) deleted(1) by (simp add: keeps_def)
next
  case (synced inst info env now m peer f ingest events outcome)
  have valid: "\<And>e status. session_validate c info now peer ingest e status = Accept \<Longrightarrow> entry_sound c ns e"
    using accepted_sound synced(3) by blast
  obtain r s' log where p: "process_message c (session_store_of c (instance_store c env inst) f)
      default_config (session_validate c info now peer ingest) (session_status info) m (x, []) = (r, (s', log))"
    by (metis prod.collapse)
  have "replica_sound c ns s'"
    using keepsD [OF keeps_process_message [OF session_store_sound [OF synced(2)] valid] _ p] assms(3) by simp
  then show ?thesis
    using processed_round(2) [of info c env inst f now peer ingest m "((x, events), outcome)"] p synced(1) assms(3)
    by (cases "ri_closed info") (simp_all add: sync_process_message_def)
next
  case (flushed_to_disk io now n)
  obtain r s' where f: "flush io now (fst x) = (r, s')" by (metis prod.collapse)
  then show ?thesis
    using assms(3) flushed_to_disk flush_contents [OF f] flush_live(1) [OF _ f]
    by (auto simp: replica_sound_def store_inv_def)
next
  case (session_opened io now n)
  obtain r s' where f: "snapshot_owned io now (fst x) = (r, s')" by (metis prod.collapse)
  then show ?thesis
    using assms(3) session_opened snapshot_owned_contents [OF f] snapshot_owned_live(1) [OF _ f]
    by (auto simp: replica_sound_def store_inv_def)
next
  case (started_again n)
  have "contents (new_store (st_disk (fst x))) = {st_disk (fst x)}" by (simp add: contents_def new_store_def live_tables_def)
  then show ?thesis using assms(3) started_again by (simp add: replica_sound_def store_inv_def contents_def)
qed

text \<open>
  C29: whatever a replica holds at any time was signed for it: starting empty, after any sequence of
  inserts, deletes, messages of any peer, flushes, snapshots and restarts, in any environment and with any
  outcome of the commits, every entry of the replica is of its namespace, carries a valid signature of its
  author and of the namespace, has a key within the limit and is empty exactly when its length says so.
\<close>

theorem held_entries_sound:
  assumes "sign_correct (crypto.truncate c)" "(replica_step c ns)\<^sup>*\<^sup>* (new_store empty_tables, n) x"
    and "e \<in> set (namespace_entries ns (live_tables (fst x)))"
  shows "entry_sound c ns e"
proof -
  have "replica_sound c ns x" using assms(2)
  proof (induction rule: rtranclp_induct)
    case base
    then show ?case
      by (auto simp: replica_sound_def store_inv_def contents_def tables_ok_empty tables_sound_def namespace_entries_filter) (simp_all add: new_store_def empty_tables_def tables_ok_empty [unfolded empty_tables_def])
  next
    case (step y z)
    then show ?case using replica_step_sound [OF assms(1)] by blast
  qed
  then show ?thesis using assms(3) by (auto simp: replica_sound_def tables_sound_def contents_def)
qed

subsection \<open>The outcomes of inserting and deleting\<close>

lemma live_put:
  assumes "store_inv (fst x)" "se_namespace e = si_namespace inst"
  shows "\<exists>x' out. put (instance_store c (healthy clock) inst) e x = (Inr out, x') \<and> store_inv (fst x') \<and>
    session_held c x' = take_over e (session_held c x) \<and>
    out = (if holds_newer (session_held c x) e then NotInserted else Inserted (if session_held c x (se_id e) = None then 0 else 1))"
proof -
  let ?st = "session_store_of c (instance_store c (healthy clock) (session_instance (si_namespace inst) empty_tables)) None"
  have "rs_entry_get (instance_store c (healthy clock) inst) = rs_entry_get ?st"
    "rs_entry_put (instance_store c (healthy clock) inst) = rs_entry_put ?st"
    by (simp_all add: fun_eq_iff instance_store_def session_store_of_def instance_entry_get_def instance_entry_put_def
        ensure_own_namespace_def session_instance_def)
  then have "put (instance_store c (healthy clock) inst) e = put ?st e" by (simp only: put_def)
  moreover have "session_inv empty_tables x" using assms(1) tables_ok_empty by (simp add: session_inv_def)
  ultimately show ?thesis
    using filtered_session.put_takes_over [of empty_tables x e "si_namespace inst" c clock None] assms(2)
    by (auto simp: session_inv_def)
qed

text \<open>What validation leaves of a local entry: the length of its key and its time.\<close>

definition local_refusal :: "64 word \<Rightarrow> bytes \<Rightarrow> 64 word \<Rightarrow> ValidationFailure option" where
  "local_refusal now key stamped =
     (if MAX_KEY_BYTES < length key then Some KeyTooLong
      else if now + MAX_TIMESTAMP_FUTURE_SHIFT < stamped then Some TooFarInTheFuture else None)"

lemma signed_fields [simp]:
  "se_id (sign_entry c info author key r) = RecordIdentifier (replica_id c info) (author_id c author) key"
  "se_record (sign_entry c info author key r) = r"
  by (simp_all add: sign_entry_def signed_from_entry_def)

lemma local_validation:
  assumes "(rec_hash r = hash_EMPTY c) = (rec_len r = 0)"
  shows "validate_entry c now (replica_id c info) (sign_entry c info author key r) Local None =
    (case local_refusal now key (rec_timestamp r) of Some failure \<Rightarrow> Inl failure | None \<Rightarrow> Inr ())"
  using assms by (simp add: validate_entry_def validate_empty_def local_refusal_def)

lemma insert_local:
  fixes author key r s and c :: "'x store_crypto_scheme" and info
  assumes "store_inv (fst (fst s))" "si_namespace inst = replica_id c info" "(rec_hash r = hash_EMPTY c) = (rec_len r = 0)"
  defines "e \<equiv> sign_entry c info author key r" and "h \<equiv> session_held c (fst s)"
  shows "\<exists>s'. insert_entry c (healthy clock) inst info now e Local s =
      (case local_refusal now key (rec_timestamp r) of
         Some failure \<Rightarrow> Inl (Validation failure)
       | None \<Rightarrow> if holds_newer h e then Inl NewerEntryExists else Inr (if h (se_id e) = None then 0 else 1), s') \<and>
    (if local_refusal now key (rec_timestamp r) \<noteq> None \<or> holds_newer h e
     then session_held c (fst s') = h \<and> snd s' = snd s
     else session_held c (fst s') = h(se_id e \<mapsto> e) \<and> snd s' = snd s @ [LocalInsert (replica_id c info) e])"
proof (cases "local_refusal now key (rec_timestamp r)")
  case None
  have "se_namespace e = si_namespace inst" using assms(2) by (simp add: e_def)
  from live_put [OF assms(1) this, of c clock] obtain x' out
    where p: "put (instance_store c (healthy clock) inst) e (fst s) = (Inr out, x')"
      "session_held c x' = take_over e h"
      "out = (if holds_newer h e then NotInserted else Inserted (if h (se_id e) = None then 0 else 1))"
    unfolding h_def by blast
  have "validate_entry c now (replica_id c info) e Local None = Inr ()"
    using local_validation [OF assms(3)] None by (simp add: e_def)
  then show ?thesis using p None
    by (cases "holds_newer h e")
      (simp_all add: insert_entry_def bind_def on_live_def fail_def send_event_def ret_def take_over_def)
next
  case (Some failure)
  have "validate_entry c now (replica_id c info) e Local None = Inl failure"
    using local_validation [OF assms(3)] Some by (simp add: e_def)
  then show ?thesis using Some by (simp add: insert_entry_def fail_def h_def)
qed



subsection \<open>A replica with one entry\<close>

definition demo_crypto :: store_crypto where
  "demo_crypto = \<lparr>public = (\<lambda>sk. sk + 1), sign = (\<lambda>sk m. ucast (sk + 1) + of_nat (length m)),
     valid_key = (\<lambda>k. True), verify = (\<lambda>k m s. s = ucast k + of_nat (length m)),
     derive_key = (\<lambda>ctx m n. m), blake3 = (\<lambda>bs. 1)\<rparr>"

definition demo_info :: ReplicaInfo where
  "demo_info = open_info (WriteCapability 0) None"

definition demo_entry :: SignedEntry where
  "demo_entry = sign_entry demo_crypto demo_info 1 [3] \<lparr>rec_len = 4, rec_hash = 5, rec_timestamp = 6\<rparr>"

definition demo_tables :: Tables where
  "demo_tables = entry_put_tables demo_entry empty_tables"

definition demo_replica :: "Tables \<Rightarrow> replica" where
  "demo_replica t = ((new_store t, 0), [])"

definition demo_instance :: StoreInstance where
  "demo_instance = \<lparr>si_namespace = 1, si_snapshot = None\<rparr>"

lemma demo_crypto_correct: "sign_correct (crypto.truncate demo_crypto)"
  by (simp add: sign_correct_def demo_crypto_def crypto.truncate_def)

lemma demo_id [simp]: "replica_id demo_crypto demo_info = 1" "namespace_id demo_crypto 0 = 1"
  "\<not> ri_closed demo_info" "author_id demo_crypto a = a + 1" "hash_EMPTY demo_crypto = 1" "ri_content_status demo_info = None"
  "blake3 demo_crypto bs = 1" "si_namespace demo_instance = 1"
  by (simp_all add: demo_info_def demo_crypto_def namespace_id_def author_id_def hash_EMPTY_def demo_instance_def)
    (simp add: open_info_def)

lemma demo_entry_simps [simp]: "se_id demo_entry = RecordIdentifier 1 2 [3]"
  "se_record demo_entry = \<lparr>rec_len = 4, rec_hash = 5, rec_timestamp = 6\<rparr>"
  by (simp_all add: demo_entry_def)

lemma demo_store [simp]: "tables_ok demo_tables" "store_inv (new_store demo_tables)" "store_inv (new_store empty_tables)"
  by (simp_all add: demo_tables_def tables_ok_empty tables_ok_entry store_inv_def contents_def) (simp_all add: new_store_def
    tables_ok_empty tables_ok_entry)

lemma demo_replica_simps [simp]: "fst (fst (demo_replica t)) = new_store t" "snd (demo_replica t) = []"
  by (simp_all add: demo_replica_def)

lemma demo_held: "session_held demo_crypto (fst (demo_replica t)) =
    (\<lambda>k. map_option (\<lambda>v. into_entry (rid_tuple k, v)) (map_of (tb_records t) (rid_tuple k)))"
  by (simp add: fun_eq_iff demo_replica_def held_simp)

lemma demo_records: "tb_records demo_tables = [((1, 2, [3]), entry_value demo_entry)]" "tb_records empty_tables = []"
  by (simp_all add: demo_tables_def entry_put_tables_def Let_def empty_tables_def)

lemma demo_rows: "namespace_entries 1 demo_tables = [demo_entry]" "namespace_entries 1 empty_tables = []"
proof -
  have "into_entry ((1, 2, [3]), entry_value demo_entry) = demo_entry"
    using into_entry_value [of demo_entry] by (simp add: rid_tuple_def)
  then show "namespace_entries 1 demo_tables = [demo_entry]" by (simp add: namespace_entries_filter demo_records)
  show "namespace_entries 1 empty_tables = []" by (simp add: namespace_entries_filter demo_records)
qed

lemma demo_held_entry: "session_held demo_crypto (fst (demo_replica demo_tables)) (RecordIdentifier 1 2 [3]) = Some demo_entry"
  using into_entry_value [of demo_entry] by (simp add: demo_held demo_records rid_tuple_def)


lemma held_listed:
  assumes "tables_ok (live_tables (fst x))" "session_held c x k = Some e"
  shows "e \<in> set (namespace_entries (rid_namespace k) (live_tables (fst x)))"
proof -
  obtain v where v: "map_of (tb_records (live_tables (fst x))) (rid_tuple k) = Some v" "e = into_entry (rid_tuple k, v)"
    using assms(2) by (auto simp: held_simp)
  have "rid_tuple (se_id e) = rid_tuple k" "entry_value e = v" using entry_row [of "(rid_tuple k, v)"] v(2) by simp_all
  then show ?thesis using v(1) assms(1) by (simp add: namespace_entry tables_ok_def rid_tuple_def)
qed

lemma demo_fresh: "\<not> holds_newer (session_held demo_crypto (fst (demo_replica empty_tables))) e"
  by (simp add: holds_newer_def demo_held demo_records)

lemma demo_insert: "local_refusal 6 [3] 6 = None"
  by (simp add: local_refusal_def MAX_KEY_BYTES_def MAX_TIMESTAMP_FUTURE_SHIFT_def)

theorem session_reveals_admitted_witness:
  "namespace_entries 1 demo_tables = [demo_entry] \<and>
   fst (sync_initial_message demo_crypto (healthy (\<lambda>_. 0)) (session_instance 1 demo_tables) demo_info (Some (\<lambda>_. False))
     (demo_replica demo_tables)) = Inr [opening_part demo_crypto []] \<and>
   fst (sync_process_message demo_crypto (healthy (\<lambda>_. 0)) (session_instance 1 demo_tables) demo_info 6
     [RangeItem (Range rid_default rid_default) [] False] 9 (Some (\<lambda>_. False)) None
     (demo_replica demo_tables, sync_outcome_default)) = Inr None"
  using session_reveals_admitted [of demo_tables "(demo_replica demo_tables, sync_outcome_default)" demo_info demo_crypto 1
      "\<lambda>_. 0" "Some (\<lambda>_. False)" 6 "[RangeItem (Range rid_default rid_default) [] False]" 9 None]
  by (simp add: demo_rows served_def admitted_def answers_def entries_in_def boundaries_def is_all_def)

definition demo_side :: "Side \<Rightarrow> Tables" where
  "demo_side s = (case s of Dialer \<Rightarrow> demo_tables | Acceptor \<Rightarrow> empty_tables)"

lemma demo_side_simps [simp]: "demo_side Dialer = demo_tables" "demo_side Acceptor = empty_tables" "tables_ok (demo_side s)"
  "store_inv (new_store (demo_side s))"
  by (simp_all add: demo_side_def tables_ok_empty split: Side.split)

lemma demo_served: "served 1 demo_tables None = [demo_entry]" "served 1 empty_tables None = []"
  "served 1 (demo_side s) None = (if s = Dialer then [demo_entry] else [])"
  by (cases s; simp add: served_def admitted_def demo_rows)+

lemma demo_tell: "fingerprints_tell demo_crypto [demo_entry] []"
  by (auto simp: fingerprints_tell_def entries_in_def fingerprint_of_def as_fingerprint_def fingerprint_empty_def)

lemma demo_valid: "session_validate demo_crypto demo_info 6 9 None demo_entry status = Accept"
proof -
  have "validate_entry demo_crypto 6 (replica_id demo_crypto demo_info) demo_entry Local None = Inr ()"
    unfolding demo_entry_def by (subst local_validation) (simp_all add: demo_insert)
  then have "signed_verify demo_crypto demo_entry = Inr ()"
    using local_sound [OF demo_crypto_correct] unfolding entry_sound_def demo_entry_def by blast
  then show ?thesis
    by (simp add: session_validate_def validate_entry_def validate_empty_def MAX_KEY_BYTES_def MAX_TIMESTAMP_FUTURE_SHIFT_def)
qed

theorem sessions_exchange_served_witness:
  "\<exists>msg S'. dialog (\<lambda>n s m. sync_process_message demo_crypto (healthy (\<lambda>_. 0)) (session_instance 1 (demo_side s)) demo_info 6 m 9 None None)
       4 Acceptor msg (\<lambda>s. (demo_replica (demo_side s), sync_outcome_default)) = (Some (Inr ()), S') \<and>
     holds_newer (session_held demo_crypto (fst (fst (S' Acceptor)))) demo_entry"
proof -
  have kept: "holds_newer (session_held demo_crypto (fst (demo_replica (demo_side s)))) e" if "e \<in> set (served 1 (demo_side s) None)" for s e
    using that by (simp add: demo_served demo_held_entry holds_newer_def split: if_splits)
  from sessions_exchange_served [where c = demo_crypto and capability = "WriteCapability 0" and snap = demo_side and filt = "\<lambda>_. None"
      and cb = "\<lambda>_. None" and now = "\<lambda>_ _. 6" and peer = "\<lambda>_. 9" and ingest = "\<lambda>_. None" and n = 4 and clock = "\<lambda>_ _. 0"
      and S = "\<lambda>s. (demo_replica (demo_side s), sync_outcome_default)"] kept demo_tell
  have "\<exists>msg S'. dialog (\<lambda>n s m. sync_process_message demo_crypto (healthy (\<lambda>_. 0)) (session_instance 1 (demo_side s)) demo_info 6 m 9 None None)
       4 Acceptor msg (\<lambda>s. (demo_replica (demo_side s), sync_outcome_default)) = (Some (Inr ()), S') \<and>
     (\<forall>s. other_side s = Dialer \<longrightarrow> holds_newer (session_held demo_crypto (fst (fst (S' s)))) demo_entry)"
    by (auto simp: demo_served demo_info_def [symmetric] demo_valid)
  moreover have "other_side Acceptor = Dialer" by simp
  ultimately show ?thesis by blast
qed

theorem held_entries_sound_witness:
  "\<exists>x. (replica_step demo_crypto 1)\<^sup>*\<^sup>* (new_store empty_tables, 0) x \<and>
     demo_entry \<in> set (namespace_entries 1 (live_tables (fst x))) \<and> entry_sound demo_crypto 1 demo_entry"
proof -
  let ?r = "\<lparr>rec_len = 4, rec_hash = 5, rec_timestamp = 6\<rparr> :: Record"
  let ?s' = "snd (replica_insert demo_crypto (healthy (\<lambda>_. 0)) demo_instance demo_info 6 6 [3] 1 5 4 (demo_replica empty_tables))"
  have step: "replica_step demo_crypto 1 (new_store empty_tables, 0) (fst ?s')"
    unfolding demo_replica_def by (rule inserted) (simp_all add: demo_instance_def)
  have sound: "replica_sound demo_crypto 1 (fst ?s')"
    by (rule replica_step_sound [OF demo_crypto_correct step])
      (simp add: replica_sound_def contents_def tables_sound_def demo_rows, simp add: new_store_def demo_rows)
  obtain s' where "replica_insert demo_crypto (healthy (\<lambda>_. 0)) demo_instance demo_info 6 6 [3] 1 5 4 (demo_replica empty_tables) =
      (Inr 0, s')" "session_held demo_crypto (fst s') (se_id demo_entry) = Some demo_entry"
    using insert_local [where s = "demo_replica empty_tables" and inst = demo_instance and c = demo_crypto and info = demo_info
        and r = ?r and author = 1 and key = "[3]" and clock = "\<lambda>_. 0" and now = 6] demo_fresh demo_insert
    by (auto simp: replica_insert_def ensure_open_def bind_def ret_def demo_entry_def [symmetric] demo_held demo_records)
  then have "demo_entry \<in> set (namespace_entries 1 (live_tables (fst (fst ?s'))))"
    using held_listed [of "fst ?s'" demo_crypto "se_id demo_entry" demo_entry] sound
    by (simp add: replica_sound_def store_inv_def contents_def)
  then show ?thesis
    using held_entries_sound [OF demo_crypto_correct r_into_rtranclp [of "replica_step demo_crypto 1", OF step]] step
    by (metis r_into_rtranclp)
qed



end
