(* ===== verification/Spec2Isabelle.thy ===== *)
theory Spec2Isabelle
  imports Record_Claims Past Registry Replica_Claims
begin

text \<open>
  Verification of the personal data network node: identifiers, the pod stores' key layout and
  payloads, and what an identity key signs.
\<close>

end
